(* ===== verification/Prelude.thy ===== *)
theory Prelude
  imports Main "HOL-Library.Word" "HOL-Library.Char_ord"
begin

text \<open>
  Shared material of the development: the C and C++ library functions the components call on
  bytes, null-terminated strings and indices (\<open>isalpha\<close>, \<open>tolower\<close>, \<open>strtol\<close>, \<open>atoi\<close>,
  \<open>strchr\<close>, \<open>std::string::substr\<close>), the result type for code that throws, and the generic
  lemmas on lists that the component theories use through the collections declared here.

  A \<open>char\<close> of the code is an Isabelle \<^typ>\<open>char\<close> (eight bits), a \<open>std::string\<close> is a
  \<^typ>\<open>string\<close>, and the classification functions are those of the "C" locale, in which
  only the ASCII letters are letters.
\<close>

section \<open>Collections\<close>

named_theorems scan_simps \<open>pointer scans as takeWhile and dropWhile\<close>
named_theorems char_simps \<open>classification of bytes\<close>
named_theorems exn_simps \<open>sequencing of computations that may throw\<close>

section \<open>Computations that may throw\<close>

text \<open>
  A computation that may throw is a value of \<open>'e + 'a\<close>: \<^const>\<open>Inl\<close> the exception,
  \<^const>\<open>Inr\<close> the result. \<open>bind_res\<close> is the sequencing of statements.
\<close>

primrec bind_res :: "'e + 'a \<Rightarrow> ('a \<Rightarrow> 'e + 'b) \<Rightarrow> 'e + 'b" where
  "bind_res (Inl e) f = Inl e"
| "bind_res (Inr a) f = f a"

lemma bind_res_Inr_iff [exn_simps]:
  "bind_res m f = Inr b \<longleftrightarrow> (\<exists>a. m = Inr a \<and> f a = Inr b)"
  by (cases m) auto

lemma bind_res_Inl_iff [exn_simps]:
  "bind_res m f = Inl e \<longleftrightarrow> m = Inl e \<or> (\<exists>a. m = Inr a \<and> f a = Inl e)"
  by (cases m) auto

lemma bind_res_assoc: "bind_res (bind_res m f) g = bind_res m (\<lambda>a. bind_res (f a) g)"
  by (cases m) auto

lemma bind_res_cong [fundef_cong]:
  "m = m' \<Longrightarrow> (\<And>a. m' = Inr a \<Longrightarrow> f a = g a) \<Longrightarrow> bind_res m f = bind_res m' g"
  by (cases m) auto

section \<open>Bytes\<close>

abbreviation code :: "char \<Rightarrow> nat" where
  "code c \<equiv> of_char c"

lemma code_less [simp]: "code c < 256"
  by (metis char_of_quasi_inj of_char_of of_char_mod_256 mod_less_divisor zero_less_numeral)

definition isupper :: "char \<Rightarrow> bool" where
  "isupper c \<longleftrightarrow> 65 \<le> code c \<and> code c \<le> 90"

definition islower :: "char \<Rightarrow> bool" where
  "islower c \<longleftrightarrow> 97 \<le> code c \<and> code c \<le> 122"

definition isalpha :: "char \<Rightarrow> bool" where
  "isalpha c \<longleftrightarrow> isupper c \<or> islower c"

definition isdigit :: "char \<Rightarrow> bool" where
  "isdigit c \<longleftrightarrow> 48 \<le> code c \<and> code c \<le> 57"

definition isspace :: "char \<Rightarrow> bool" where
  "isspace c \<longleftrightarrow> code c = 32 \<or> (9 \<le> code c \<and> code c \<le> 13)"

definition tolower :: "char \<Rightarrow> char" where
  "tolower c = (if isupper c then char_of (code c + 32) else c)"

lemma code_tolower: "code (tolower c) = (if isupper c then code c + 32 else code c)"
  by (auto simp: tolower_def isupper_def)

lemma tolower_idem [simp]: "tolower (tolower c) = tolower c"
  by (auto simp: tolower_def isupper_def)

lemma isalpha_tolower [simp]: "isalpha (tolower c) = isalpha c"
  by (auto simp: isalpha_def isupper_def islower_def code_tolower)

lemma tolower_lower: "islower c \<Longrightarrow> tolower c = c"
  by (auto simp: tolower_def isupper_def islower_def)

lemma tolower_not_alpha: "\<not> isalpha c \<Longrightarrow> tolower c = c"
  by (auto simp: tolower_def isalpha_def)

section \<open>Null-terminated strings and pointers into them\<close>

text \<open>
  \<open>c_str\<close> is what a C function sees of a \<open>std::string\<close>: the bytes up to the first null.
  A pointer into such a buffer is the rest of it, so that \<open>*p\<close> is \<open>deref p\<close> (the null byte
  at the end), \<open>p + 1\<close> is \<open>tl p\<close>, and \<open>std::string(p, q - p)\<close> is \<open>ptr_range p q\<close>.
\<close>

abbreviation NUL :: char where
  "NUL \<equiv> CHR 0x00"

definition c_str :: "string \<Rightarrow> string" where
  "c_str s = takeWhile (\<lambda>c. c \<noteq> NUL) s"

definition deref :: "string \<Rightarrow> char" where
  "deref p = (case p of [] \<Rightarrow> NUL | c # _ \<Rightarrow> c)"

definition ptr_range :: "string \<Rightarrow> string \<Rightarrow> string" where
  "ptr_range p q = take (length p - length q) p"

fun scan_until :: "(char \<Rightarrow> bool) \<Rightarrow> string \<Rightarrow> string" where
  "scan_until stop [] = []"
| "scan_until stop (c # cs) = (if stop c then c # cs else scan_until stop cs)"

fun strchr :: "string \<Rightarrow> char \<Rightarrow> string option" where
  "strchr [] x = None"
| "strchr (c # cs) x = (if c = x then Some (c # cs) else strchr cs x)"

lemma deref_simps [simp]: "deref [] = NUL" "deref (c # cs) = c"
  by (simp_all add: deref_def)

lemma c_str_id [simp]: "NUL \<notin> set s \<Longrightarrow> c_str s = s"
  by (simp add: c_str_def takeWhile_eq_all_conv) metis

lemma NUL_notin_c_str [simp]: "NUL \<notin> set (c_str s)"
  by (auto simp: c_str_def dest: set_takeWhileD)

lemma scan_until_dropWhile [scan_simps]: "scan_until stop p = dropWhile (\<lambda>c. \<not> stop c) p"
  by (induction p) auto

lemma ptr_range_append [simp]: "ptr_range (p @ q) q = p"
  by (simp add: ptr_range_def)

lemma ptr_range_dropWhile [scan_simps]: "ptr_range p (dropWhile P p) = takeWhile P p"
  by (metis ptr_range_append takeWhile_dropWhile_id)

lemma strchr_None [scan_simps]: "strchr p x = None \<longleftrightarrow> x \<notin> set p"
  by (induction p) auto

lemma strchr_Some [scan_simps]:
  "strchr p x = Some q \<longleftrightarrow> x \<in> set p \<and> q = dropWhile (\<lambda>c. c \<noteq> x) p"
  by (induction p) auto

lemma strchr_append [simp]: "x \<notin> set p \<Longrightarrow> strchr (p @ x # q) x = Some (x # q)"
  by (induction p) auto

lemma dropWhile_head: "dropWhile P p = c # q \<Longrightarrow> \<not> P c"
  by (induction p) (auto split: if_splits)

lemma dropWhile_split:
  "dropWhile P p = c # q \<Longrightarrow> p = takeWhile P p @ c # q \<and> \<not> P c"
  by (metis dropWhile_head takeWhile_dropWhile_id)

section \<open>Numbers in text\<close>

text \<open>
  \<open>strtol\<close> with an explicit base of 10 or 16: white space, an optional sign, for base 16 an
  optional \<open>0x\<close> that is followed by a digit, then the longest run of digits; out of range it
  saturates at the bounds of a 64-bit \<open>long\<close>. \<open>atoi\<close> is the conversion of \<open>strtol\<close> with base
  10 to a 32-bit \<open>int\<close>, as the C library of the platform the program is built for does it.
\<close>

definition digit_val :: "nat \<Rightarrow> char \<Rightarrow> nat option" where
  "digit_val base c =
     (let n = code c;
          v = (if isdigit c then n - 48
               else if islower c then n - 87
               else if isupper c then n - 55 else base)
      in if v < base then Some v else None)"

fun read_digits :: "nat \<Rightarrow> nat \<Rightarrow> string \<Rightarrow> nat" where
  "read_digits base acc [] = acc"
| "read_digits base acc (c # cs) =
     (case digit_val base c of None \<Rightarrow> acc | Some d \<Rightarrow> read_digits base (acc * base + d) cs)"

definition skip_hex_prefix :: "nat \<Rightarrow> string \<Rightarrow> string" where
  "skip_hex_prefix base s =
     (case s of z # x # d # _ \<Rightarrow>
        if base = 16 \<and> z = CHR ''0'' \<and> (x = CHR ''x'' \<or> x = CHR ''X'') \<and> digit_val 16 d \<noteq> None
        then drop 2 s else s
      | _ \<Rightarrow> s)"

definition clamp_long :: "int \<Rightarrow> int" where
  "clamp_long n = max (- (2 ^ 63)) (min (2 ^ 63 - 1) n)"

definition strtol :: "nat \<Rightarrow> string \<Rightarrow> int" where
  "strtol base s =
     (let t = dropWhile isspace s;
          neg = (deref t = CHR ''-'');
          u = (if deref t = CHR ''-'' \<or> deref t = CHR ''+'' then tl t else t);
          n = int (read_digits base 0 (skip_hex_prefix base u))
      in clamp_long (if neg then - n else n))"

definition to_int32 :: "int \<Rightarrow> int" where
  "to_int32 n = (n + 2 ^ 31) mod 2 ^ 32 - 2 ^ 31"

definition atoi :: "string \<Rightarrow> int" where
  "atoi s = to_int32 (strtol 10 s)"

lemma to_int32_range: "- (2 ^ 31) \<le> to_int32 n \<and> to_int32 n < 2 ^ 31"
  by (simp add: to_int32_def)

lemma to_int32_id: "- (2 ^ 31) \<le> n \<Longrightarrow> n < 2 ^ 31 \<Longrightarrow> to_int32 n = n"
  by (simp add: to_int32_def)

text \<open>The decimal value of a digit string, the reference for \<open>atoi\<close>.\<close>

fun dec_value :: "nat \<Rightarrow> string \<Rightarrow> nat" where
  "dec_value acc [] = acc"
| "dec_value acc (c # cs) = dec_value (acc * 10 + (code c - 48)) cs"

text \<open>The decimal text of a number, without leading zeros: the reference for number output.\<close>

fun nat_dec :: "nat \<Rightarrow> string" where
  "nat_dec n = (if n < 10 then [char_of (48 + n)] else nat_dec (n div 10) @ [char_of (48 + n mod 10)])"

declare nat_dec.simps [simp del]

lemma dec_value_snoc: "dec_value acc (s @ [c]) = dec_value acc s * 10 + (code c - 48)"
  by (induction s arbitrary: acc) auto

lemma nat_dec_small: "n < 10 \<Longrightarrow> nat_dec n = [char_of (48 + n)]"
  by (simp add: nat_dec.simps)

lemma nat_dec_zero: "nat_dec 0 = ''0''"
  by code_simp

lemma nat_dec_step: "10 \<le> n \<Longrightarrow> nat_dec n = nat_dec (n div 10) @ [char_of (48 + n mod 10)]"
  by (simp add: nat_dec.simps)

lemma code_digit [simp]: "n < 10 \<Longrightarrow> code (char_of (48 + n)) = 48 + n"
  by simp

lemma nat_dec_value [simp]: "dec_value 0 (nat_dec n) = n"
proof (induction n rule: less_induct)
  case (less n)
  show ?case
  proof (cases "n < 10")
    case False
    then have "dec_value 0 (nat_dec n) = n div 10 * 10 + n mod 10"
      using less.IH [of "n div 10"] by (simp add: nat_dec_step dec_value_snoc)
    then show ?thesis by simp
  qed (simp add: nat_dec_small)
qed

lemma nat_dec_digits: "c \<in> set (nat_dec n) \<Longrightarrow> isdigit c"
proof (induction n rule: less_induct)
  case (less n)
  have "n div 10 < n" if "\<not> n < 10" using that by simp
  then show ?case
    using less by (cases "n < 10") (fastforce simp: nat_dec_small nat_dec_step isdigit_def)+
qed

lemma nat_dec_nonempty [simp]: "nat_dec n \<noteq> []"
  by (simp add: nat_dec.simps)

lemma nat_dec_head: "n \<noteq> 0 \<Longrightarrow> hd (nat_dec n) \<noteq> CHR ''0''"
proof (induction n rule: less_induct)
  case (less n)
  show ?case
  proof (cases "n < 10")
    case True
    have "code (char_of (48 + n)) \<noteq> code (CHR ''0'')"
      using True less.prems by simp
    with True show ?thesis by (metis list.sel(1) nat_dec_small)
  next
    case False
    then show ?thesis using less.IH [of "n div 10"] by (simp add: nat_dec_step)
  qed
qed

lemma read_digits_dec:
  assumes "\<forall>c \<in> set s. isdigit c" and "t = [] \<or> \<not> isdigit (hd t)"
  shows "read_digits 10 acc (s @ t) = dec_value acc s"
  using assms
proof (induction s arbitrary: acc)
  case Nil
  then show ?case
    by (cases t) (auto simp: digit_val_def islower_def isupper_def Let_def)
next
  case (Cons c s)
  have "digit_val 10 c = Some (code c - 48)"
    using Cons.prems by (auto simp: digit_val_def isdigit_def Let_def)
  with Cons show ?case by simp
qed

lemma strtol_dec:
  assumes "s \<noteq> []" and "\<forall>c \<in> set s. isdigit c" and "t = [] \<or> \<not> isdigit (hd t)"
  shows "strtol 10 (s @ t) = min (int (dec_value 0 s)) (2 ^ 63 - 1)"
proof -
  obtain c cs where s: "s = c # cs" using assms(1) by (cases s) auto
  have c: "isdigit c" using assms(2) s by simp
  have "\<not> isspace c" using c by (auto simp: isdigit_def isspace_def)
  moreover have "c \<noteq> CHR ''-''" "c \<noteq> CHR ''+''" using c by (auto simp: isdigit_def)
  moreover have "skip_hex_prefix 10 r = r" for r
    by (auto simp: skip_hex_prefix_def split: list.splits)
  ultimately show ?thesis
    using read_digits_dec [OF assms(2,3), of 0]
    by (simp add: strtol_def s clamp_long_def Let_def)
qed

lemma atoi_dec:
  assumes "s \<noteq> []" and "\<forall>c \<in> set s. isdigit c" and "t = [] \<or> \<not> isdigit (hd t)"
  shows "atoi (s @ t) = to_int32 (min (int (dec_value 0 s)) (2 ^ 63 - 1))"
  using strtol_dec [OF assms] by (simp add: atoi_def)

lemma atoi_empty [simp]: "atoi [] = 0"
  by (simp add: atoi_def strtol_def skip_hex_prefix_def clamp_long_def to_int32_def)

section \<open>Indices of a standard string\<close>

text \<open>
  \<open>size_t\<close> is 64 bits wide; \<open>npos\<close> is its largest value. An index computation of the code
  is written with \<open>size_sub\<close>, which wraps. \<open>substr\<close> throws when the start is past the end.
\<close>

definition npos :: nat where
  "npos = 2 ^ 64 - 1"

definition size_sub :: "nat \<Rightarrow> nat \<Rightarrow> nat" where
  "size_sub a b = (a + 2 ^ 64 - b) mod 2 ^ 64"

datatype std_error = Out_of_range

definition substr :: "string \<Rightarrow> nat \<Rightarrow> nat \<Rightarrow> std_error + string" where
  "substr s pos n = (if pos > length s then Inl Out_of_range else Inr (take n (drop pos s)))"

lemma size_sub_le: "b \<le> a \<Longrightarrow> a < 2 ^ 64 \<Longrightarrow> size_sub a b = a - b"
proof -
  assume "b \<le> a" and "a < 2 ^ 64"
  then have e: "a + 2 ^ 64 - b = (a - b) + 2 ^ 64" and l: "a - b < 2 ^ 64" by simp_all
  have "size_sub a b = (a - b) mod 2 ^ 64"
    unfolding size_sub_def e by (rule mod_add_self2)
  with l show "size_sub a b = a - b" by simp
qed

section \<open>Joining\<close>

text \<open>The text of a list with a separator between two neighbours.\<close>

fun join :: "'a list \<Rightarrow> 'a list list \<Rightarrow> 'a list" where
  "join sep [] = []"
| "join sep [x] = x"
| "join sep (x # y # zs) = x @ sep @ join sep (y # zs)"

lemma join_Cons: "join sep (x # xs) = x @ (if xs = [] then [] else sep @ join sep xs)"
  by (cases xs) auto

lemma join_snoc: "join sep (xs @ [x]) = (if xs = [] then x else join sep xs @ sep @ x)"
  by (induction xs) (auto simp: join_Cons)

section \<open>Sums over a list with one element changed\<close>

lemma sum_list_map_update:
  fixes w :: "'a \<Rightarrow> 'b :: comm_monoid_add"
  shows "i < length xs \<Longrightarrow>
    sum_list (map w (xs[i := x])) + w (xs ! i) = sum_list (map w xs) + w x"
proof (induction xs arbitrary: i)
  case (Cons y ys)
  show ?case
  proof (cases i)
    case 0
    then show ?thesis by (simp add: ac_simps)
  next
    case (Suc j)
    with Cons show ?thesis by (simp add: add.assoc)
  qed
qed simp

section \<open>Invariants of step relations\<close>

text \<open>
  The contract of an inductive invariant: it holds initially and every step keeps it. Its
  consequence, that it holds in every reachable state, is used by the components that are
  state machines.
\<close>

locale inductive_invariant =
  fixes init :: "'s \<Rightarrow> bool"
    and step :: "'s \<Rightarrow> 's \<Rightarrow> bool"
    and inv :: "'s \<Rightarrow> bool"
  assumes init_inv: "init s \<Longrightarrow> inv s"
    and step_inv: "inv s \<Longrightarrow> step s s' \<Longrightarrow> inv s'"
begin

lemma steps_inv: "step\<^sup>*\<^sup>* s s' \<Longrightarrow> inv s \<Longrightarrow> inv s'"
  by (induction rule: rtranclp_induct) (auto intro: step_inv)

lemma reachable_inv: "init s \<Longrightarrow> step\<^sup>*\<^sup>* s s' \<Longrightarrow> inv s'"
  by (blast intro: steps_inv init_inv)

end

section \<open>Texts of values\<close>

text \<open>
  The contract of a writer and a reader of texts: what is written for a valid value is read
  back, up to a normal form that has the same text.
\<close>

locale text_codec =
  fixes writer :: "'v \<Rightarrow> 'x + 't"
    and reader :: "'t \<Rightarrow> 'x + 'v"
    and valid :: "'v \<Rightarrow> bool"
    and normal :: "'v \<Rightarrow> 'v"
  assumes read_write: "valid v \<Longrightarrow> writer v = Inr t \<Longrightarrow> reader t = Inr (normal v)"
    and write_normal: "valid v \<Longrightarrow> writer (normal v) = writer v"
    and normal_valid: "valid v \<Longrightarrow> valid (normal v)"
begin

lemma write_inject: "valid v \<Longrightarrow> valid w \<Longrightarrow> writer v = Inr t \<Longrightarrow> writer w = Inr t \<Longrightarrow> normal v = normal w"
  by (metis read_write sum.inject(2))

lemma normal_idem: "valid v \<Longrightarrow> writer v = Inr t \<Longrightarrow> normal (normal v) = normal v"
  by (metis write_inject write_normal normal_valid)

lemma reread_text: "valid v \<Longrightarrow> writer v = Inr t \<Longrightarrow> bind_res (reader t) writer = Inr t"
  by (simp add: read_write write_normal)

end

end
