(* ===== verification/Url_Parser.thy ===== *)
theory Url_Parser
  imports Prelude
begin

text \<open>
  The URL parser of \<open>common/LUrlParser.h\<close> and \<open>common/LUrlParser.cpp\<close>: the class
  \<open>clParseURL\<close> as a record, \<open>IsSchemeValid\<close>, \<open>ParseURL\<close> (one definition per part of the
  function, composed in its order) and \<open>GetPort\<close>. The theorems are a round trip against a
  printer, a lossless decomposition of every accepted text, the exact conditions of the error
  codes, and the range of the port.
\<close>

section \<open>The model\<close>

datatype LUrlParserError =
    LUrlParserError_Ok
  | LUrlParserError_Uninitialized
  | LUrlParserError_NoUrlCharacter
  | LUrlParserError_InvalidSchemeName
  | LUrlParserError_NoDoubleSlash
  | LUrlParserError_NoAtSign
  | LUrlParserError_UnexpectedEndOfLine
  | LUrlParserError_NoSlash

record clParseURL =
  m_ErrorCode :: LUrlParserError
  m_Scheme :: string
  m_Host :: string
  m_Port :: string
  m_Path :: string
  m_Query :: string
  m_Fragment :: string
  m_UserName :: string
  m_Password :: string

definition clParseURL_init :: clParseURL where
  "clParseURL_init =
     \<lparr>m_ErrorCode = LUrlParserError_Uninitialized, m_Scheme = [], m_Host = [], m_Port = [],
      m_Path = [], m_Query = [], m_Fragment = [], m_UserName = [], m_Password = []\<rparr>"

definition clParseURL_error :: "LUrlParserError \<Rightarrow> clParseURL" where
  "clParseURL_error ErrorCode = clParseURL_init\<lparr>m_ErrorCode := ErrorCode\<rparr>"

definition IsValid :: "clParseURL \<Rightarrow> bool" where
  "IsValid u \<longleftrightarrow> m_ErrorCode u = LUrlParserError_Ok"

fun IsSchemeValid :: "string \<Rightarrow> bool" where
  "IsSchemeValid [] = True"
| "IsSchemeValid (c # cs) =
     (if \<not> isalpha c \<and> c \<noteq> CHR ''+'' \<and> c \<noteq> CHR ''-'' \<and> c \<noteq> CHR ''.'' then False
      else IsSchemeValid cs)"

text \<open>
  \<open>GetPort\<close> returns a truth value and writes through a pointer that may be null: the second
  argument is what the pointer points to (\<^const>\<open>None\<close> for a null pointer), the second result
  what it points to afterwards.
\<close>

definition GetPort :: "clParseURL \<Rightarrow> int option \<Rightarrow> bool \<times> int option" where
  "GetPort u OutPort =
     (if \<not> IsValid u then (False, OutPort)
      else let Port = atoi (c_str (m_Port u)) in
        if Port \<le> 0 \<or> Port > 65535 then (False, OutPort)
        else (True, map_option (\<lambda>_. Port) OutPort))"

text \<open>
  The parts of \<open>ParseURL\<close>. Each takes the result built so far and the pointer
  \<open>CurrentString\<close>, and either returns an error code (the early returns) or both, updated.
\<close>

definition parse_scheme :: "clParseURL \<Rightarrow> string \<Rightarrow> LUrlParserError + (clParseURL \<times> string)" where
  "parse_scheme Result CurrentString =
     (case strchr CurrentString CHR '':'' of
        None \<Rightarrow> Inl LUrlParserError_NoUrlCharacter
      | Some LocalString \<Rightarrow>
          let scheme = ptr_range CurrentString LocalString in
          if \<not> IsSchemeValid scheme then Inl LUrlParserError_InvalidSchemeName
          else Inr (Result\<lparr>m_Scheme := map tolower scheme\<rparr>, tl LocalString))"

definition skip_slashes :: "clParseURL \<Rightarrow> string \<Rightarrow> LUrlParserError + (clParseURL \<times> string)" where
  "skip_slashes Result CurrentString =
     (if deref CurrentString \<noteq> CHR ''/'' then Inl LUrlParserError_NoDoubleSlash
      else let CurrentString = tl CurrentString in
        if deref CurrentString \<noteq> CHR ''/'' then Inl LUrlParserError_NoDoubleSlash
        else Inr (Result, tl CurrentString))"

fun has_user_name :: "string \<Rightarrow> bool" where
  "has_user_name [] = False"
| "has_user_name (c # cs) =
     (if c = CHR ''@'' then True else if c = CHR ''/'' then False else has_user_name cs)"

definition parse_password :: "clParseURL \<Rightarrow> string \<Rightarrow> clParseURL \<times> string" where
  "parse_password Result CurrentString =
     (if deref CurrentString = CHR '':'' then
        let CurrentString = tl CurrentString;
            LocalString = scan_until (\<lambda>c. c = CHR ''@'') CurrentString
        in (Result\<lparr>m_Password := ptr_range CurrentString LocalString\<rparr>, LocalString)
      else (Result, CurrentString))"

definition parse_user :: "clParseURL \<Rightarrow> string \<Rightarrow> LUrlParserError + (clParseURL \<times> string)" where
  "parse_user Result CurrentString =
     (if has_user_name CurrentString then
        let LocalString = scan_until (\<lambda>c. c = CHR '':'' \<or> c = CHR ''@'') CurrentString;
            (Result, CurrentString) = parse_password
               (Result\<lparr>m_UserName := ptr_range CurrentString LocalString\<rparr>) LocalString
        in if deref CurrentString \<noteq> CHR ''@'' then Inl LUrlParserError_NoAtSign
           else Inr (Result, tl CurrentString)
      else Inr (Result, CurrentString))"

fun scan_host :: "bool \<Rightarrow> string \<Rightarrow> string" where
  "scan_host bHasBracket [] = []"
| "scan_host bHasBracket (c # cs) =
     (if bHasBracket \<and> c = CHR '']'' then cs
      else if \<not> bHasBracket \<and> (c = CHR '':'' \<or> c = CHR ''/'') then c # cs
      else scan_host bHasBracket cs)"

definition parse_host :: "clParseURL \<Rightarrow> string \<Rightarrow> clParseURL \<times> string" where
  "parse_host Result CurrentString =
     (let bHasBracket = (deref CurrentString = CHR ''['');
          LocalString = scan_host bHasBracket CurrentString
      in (Result\<lparr>m_Host := ptr_range CurrentString LocalString\<rparr>, LocalString))"

definition parse_port :: "clParseURL \<Rightarrow> string \<Rightarrow> clParseURL \<times> string" where
  "parse_port Result CurrentString =
     (if deref CurrentString = CHR '':'' then
        let CurrentString = tl CurrentString;
            LocalString = scan_until (\<lambda>c. c = CHR ''/'') CurrentString
        in (Result\<lparr>m_Port := ptr_range CurrentString LocalString\<rparr>, LocalString)
      else (Result, CurrentString))"

definition parse_query :: "clParseURL \<Rightarrow> string \<Rightarrow> clParseURL \<times> string" where
  "parse_query Result CurrentString =
     (if deref CurrentString = CHR ''?'' then
        let CurrentString = tl CurrentString;
            LocalString = scan_until (\<lambda>c. c = CHR ''#'') CurrentString
        in (Result\<lparr>m_Query := ptr_range CurrentString LocalString\<rparr>, LocalString)
      else (Result, CurrentString))"

definition parse_fragment :: "clParseURL \<Rightarrow> string \<Rightarrow> clParseURL \<times> string" where
  "parse_fragment Result CurrentString =
     (if deref CurrentString = CHR ''#'' then
        let CurrentString = tl CurrentString;
            LocalString = scan_until (\<lambda>c. False) CurrentString
        in (Result\<lparr>m_Fragment := ptr_range CurrentString LocalString\<rparr>, LocalString)
      else (Result, CurrentString))"

definition parse_path :: "clParseURL \<Rightarrow> string \<Rightarrow> LUrlParserError + clParseURL" where
  "parse_path Result CurrentString =
     (if CurrentString = [] then Inr (Result\<lparr>m_ErrorCode := LUrlParserError_Ok\<rparr>)
      else if deref CurrentString \<noteq> CHR ''/'' then Inl LUrlParserError_NoSlash
      else
        let CurrentString = tl CurrentString;
            LocalString = scan_until (\<lambda>c. c = CHR ''#'' \<or> c = CHR ''?'') CurrentString;
            (Result, CurrentString) =
               parse_query (Result\<lparr>m_Path := ptr_range CurrentString LocalString\<rparr>) LocalString;
            (Result, CurrentString) = parse_fragment Result CurrentString
        in Inr (Result\<lparr>m_ErrorCode := LUrlParserError_Ok\<rparr>))"

definition parse_stages :: "string \<Rightarrow> LUrlParserError + clParseURL" where
  "parse_stages CurrentString =
     bind_res (parse_scheme clParseURL_init CurrentString) (\<lambda>(Result, CurrentString).
     bind_res (skip_slashes Result CurrentString) (\<lambda>(Result, CurrentString).
     bind_res (parse_user Result CurrentString) (\<lambda>(Result, CurrentString).
       let (Result, CurrentString) = parse_host Result CurrentString;
           (Result, CurrentString) = parse_port Result CurrentString
       in parse_path Result CurrentString)))"

definition ParseURL :: "string \<Rightarrow> clParseURL" where
  "ParseURL URL =
     (case parse_stages (c_str URL) of
        Inl ErrorCode \<Rightarrow> clParseURL_error ErrorCode
      | Inr Result \<Rightarrow> Result)"

section \<open>Scans\<close>

lemma IsSchemeValid_iff:
  "IsSchemeValid s \<longleftrightarrow> (\<forall>c \<in> set s. isalpha c \<or> c = CHR ''+'' \<or> c = CHR ''-'' \<or> c = CHR ''.'')"
  by (induction s) auto

lemma has_user_name_iff:
  "has_user_name p \<longleftrightarrow> CHR ''@'' \<in> set (takeWhile (\<lambda>c. c \<noteq> CHR ''/'') p)"
  by (induction p) auto

lemma has_user_name_append:
  "CHR ''@'' \<notin> set p \<Longrightarrow> CHR ''/'' \<notin> set p \<Longrightarrow> has_user_name (p @ q) = has_user_name q"
  by (induction p) auto

lemma scan_host_plain [scan_simps]:
  "scan_host False p = dropWhile (\<lambda>c. c \<noteq> CHR '':'' \<and> c \<noteq> CHR ''/'') p"
  by (induction p) auto

lemma scan_host_bracket_append:
  "CHR '']'' \<notin> set p \<Longrightarrow> scan_host True (p @ CHR '']'' # q) = q"
  by (induction p) auto

lemma scan_host_bracket_none: "CHR '']'' \<notin> set p \<Longrightarrow> scan_host True p = []"
  by (induction p) auto

lemma scan_until_append:
  "(\<And>c. c \<in> set p \<Longrightarrow> \<not> stop c) \<Longrightarrow> q = [] \<or> stop (deref q) \<Longrightarrow> scan_until stop (p @ q) = q"
  by (induction p) (cases q; auto)+


section \<open>Round trip\<close>

text \<open>
  The reference printer: the text of a URL from its parts, a part and its delimiter left out
  when the part is empty.
\<close>

definition opt_part :: "char \<Rightarrow> string \<Rightarrow> string" where
  "opt_part d x = (if x = [] then [] else d # x)"

definition print_user :: "clParseURL \<Rightarrow> string" where
  "print_user u =
     (if m_UserName u = [] \<and> m_Password u = [] then []
      else m_UserName u @ opt_part CHR '':'' (m_Password u) @ ''@'')"

definition print_host_port :: "clParseURL \<Rightarrow> string" where
  "print_host_port u = m_Host u @ opt_part CHR '':'' (m_Port u)"

definition print_path :: "clParseURL \<Rightarrow> string" where
  "print_path u =
     (if m_Path u = [] \<and> m_Query u = [] \<and> m_Fragment u = [] then []
      else CHR ''/'' # m_Path u @ opt_part CHR ''?'' (m_Query u) @ opt_part CHR ''#'' (m_Fragment u))"

definition print_url :: "clParseURL \<Rightarrow> string" where
  "print_url u = m_Scheme u @ ''://'' @ print_user u @ print_host_port u @ print_path u"

text \<open>
  A URL whose parts contain none of the delimiters that end them. A host is a name, or an
  address in brackets; without user information, no \<open>@\<close> may stand in front of the first slash.
\<close>

definition host_ok :: "string \<Rightarrow> bool" where
  "host_ok h \<longleftrightarrow>
     (deref h \<noteq> CHR ''['' \<and> CHR '':'' \<notin> set h \<and> CHR ''/'' \<notin> set h)
     \<or> (\<exists>b. h = CHR ''['' # b @ '']'' \<and> CHR '']'' \<notin> set b)"

definition wf_url :: "clParseURL \<Rightarrow> bool" where
  "wf_url u \<longleftrightarrow>
     m_ErrorCode u = LUrlParserError_Ok
     \<and> IsSchemeValid (m_Scheme u) \<and> map tolower (m_Scheme u) = m_Scheme u
     \<and> set (m_UserName u) \<inter> set ''@:/'' = {}
     \<and> set (m_Password u) \<inter> set ''@/'' = {}
     \<and> host_ok (m_Host u)
     \<and> CHR ''/'' \<notin> set (m_Port u)
     \<and> (m_UserName u = [] \<and> m_Password u = [] \<longrightarrow> \<not> has_user_name (m_Host u @ m_Port u))
     \<and> set (m_Path u) \<inter> set ''?#'' = {}
     \<and> CHR ''#'' \<notin> set (m_Query u)
     \<and> NUL \<notin> set (print_url u)"

lemma scheme_no_colon: "IsSchemeValid s \<Longrightarrow> CHR '':'' \<notin> set s"
  by (auto simp: IsSchemeValid_iff isalpha_def isupper_def islower_def)

lemma parse_scheme_print:
  "IsSchemeValid s \<Longrightarrow>
   parse_scheme R (s @ CHR '':'' # q) = Inr (R\<lparr>m_Scheme := map tolower s\<rparr>, q)"
  by (simp add: parse_scheme_def scheme_no_colon)

lemma skip_slashes_print: "skip_slashes R (''//'' @ q) = Inr (R, q)"
  by (simp add: skip_slashes_def)

lemma deref_opt_part: "deref (opt_part d x @ q) = (if x = [] then deref q else d)"
  by (simp add: opt_part_def)

lemma parse_password_print:
  assumes "CHR ''@'' \<notin> set x" and "deref q = CHR ''@''" and "m_Password R = []"
  shows "parse_password R (opt_part CHR '':'' x @ q) = (R\<lparr>m_Password := x\<rparr>, q)"
proof -
  have "scan_until (\<lambda>c. c = CHR ''@'') (x @ q) = q"
    by (rule scan_until_append) (use assms in auto)
  with assms show ?thesis
    by (cases "x = []") (simp_all add: parse_password_def opt_part_def)
qed

lemma has_user_name_user:
  assumes "CHR ''/'' \<notin> set x" and "CHR ''/'' \<notin> set y"
  shows "has_user_name (x @ opt_part CHR '':'' y @ CHR ''@'' # q)"
proof -
  have *: "has_user_name (z @ CHR ''@'' # q)" if "CHR ''/'' \<notin> set z" for z
    using that by (induction z) auto
  show ?thesis
    using * [of "x @ opt_part CHR '':'' y"] assms by (simp add: opt_part_def)
qed

lemma parse_user_print:
  assumes "set (m_UserName u) \<inter> set ''@:/'' = {}" and "set (m_Password u) \<inter> set ''@/'' = {}"
    and "m_UserName R = []" "m_Password R = []"
    and "m_UserName u = [] \<and> m_Password u = [] \<Longrightarrow> \<not> has_user_name q"
  shows "parse_user R (print_user u @ q) =
           Inr (R\<lparr>m_UserName := m_UserName u, m_Password := m_Password u\<rparr>, q)"
proof (cases "m_UserName u = [] \<and> m_Password u = []")
  case True
  then show ?thesis using assms by (simp add: parse_user_def print_user_def)
next
  case False
  let ?w = "opt_part CHR '':'' (m_Password u) @ CHR ''@'' # q"
  have p: "print_user u @ q = m_UserName u @ ?w"
    using False by (simp add: print_user_def)
  have h: "has_user_name (m_UserName u @ ?w)"
    by (rule has_user_name_user) (use assms(1,2) in auto)
  have s: "scan_until (\<lambda>c. c = CHR '':'' \<or> c = CHR ''@'') (m_UserName u @ ?w) = ?w"
    by (rule scan_until_append) (use assms(1) in \<open>auto simp: deref_opt_part\<close>)
  have w: "parse_password R' ?w = (R'\<lparr>m_Password := m_Password u\<rparr>, CHR ''@'' # q)"
    if "m_Password R' = []" for R'
    by (rule parse_password_print) (use assms(2) that in auto)
  show ?thesis
    using assms(3,4) by (simp add: p parse_user_def h s w Let_def)
qed

lemma scan_host_print:
  assumes "host_ok h" and "q = [] \<or> deref q = CHR '':'' \<or> deref q = CHR ''/''"
  shows "scan_host (deref (h @ q) = CHR ''['') (h @ q) = q"
  using assms(1) unfolding host_ok_def
proof (elim disjE exE conjE)
  assume h: "deref h \<noteq> CHR ''[''" "CHR '':'' \<notin> set h" "CHR ''/'' \<notin> set h"
  have "deref (h @ q) \<noteq> CHR ''[''"
    using h(1) assms(2) by (cases h) auto
  moreover have "dropWhile (\<lambda>c. c \<noteq> CHR '':'' \<and> c \<noteq> CHR ''/'') (h @ q) = q"
    using h(2,3) assms(2) by (cases q) (auto simp: dropWhile_append3)
  ultimately show ?thesis by (simp add: scan_simps)
next
  fix b assume h: "h = CHR ''['' # b @ '']''" "CHR '']'' \<notin> set b"
  then show ?thesis
    using scan_host_bracket_append [of "CHR ''['' # b" q] by simp
qed

lemma parse_host_print:
  assumes "host_ok h" and "q = [] \<or> deref q = CHR '':'' \<or> deref q = CHR ''/''"
  shows "parse_host R (h @ q) = (R\<lparr>m_Host := h\<rparr>, q)"
  using scan_host_print [OF assms] by (simp add: parse_host_def)

lemma parse_port_print:
  assumes "CHR ''/'' \<notin> set x" and "q = [] \<or> deref q = CHR ''/''" and "m_Port R = []"
  shows "parse_port R (opt_part CHR '':'' x @ q) = (R\<lparr>m_Port := x\<rparr>, q)"
proof -
  have "scan_until (\<lambda>c. c = CHR ''/'') (x @ q) = q"
    by (rule scan_until_append) (use assms in auto)
  moreover have "deref q \<noteq> CHR '':''" using assms(2) by auto
  ultimately show ?thesis
    using assms(3) by (cases "x = []") (simp_all add: parse_port_def opt_part_def)
qed

lemma parse_query_print:
  assumes "CHR ''#'' \<notin> set x" and "q = [] \<or> deref q = CHR ''#''" and "m_Query R = []"
  shows "parse_query R (opt_part CHR ''?'' x @ q) = (R\<lparr>m_Query := x\<rparr>, q)"
proof -
  have "scan_until (\<lambda>c. c = CHR ''#'') (x @ q) = q"
    by (rule scan_until_append) (use assms in auto)
  moreover have "deref q \<noteq> CHR ''?''" using assms(2) by auto
  ultimately show ?thesis
    using assms(3) by (cases "x = []") (simp_all add: parse_query_def opt_part_def)
qed

lemma parse_fragment_print:
  assumes "m_Fragment R = []"
  shows "parse_fragment R (opt_part CHR ''#'' x) = (R\<lparr>m_Fragment := x\<rparr>, [])"
proof -
  have "scan_until (\<lambda>c. False) x = []" by (simp add: scan_simps)
  then show ?thesis
    using assms by (simp add: parse_fragment_def opt_part_def ptr_range_def)
qed

lemma parse_path_print:
  assumes "set (m_Path u) \<inter> set ''?#'' = {}" and "CHR ''#'' \<notin> set (m_Query u)"
    and "m_Path R = []" "m_Query R = []" "m_Fragment R = []"
  shows "parse_path R (print_path u) =
           Inr (R\<lparr>m_Path := m_Path u, m_Query := m_Query u, m_Fragment := m_Fragment u,
                  m_ErrorCode := LUrlParserError_Ok\<rparr>)"
proof (cases "m_Path u = [] \<and> m_Query u = [] \<and> m_Fragment u = []")
  case True
  then show ?thesis using assms by (simp add: parse_path_def print_path_def)
next
  case False
  let ?f = "opt_part CHR ''#'' (m_Fragment u)" and ?w = "opt_part CHR ''?'' (m_Query u)"
  have p: "print_path u = CHR ''/'' # m_Path u @ ?w @ ?f"
    using False by (auto simp: print_path_def)
  have f: "?f = [] \<or> deref ?f = CHR ''#''" by (simp add: opt_part_def)
  have s: "scan_until (\<lambda>c. c = CHR ''#'' \<or> c = CHR ''?'') (m_Path u @ ?w @ ?f) = ?w @ ?f"
    by (rule scan_until_append) (use assms(1) in \<open>auto simp: opt_part_def\<close>)
  have q: "parse_query R' (?w @ ?f) = (R'\<lparr>m_Query := m_Query u\<rparr>, ?f)" if "m_Query R' = []" for R'
    by (rule parse_query_print) (use assms(2) f that in auto)
  show ?thesis
    using assms(3,4,5) by (simp add: parse_path_def p s q parse_fragment_print Let_def)
qed

lemma has_user_name_host_port:
  assumes "CHR ''/'' \<notin> set p" and "q = [] \<or> deref q = CHR ''/''"
  shows "has_user_name (h @ opt_part CHR '':'' p @ q) = has_user_name (h @ p)"
proof -
  have q: "\<not> has_user_name q" using assms(2) by (cases q) auto
  have "has_user_name (p @ q) = has_user_name p"
    using assms(1) q by (induction p) auto
  then have "has_user_name (opt_part CHR '':'' p @ q) = has_user_name p"
    using q by (simp add: opt_part_def)
  then show ?thesis by (induction h) auto
qed

text \<open>
  C14: Round trip of the URL parser. For every well-formed URL value (valid lower-case scheme,
  parts free of the delimiters that end them, a bracketed or plain host), parsing its printed
  text gives back exactly that value, every field included, with the error code Ok.
\<close>

theorem ParseURL_print_url:
  assumes "wf_url u"
  shows "ParseURL (print_url u) = u"
proof -
  let ?R = "clParseURL_init\<lparr>m_Scheme := m_Scheme u\<rparr>"
  let ?port = "opt_part CHR '':'' (m_Port u) @ print_path u"
  let ?tail = "m_Host u @ ?port"
  have wf: "IsSchemeValid (m_Scheme u)" "map tolower (m_Scheme u) = m_Scheme u"
    "host_ok (m_Host u)" "CHR ''/'' \<notin> set (m_Port u)" "NUL \<notin> set (print_url u)"
    "m_ErrorCode u = LUrlParserError_Ok"
    using assms by (simp_all add: wf_url_def)
  have pp: "print_path u = [] \<or> deref (print_path u) = CHR ''/''"
    by (simp add: print_path_def)
  have c: "c_str (print_url u) = m_Scheme u @ CHR '':'' # ''//'' @ print_user u @ ?tail"
    using wf(5) by (simp add: print_url_def print_host_port_def)
  have s: "parse_scheme clParseURL_init (m_Scheme u @ CHR '':'' # x) = Inr (?R, x)" for x
    using wf(1,2) by (simp add: parse_scheme_print)
  have user: "parse_user ?R (print_user u @ ?tail) =
      Inr (?R\<lparr>m_UserName := m_UserName u, m_Password := m_Password u\<rparr>, ?tail)"
    by (rule parse_user_print)
       (use assms has_user_name_host_port [OF wf(4) pp] in \<open>auto simp: wf_url_def clParseURL_init_def\<close>)
  have host: "parse_host R ?tail = (R\<lparr>m_Host := m_Host u\<rparr>, ?port)" for R
    by (rule parse_host_print [OF wf(3)]) (use pp in \<open>auto simp: opt_part_def\<close>)
  have port: "parse_port R ?port = (R\<lparr>m_Port := m_Port u\<rparr>, print_path u)" if "m_Port R = []" for R
    by (rule parse_port_print [OF wf(4) pp that])
  have path: "parse_path R (print_path u) =
      Inr (R\<lparr>m_Path := m_Path u, m_Query := m_Query u, m_Fragment := m_Fragment u,
             m_ErrorCode := LUrlParserError_Ok\<rparr>)"
    if "m_Path R = []" "m_Query R = []" "m_Fragment R = []" for R
    by (rule parse_path_print) (use assms that in \<open>auto simp: wf_url_def\<close>)
  show ?thesis
    unfolding ParseURL_def parse_stages_def c s
    by (simp only: bind_res.simps prod.case skip_slashes_print user host port Let_def)
       (simp add: port path clParseURL_init_def wf(6) [symmetric])
qed


definition example_url :: clParseURL where
  "example_url =
     \<lparr>m_ErrorCode = LUrlParserError_Ok, m_Scheme = ''http'', m_Host = ''[::1]'', m_Port = ''80'',
      m_Path = ''a/b'', m_Query = ''k=v'', m_Fragment = ''top'', m_UserName = ''me'',
      m_Password = ''pw''\<rparr>"

lemma example_url_wf: "wf_url example_url"
proof -
  have "host_ok ''[::1]''"
    unfolding host_ok_def by (rule disjI2, rule exI [of _ "''::1''"]) simp
  then show ?thesis
    unfolding wf_url_def example_url_def
    by (simp add: isalpha_def isupper_def islower_def tolower_def print_url_def print_user_def
        print_host_port_def print_path_def opt_part_def)
qed

theorem ParseURL_print_url_witness:
  "wf_url example_url \<and> print_url example_url = ''http://me:pw@[::1]:80/a/b?k=v#top''
   \<and> ParseURL (print_url example_url) = example_url"
proof (intro conjI)
  show "print_url example_url = ''http://me:pw@[::1]:80/a/b?k=v#top''"
    by (simp add: example_url_def print_url_def print_user_def print_host_port_def
        print_path_def opt_part_def)
qed (use example_url_wf ParseURL_print_url [OF example_url_wf] in simp_all)

section \<open>Every accepted text is the text of its parts\<close>

text \<open>
  The texts a part of a URL can have: \<open>part_text d x t\<close> says that \<open>t\<close> is empty (and so is the
  part) or the delimiter followed by the part, which may then be empty.
\<close>

definition part_text :: "char \<Rightarrow> string \<Rightarrow> string \<Rightarrow> bool" where
  "part_text d x t \<longleftrightarrow> t = [] \<and> x = [] \<or> t = d # x"

definition user_text :: "clParseURL \<Rightarrow> string \<Rightarrow> bool" where
  "user_text u t \<longleftrightarrow>
     t = [] \<and> m_UserName u = [] \<and> m_Password u = []
     \<or> (\<exists>w. part_text CHR '':'' (m_Password u) w \<and> t = m_UserName u @ w @ ''@''
          \<and> CHR '':'' \<notin> set (m_UserName u) \<and> CHR ''@'' \<notin> set (m_UserName u @ m_Password u))"

definition path_text :: "clParseURL \<Rightarrow> string \<Rightarrow> bool" where
  "path_text u t \<longleftrightarrow>
     t = [] \<and> m_Path u = [] \<and> m_Query u = [] \<and> m_Fragment u = []
     \<or> (\<exists>w v. part_text CHR ''?'' (m_Query u) w \<and> part_text CHR ''#'' (m_Fragment u) v
          \<and> t = CHR ''/'' # m_Path u @ w @ v
          \<and> set (m_Path u) \<inter> set ''?#'' = {} \<and> CHR ''#'' \<notin> set (m_Query u))"

lemma takeWhile_notin [simp]: "c \<notin> set (takeWhile (\<lambda>x. x \<noteq> c \<and> P x) p)"
  "c \<notin> set (takeWhile (\<lambda>x. P x \<and> x \<noteq> c) p)" "c \<notin> set (takeWhile (\<lambda>x. x \<noteq> c) p)"
  by (auto dest: set_takeWhileD)

lemma scan_until_split:
  obtains a where "p = a @ scan_until stop p" "ptr_range p (scan_until stop p) = a"
    "\<And>c. c \<in> set a \<Longrightarrow> \<not> stop c" "scan_until stop p = [] \<or> stop (deref (scan_until stop p))"
proof (rule that)
  show "p = takeWhile (\<lambda>c. \<not> stop c) p @ scan_until stop p"
    and "ptr_range p (scan_until stop p) = takeWhile (\<lambda>c. \<not> stop c) p"
    by (simp_all add: scan_simps)
  show "scan_until stop p = [] \<or> stop (deref (scan_until stop p))"
    by (induction p) auto
qed (auto dest: set_takeWhileD)

lemma strchr_split:
  "strchr p x = Some r \<Longrightarrow> \<exists>a t. p = a @ x # t \<and> x \<notin> set a \<and> r = x # t"
proof (induction p)
  case (Cons c p)
  show ?case
  proof (cases "c = x")
    case True
    with Cons.prems have "c # p = [] @ x # p" "r = x # p" by auto
    then show ?thesis by fastforce
  next
    case False
    with Cons obtain a t where "p = a @ x # t" "x \<notin> set a" "r = x # t" by auto
    with False have "c # p = (c # a) @ x # t" "x \<notin> set (c # a)" by simp_all
    with \<open>r = x # t\<close> show ?thesis by blast
  qed
qed simp

lemma parse_scheme_Inr:
  assumes "parse_scheme R p = Inr (R', q)"
  shows "\<exists>sch. p = sch @ CHR '':'' # q \<and> IsSchemeValid sch \<and> R' = R\<lparr>m_Scheme := map tolower sch\<rparr>"
proof -
  obtain r where r: "strchr p CHR '':'' = Some r"
    using assms by (auto simp: parse_scheme_def split: option.splits)
  then obtain a t where "p = a @ CHR '':'' # t" "r = CHR '':'' # t"
    using strchr_split by blast
  then show ?thesis
    using assms r by (auto simp: parse_scheme_def Let_def split: if_splits)
qed

lemma skip_slashes_Inr: "skip_slashes R p = Inr (R', q) \<Longrightarrow> p = ''//'' @ q \<and> R' = R"
  by (cases p; cases "tl p") (auto simp: skip_slashes_def split: if_splits)

lemma parse_password_split:
  assumes "m_Password R = []"
  shows "\<exists>w x q. p = w @ q \<and> part_text CHR '':'' x w \<and> CHR ''@'' \<notin> set x
           \<and> parse_password R p = (R\<lparr>m_Password := x\<rparr>, q)"
proof (cases "deref p = CHR '':''")
  case True
  then obtain t where t: "p = CHR '':'' # t" by (cases p) auto
  obtain a where "t = a @ scan_until (\<lambda>c. c = CHR ''@'') t"
    "ptr_range t (scan_until (\<lambda>c. c = CHR ''@'') t) = a" "\<And>c. c \<in> set a \<Longrightarrow> c \<noteq> CHR ''@''"
    using scan_until_split [of t "\<lambda>c. c = CHR ''@''"] by blast
  then show ?thesis
    by (intro exI [of _ "CHR '':'' # a"] exI [of _ a]
          exI [of _ "scan_until (\<lambda>c. c = CHR ''@'') t"])
       (use t in \<open>auto simp: parse_password_def part_text_def Let_def\<close>)
next
  case False
  then show ?thesis
    using assms by (intro exI [of _ "[]"] exI [of _ p]) (simp add: parse_password_def part_text_def)
qed

lemma parse_user_Inr:
  assumes "parse_user R p = Inr (R', q)" and "m_UserName R = []" "m_Password R = []"
  shows "\<exists>t. p = t @ q \<and> user_text R' t
           \<and> (\<exists>U P. R' = R\<lparr>m_UserName := U, m_Password := P\<rparr>)"
proof (cases "has_user_name p")
  case False
  then have "R' = R\<lparr>m_UserName := [], m_Password := []\<rparr>"
    using assms by (simp add: parse_user_def)
  then show ?thesis
    using False assms by (auto simp: parse_user_def user_text_def)
next
  case True
  define l where "l = scan_until (\<lambda>c. c = CHR '':'' \<or> c = CHR ''@'') p"
  obtain n where n: "p = n @ l" "ptr_range p l = n" "CHR '':'' \<notin> set n" "CHR ''@'' \<notin> set n"
    using scan_until_split [of p "\<lambda>c. c = CHR '':'' \<or> c = CHR ''@''"] unfolding l_def by blast
  obtain w x r where w: "l = w @ r" "part_text CHR '':'' x w" "CHR ''@'' \<notin> set x"
    "parse_password (R\<lparr>m_UserName := n\<rparr>) l = (R\<lparr>m_UserName := n, m_Password := x\<rparr>, r)"
    using parse_password_split [of "R\<lparr>m_UserName := n\<rparr>" l] assms(3) by auto
  have r: "r = CHR ''@'' # q" and R': "R' = R\<lparr>m_UserName := n, m_Password := x\<rparr>"
    using assms(1) True w(4) n(2)
    by (cases r; auto simp: parse_user_def Let_def l_def [symmetric] split: if_splits)+
  show ?thesis
    by (rule exI [of _ "n @ w @ ''@''"]) (use n w r R' in \<open>auto simp: user_text_def\<close>)
qed

lemma parse_user_total: "\<exists>R' q. parse_user R p = Inr (R', q)"
proof (cases "has_user_name p")
  case True
  define l where "l = scan_until (\<lambda>c. c = CHR '':'' \<or> c = CHR ''@'') p"
  obtain n where n: "p = n @ l" "CHR ''@'' \<notin> set n"
    and d: "l = [] \<or> deref l = CHR '':'' \<or> deref l = CHR ''@''"
    using scan_until_split [of p "\<lambda>c. c = CHR '':'' \<or> c = CHR ''@''"] unfolding l_def by blast
  have "CHR ''@'' \<in> set p" using True by (auto simp: has_user_name_iff dest: set_takeWhileD)
  then have l: "CHR ''@'' \<in> set l" using n by simp
  have *: "deref (scan_until (\<lambda>c. c = CHR ''@'') t) = CHR ''@''" if "CHR ''@'' \<in> set t" for t
    using that by (induction t) auto
  have "deref (snd (parse_password R' l)) = CHR ''@''" for R'
    using l d * [of "tl l"] by (cases l) (auto simp: parse_password_def Let_def)
  then show ?thesis
    using True by (auto simp: parse_user_def l_def [symmetric] Let_def case_prod_beta)
qed (simp add: parse_user_def)

lemma scan_host_suffix: "\<exists>t. p = t @ scan_host b p"
proof (induction p)
  case (Cons c p)
  then obtain t where t: "p = t @ scan_host b p" ..
  have "scan_host b (c # p) \<in> {p, c # p, scan_host b p}" by simp
  then show ?case
  proof (elim insertE emptyE)
    assume "scan_host b (c # p) = scan_host b p"
    with t show ?thesis by (intro exI [of _ "c # t"]) simp
  qed simp_all
qed simp

lemma parse_host_split:
  "\<exists>h q. p = h @ q \<and> parse_host R p = (R\<lparr>m_Host := h\<rparr>, q)"
proof -
  obtain t where t: "p = t @ scan_host (deref p = CHR ''['') p" using scan_host_suffix by blast
  then have "ptr_range p (scan_host (deref p = CHR ''['') p) = t"
    by (metis ptr_range_append)
  with t show ?thesis by (auto simp: parse_host_def Let_def)
qed

lemma parse_port_split:
  assumes "m_Port R = []"
  shows "\<exists>w x q. p = w @ q \<and> part_text CHR '':'' x w \<and> CHR ''/'' \<notin> set x
           \<and> parse_port R p = (R\<lparr>m_Port := x\<rparr>, q)"
proof (cases "deref p = CHR '':''")
  case True
  then obtain t where t: "p = CHR '':'' # t" by (cases p) auto
  obtain a where "t = a @ scan_until (\<lambda>c. c = CHR ''/'') t"
    "ptr_range t (scan_until (\<lambda>c. c = CHR ''/'') t) = a" "\<And>c. c \<in> set a \<Longrightarrow> c \<noteq> CHR ''/''"
    using scan_until_split [of t "\<lambda>c. c = CHR ''/''"] by blast
  then show ?thesis
    by (intro exI [of _ "CHR '':'' # a"] exI [of _ a]
          exI [of _ "scan_until (\<lambda>c. c = CHR ''/'') t"])
       (use t in \<open>auto simp: parse_port_def part_text_def Let_def\<close>)
next
  case False
  then show ?thesis
    using assms by (intro exI [of _ "[]"] exI [of _ p]) (simp add: parse_port_def part_text_def)
qed

lemma parse_query_split:
  assumes "m_Query R = []"
  shows "\<exists>w x q. p = w @ q \<and> part_text CHR ''?'' x w \<and> CHR ''#'' \<notin> set x
           \<and> parse_query R p = (R\<lparr>m_Query := x\<rparr>, q) \<and> (deref p = CHR ''#'' \<or> deref p = CHR ''?'' \<or> p = []
               \<longrightarrow> q = [] \<or> deref q = CHR ''#'')"
proof (cases "deref p = CHR ''?''")
  case True
  then obtain t where t: "p = CHR ''?'' # t" by (cases p) auto
  obtain a where "t = a @ scan_until (\<lambda>c. c = CHR ''#'') t"
    "ptr_range t (scan_until (\<lambda>c. c = CHR ''#'') t) = a" "\<And>c. c \<in> set a \<Longrightarrow> c \<noteq> CHR ''#''"
    "scan_until (\<lambda>c. c = CHR ''#'') t = [] \<or> deref (scan_until (\<lambda>c. c = CHR ''#'') t) = CHR ''#''"
    using scan_until_split [of t "\<lambda>c. c = CHR ''#''"] by blast
  then show ?thesis
    by (intro exI [of _ "CHR ''?'' # a"] exI [of _ a]
          exI [of _ "scan_until (\<lambda>c. c = CHR ''#'') t"])
       (use t in \<open>auto simp: parse_query_def part_text_def Let_def\<close>)
next
  case False
  then show ?thesis
    using assms by (intro exI [of _ "[]"] exI [of _ p]) (auto simp: parse_query_def part_text_def)
qed

lemma parse_fragment_split:
  assumes "m_Fragment R = []" and "p = [] \<or> deref p = CHR ''#''"
  shows "\<exists>x. part_text CHR ''#'' x p \<and> parse_fragment R p = (R\<lparr>m_Fragment := x\<rparr>, [])"
proof (cases p)
  case Nil
  then show ?thesis using assms by (simp add: parse_fragment_def part_text_def)
next
  case (Cons c t)
  have "scan_until (\<lambda>c. False) t = []" by (simp add: scan_simps)
  then show ?thesis
    using Cons assms by (auto simp: parse_fragment_def part_text_def ptr_range_def)
qed

lemma parse_path_Inr:
  assumes "parse_path R p = Inr R'" and "m_Path R = []" "m_Query R = []" "m_Fragment R = []"
  shows "path_text R' p \<and> R' = R\<lparr>m_Path := m_Path R', m_Query := m_Query R',
           m_Fragment := m_Fragment R', m_ErrorCode := LUrlParserError_Ok\<rparr>"
proof (cases p)
  case Nil
  then show ?thesis using assms by (auto simp: parse_path_def path_text_def)
next
  case (Cons c t)
  then have c: "c = CHR ''/''" using assms(1) by (auto simp: parse_path_def split: if_splits)
  define l where "l = scan_until (\<lambda>c. c = CHR ''#'' \<or> c = CHR ''?'') t"
  obtain n where n: "t = n @ l" "ptr_range t l = n" "set n \<inter> set ''?#'' = {}"
    and d: "l = [] \<or> deref l = CHR ''#'' \<or> deref l = CHR ''?''"
    using scan_until_split [of t "\<lambda>c. c = CHR ''#'' \<or> c = CHR ''?''"] unfolding l_def by auto
  obtain w x q where w: "l = w @ q" "part_text CHR ''?'' x w" "CHR ''#'' \<notin> set x"
    "parse_query (R\<lparr>m_Path := n\<rparr>) l = (R\<lparr>m_Path := n, m_Query := x\<rparr>, q)"
    "q = [] \<or> deref q = CHR ''#''"
    using parse_query_split [of "R\<lparr>m_Path := n\<rparr>" l] assms(3) d by auto
  obtain y where y: "part_text CHR ''#'' y q"
    "parse_fragment (R\<lparr>m_Path := n, m_Query := x\<rparr>) q = (R\<lparr>m_Path := n, m_Query := x, m_Fragment := y\<rparr>, [])"
    using parse_fragment_split [of "R\<lparr>m_Path := n, m_Query := x\<rparr>" q] assms(4) w(5) by auto
  have "R' = R\<lparr>m_Path := n, m_Query := x, m_Fragment := y, m_ErrorCode := LUrlParserError_Ok\<rparr>"
    using assms(1) Cons c n(2) w(4) y(2) by (simp add: parse_path_def Let_def l_def [symmetric])
  then show ?thesis
    using Cons c n w y by (auto simp: path_text_def)
qed

lemma parse_stages_Inl:
  assumes "parse_stages p = Inl e"
  shows "e = LUrlParserError_NoUrlCharacter \<or> e = LUrlParserError_InvalidSchemeName
         \<or> e = LUrlParserError_NoDoubleSlash \<or> e = LUrlParserError_NoSlash"
proof -
  have "parse_user R q \<noteq> Inl e'" for R q e'
    using parse_user_total [of R q] by auto
  then show ?thesis
    using assms
    by (auto simp: parse_stages_def exn_simps parse_scheme_def skip_slashes_def parse_path_def
        Let_def case_prod_beta split: if_splits option.splits)
qed

lemma ParseURL_stages:
  assumes "IsValid (ParseURL URL)"
  shows "parse_stages (c_str URL) = Inr (ParseURL URL)"
  using assms parse_stages_Inl [of "c_str URL"]
  by (cases "parse_stages (c_str URL)")
     (auto simp: ParseURL_def IsValid_def clParseURL_error_def)

lemma parse_stages_Inr:
  assumes "parse_stages p = Inr u"
  shows "\<exists>sch usr prt pth.
      p = sch @ ''://'' @ usr @ m_Host u @ prt @ pth
      \<and> IsSchemeValid sch \<and> m_Scheme u = map tolower sch
      \<and> user_text u usr
      \<and> part_text CHR '':'' (m_Port u) prt \<and> CHR ''/'' \<notin> set (m_Port u)
      \<and> path_text u pth"
proof -
  obtain R1 p1 R2 p2 R3 p3 where
    1: "parse_scheme clParseURL_init p = Inr (R1, p1)" and
    2: "skip_slashes R1 p1 = Inr (R2, p2)" and 3: "parse_user R2 p2 = Inr (R3, p3)" and
    4: "(let (Result, CurrentString) = parse_host R3 p3;
             (Result, CurrentString) = parse_port Result CurrentString
         in parse_path Result CurrentString) = Inr u"
    using assms by (auto simp: parse_stages_def exn_simps simp del: Let_def)
  obtain sch where sch: "p = sch @ CHR '':'' # p1" "IsSchemeValid sch"
    "R1 = clParseURL_init\<lparr>m_Scheme := map tolower sch\<rparr>"
    using parse_scheme_Inr [OF 1] by blast
  have s: "p1 = ''//'' @ p2" "R2 = R1" using skip_slashes_Inr [OF 2] by simp_all
  obtain usr U P where usr: "p2 = usr @ p3" "user_text R3 usr"
    "R3 = clParseURL_init\<lparr>m_Scheme := map tolower sch, m_UserName := U, m_Password := P\<rparr>"
    using parse_user_Inr [OF 3] sch(3) s(2) by (force simp: clParseURL_init_def)
  obtain h p4 where h: "p3 = h @ p4" "parse_host R3 p3 = (R3\<lparr>m_Host := h\<rparr>, p4)"
    using parse_host_split by blast
  obtain prt x p5 where prt: "p4 = prt @ p5" "part_text CHR '':'' x prt" "CHR ''/'' \<notin> set x"
    "parse_port (R3\<lparr>m_Host := h\<rparr>) p4 = (R3\<lparr>m_Host := h, m_Port := x\<rparr>, p5)"
    using parse_port_split [of "R3\<lparr>m_Host := h\<rparr>" p4] usr(3) by (auto simp: clParseURL_init_def)
  let ?R4 = "R3\<lparr>m_Host := h, m_Port := x\<rparr>"
  have pth: "path_text u p5" and
    u: "u = ?R4\<lparr>m_Path := m_Path u, m_Query := m_Query u,
           m_Fragment := m_Fragment u, m_ErrorCode := LUrlParserError_Ok\<rparr>"
    using parse_path_Inr [of ?R4 p5 u] 4 h(2) prt(4) usr(3)
    by (simp_all add: clParseURL_init_def)
  have f: "m_Host u = h" "m_Port u = x" "m_UserName u = m_UserName R3"
    "m_Password u = m_Password R3" "m_Scheme u = map tolower sch"
    by (subst u, simp add: usr(3))+
  show ?thesis
    by (intro exI [of _ sch] exI [of _ usr] exI [of _ prt] exI [of _ p5])
       (use sch(1,2) s(1) usr(1,2) h(1) prt(1,2,3) pth f in \<open>simp add: user_text_def\<close>)
qed

text \<open>
  C24: The parser loses nothing. Every text that is accepted is, up to its first null byte, the
  concatenation of a valid scheme (stored in lower case), the two slashes, the user part, the
  host, the port part and the path part, each of them with its delimiters around exactly the
  stored fields, and none of the user name, password, port, path and query contains a delimiter
  that ends it.
\<close>

theorem ParseURL_decompose:
  assumes "IsValid (ParseURL URL)"
  shows "\<exists>sch usr prt pth.
      c_str URL = sch @ ''://'' @ usr @ m_Host (ParseURL URL) @ prt @ pth
      \<and> IsSchemeValid sch \<and> m_Scheme (ParseURL URL) = map tolower sch
      \<and> user_text (ParseURL URL) usr
      \<and> part_text CHR '':'' (m_Port (ParseURL URL)) prt \<and> CHR ''/'' \<notin> set (m_Port (ParseURL URL))
      \<and> path_text (ParseURL URL) pth"
  using parse_stages_Inr [OF ParseURL_stages [OF assms]] by simp

lemmas parse_eval = ParseURL_def parse_stages_def parse_scheme_def skip_slashes_def parse_user_def
  parse_password_def parse_host_def parse_port_def parse_path_def parse_query_def
  parse_fragment_def clParseURL_init_def clParseURL_error_def c_str_def ptr_range_def
  isalpha_def isupper_def islower_def tolower_def

theorem ParseURL_decompose_witness:
  "IsValid (ParseURL ''HTTP://h:8/'')
   \<and> (\<exists>sch usr prt pth.
      c_str ''HTTP://h:8/'' = sch @ ''://'' @ usr @ m_Host (ParseURL ''HTTP://h:8/'') @ prt @ pth
      \<and> IsSchemeValid sch \<and> m_Scheme (ParseURL ''HTTP://h:8/'') = map tolower sch
      \<and> user_text (ParseURL ''HTTP://h:8/'') usr
      \<and> part_text CHR '':'' (m_Port (ParseURL ''HTTP://h:8/'')) prt
      \<and> CHR ''/'' \<notin> set (m_Port (ParseURL ''HTTP://h:8/''))
      \<and> path_text (ParseURL ''HTTP://h:8/'') pth)"
proof -
  have v: "IsValid (ParseURL ''HTTP://h:8/'')"
    by (simp add: parse_eval IsValid_def Let_def)
  show ?thesis using v ParseURL_decompose [OF v] by (rule conjI)
qed

section \<open>Error codes\<close>

lemma parse_scheme_cases:
  "parse_scheme R p =
     (if CHR '':'' \<notin> set p then Inl LUrlParserError_NoUrlCharacter
      else if \<not> IsSchemeValid (takeWhile (\<lambda>c. c \<noteq> CHR '':'') p)
           then Inl LUrlParserError_InvalidSchemeName
      else Inr (R\<lparr>m_Scheme := map tolower (takeWhile (\<lambda>c. c \<noteq> CHR '':'') p)\<rparr>,
                tl (dropWhile (\<lambda>c. c \<noteq> CHR '':'') p)))"
  by (auto simp: parse_scheme_def scan_simps split: option.splits)

lemma skip_slashes_cases:
  "skip_slashes R p =
     (if take 2 p \<noteq> ''//'' then Inl LUrlParserError_NoDoubleSlash else Inr (R, drop 2 p))"
  by (cases p; cases "tl p") (auto simp: skip_slashes_def)

text \<open>
  The reference: what follows the user information, if an at sign stands before the first
  slash, and an address in brackets that is followed by something other than a port or a path.
\<close>

definition after_user :: "string \<Rightarrow> string" where
  "after_user p =
     (if CHR ''@'' \<in> set (takeWhile (\<lambda>c. c \<noteq> CHR ''/'') p)
      then tl (dropWhile (\<lambda>c. c \<noteq> CHR ''@'') p) else p)"

definition text_after_bracket :: "string \<Rightarrow> bool" where
  "text_after_bracket p \<longleftrightarrow>
     (\<exists>b c q. p = CHR ''['' # b @ CHR '']'' # c # q \<and> CHR '']'' \<notin> set b \<and> c \<noteq> CHR '':'' \<and> c \<noteq> CHR ''/'')"

definition url_error :: "string \<Rightarrow> LUrlParserError" where
  "url_error p =
     (let sch = takeWhile (\<lambda>c. c \<noteq> CHR '':'') p; rst = tl (dropWhile (\<lambda>c. c \<noteq> CHR '':'') p)
      in if CHR '':'' \<notin> set p then LUrlParserError_NoUrlCharacter
         else if list_ex (\<lambda>c. \<not> isalpha c \<and> c \<notin> set ''+-.'') sch then LUrlParserError_InvalidSchemeName
         else if take 2 rst \<noteq> ''//'' then LUrlParserError_NoDoubleSlash
         else if text_after_bracket (after_user (drop 2 rst)) then LUrlParserError_NoSlash
         else LUrlParserError_Ok)"

lemma dropWhile_user:
  "dropWhile (\<lambda>c. c \<noteq> CHR ''@'') (dropWhile (\<lambda>c. c \<noteq> CHR '':'' \<and> c \<noteq> CHR ''@'') p)
   = dropWhile (\<lambda>c. c \<noteq> CHR ''@'') p"
  by (induction p) auto

lemma parse_password_rest:
  "snd (parse_password R (scan_until (\<lambda>c. c = CHR '':'' \<or> c = CHR ''@'') p))
   = dropWhile (\<lambda>c. c \<noteq> CHR ''@'') p"
proof -
  define l where "l = dropWhile (\<lambda>c. c \<noteq> CHR '':'' \<and> c \<noteq> CHR ''@'') p"
  have "l = [] \<or> hd l = CHR '':'' \<or> hd l = CHR ''@''"
    using hd_dropWhile [of "\<lambda>c. c \<noteq> CHR '':'' \<and> c \<noteq> CHR ''@''" p] by (auto simp: l_def)
  then have "snd (parse_password R l) = dropWhile (\<lambda>c. c \<noteq> CHR ''@'') l"
    by (cases l) (auto simp: parse_password_def Let_def scan_simps)
  then show ?thesis
    using dropWhile_user [of p] by (simp add: scan_simps l_def)
qed

lemma parse_user_rest: "parse_user R p = Inr (R', q) \<Longrightarrow> q = after_user p"
  using parse_password_rest [of _ p]
  by (auto simp: parse_user_def after_user_def has_user_name_iff [symmetric] Let_def case_prod_beta
      split: if_splits)

lemma parse_path_NoSlash:
  "parse_path R p = Inl e \<longleftrightarrow> e = LUrlParserError_NoSlash \<and> p \<noteq> [] \<and> deref p \<noteq> CHR ''/''"
  by (auto simp: parse_path_def Let_def case_prod_beta)

lemma parse_path_Ok: "parse_path R p = Inr u \<Longrightarrow> m_ErrorCode u = LUrlParserError_Ok"
  by (auto simp: parse_path_def Let_def case_prod_beta split: if_splits)

lemma text_after_bracket_eq:
  "text_after_bracket p \<longleftrightarrow> deref p = CHR ''['' \<and>
     scan_host True p \<noteq> [] \<and> deref (scan_host True p) \<notin> {CHR '':'', CHR ''/''}"
proof (cases "deref p = CHR ''['' \<and> CHR '']'' \<in> set p")
  case True
  then obtain t where t: "p = CHR ''['' # t" "CHR '']'' \<in> set t" by (cases p) auto
  then obtain b r where b: "t = b @ CHR '']'' # r" "CHR '']'' \<notin> set b"
    by (meson split_list_first)
  have tw: "takeWhile (\<lambda>c. c \<noteq> CHR '']'') (x @ CHR '']'' # y) = x" if "CHR '']'' \<notin> set x" for x y
    using that by (induction x) auto
  have u: "b' = b \<and> r' = r" if e: "t = b' @ CHR '']'' # r'" and n: "CHR '']'' \<notin> set b'" for b' r'
  proof -
    have "b' = b" using tw [OF n, of r'] tw [OF b(2), of r] e b(1) by simp
    with e b(1) show ?thesis by simp
  qed
  have "scan_host True p = r"
    using scan_host_bracket_append [of "CHR ''['' # b" r] b t by simp
  moreover have "text_after_bracket p \<longleftrightarrow> (\<exists>c q. r = c # q \<and> c \<noteq> CHR '':'' \<and> c \<noteq> CHR ''/'')"
    using u b t(1) unfolding text_after_bracket_def by auto
  ultimately show ?thesis using True by (cases r) auto
next
  case False
  then show ?thesis
    using scan_host_bracket_none [of p] by (auto simp: text_after_bracket_def)
qed

lemma port_rest:
  "snd (parse_port R q) \<noteq> [] \<and> deref (snd (parse_port R q)) \<noteq> CHR ''/''
   \<longleftrightarrow> q \<noteq> [] \<and> deref q \<notin> {CHR '':'', CHR ''/''}"
proof (cases "deref q = CHR '':''")
  case True
  then show ?thesis
    using scan_until_split [of "tl q" "\<lambda>c. c = CHR ''/''"] by (auto simp: parse_port_def Let_def)
qed (auto simp: parse_port_def)

lemma host_port_rest:
  "snd (parse_port R (snd (parse_host R' p))) \<noteq> []
     \<and> deref (snd (parse_port R (snd (parse_host R' p)))) \<noteq> CHR ''/''
   \<longleftrightarrow> text_after_bracket p"
proof (cases "deref p = CHR ''[''")
  case False
  define q where "q = scan_host False p"
  have "q = [] \<or> deref q \<in> {CHR '':'', CHR ''/''}"
    unfolding q_def by (induction p) auto
  then show ?thesis
    using False
    by (auto simp: port_rest text_after_bracket_eq parse_host_def Let_def q_def [symmetric])
qed (simp add: port_rest text_after_bracket_eq parse_host_def Let_def)

lemma parse_stages_cases:
  "case parse_stages p of Inl e \<Rightarrow> e = url_error p \<and> e \<noteq> LUrlParserError_Ok
     | Inr u \<Rightarrow> m_ErrorCode u = LUrlParserError_Ok \<and> url_error p = LUrlParserError_Ok"
proof -
  define sch rst where "sch = takeWhile (\<lambda>c. c \<noteq> CHR '':'') p"
    and "rst = tl (dropWhile (\<lambda>c. c \<noteq> CHR '':'') p)"
  have valid: "IsSchemeValid sch \<longleftrightarrow> \<not> list_ex (\<lambda>c. \<not> isalpha c \<and> c \<notin> set ''+-.'') sch"
    by (auto simp: IsSchemeValid_iff list_ex_iff)
  show ?thesis
  proof (cases "CHR '':'' \<in> set p \<and> IsSchemeValid sch \<and> take 2 rst = ''//''")
    case False
    then show ?thesis
      by (auto simp: parse_stages_def parse_scheme_cases skip_slashes_cases url_error_def Let_def
          sch_def [symmetric] rst_def [symmetric] valid simp del: set_simps)
  next
    case True
    let ?R = "clParseURL_init\<lparr>m_Scheme := map tolower sch\<rparr>"
    obtain R' q where user: "parse_user ?R (drop 2 rst) = Inr (R', q)"
      using parse_user_total by blast
    obtain h r x p' where hp: "parse_host R' q = (h, r)" "parse_port h r = (x, p')" by fastforce
    have stages: "parse_stages p = parse_path x p'"
      using True user hp
      by (simp add: parse_stages_def parse_scheme_cases skip_slashes_cases sch_def [symmetric]
          rst_def [symmetric])
    have rest: "p' \<noteq> [] \<and> deref p' \<noteq> CHR ''/'' \<longleftrightarrow> text_after_bracket (after_user (drop 2 rst))"
      using host_port_rest [of h R' q] hp parse_user_rest [OF user] by simp
    have err: "url_error p = (if text_after_bracket (after_user (drop 2 rst))
        then LUrlParserError_NoSlash else LUrlParserError_Ok)"
      using True by (simp add: url_error_def sch_def [symmetric] rst_def [symmetric] valid Let_def
          del: set_simps)
    show ?thesis
      using rest err parse_path_NoSlash [of x p'] parse_path_Ok [of x p']
      by (cases "parse_path x p'") (auto simp: stages)
  qed
qed

text \<open>
  C25: The error codes are exact. The code is \<open>NoUrlCharacter\<close> precisely when the text has no
  colon; otherwise \<open>InvalidSchemeName\<close> precisely when a character before the first colon is not a
  letter or one of plus, minus and dot (the empty scheme passes, although the comment in the source
  asks for one character); otherwise \<open>NoDoubleSlash\<close> precisely when two slashes do not follow;
  otherwise \<open>NoSlash\<close> precisely when the host is an address in brackets and what follows the
  bracket is neither the end nor a port nor a path; otherwise \<open>Ok\<close>. No other code is returned:
  the return of \<open>NoAtSign\<close> is unreachable. Every other field of a result that is not valid is
  empty.
\<close>

theorem ParseURL_error_codes:
  "m_ErrorCode (ParseURL URL) = url_error (c_str URL)
   \<and> (IsValid (ParseURL URL) \<or> ParseURL URL = clParseURL_error (url_error (c_str URL)))"
  using parse_stages_cases [of "c_str URL"]
  by (auto simp: ParseURL_def IsValid_def clParseURL_error_def split: sum.splits)

section \<open>The port\<close>

lemma c_str_digits:
  assumes "\<forall>c \<in> set ds. isdigit c" and "rest = [] \<or> \<not> isdigit (hd rest)"
  shows "\<exists>t. c_str (ds @ rest) = ds @ t \<and> (t = [] \<or> \<not> isdigit (hd t))"
proof -
  have "NUL \<notin> set ds" using assms(1) by (auto simp: isdigit_def)
  then have "c_str (ds @ rest) = ds @ c_str rest"
    by (induction ds) (auto simp: c_str_def)
  moreover have "c_str rest = [] \<or> \<not> isdigit (hd (c_str rest))"
    using assms(2) by (cases rest) (auto simp: c_str_def)
  ultimately show ?thesis by blast
qed

text \<open>
  C26: The port of a valid URL whose port text starts with a decimal number. \<open>GetPort\<close> converts
  that number as \<open>atoi\<close> does (saturated at the largest \<open>long\<close>, then reduced to 32 bits) and
  ignores what follows it: it succeeds precisely when the converted value lies between 1 and
  65535, and then reports it; otherwise it fails and leaves the output untouched. So for a number
  below two to the power 31 it succeeds precisely when the number itself lies between 1 and 65535
  (the port 0, which the comment in the header calls valid, is refused), while larger numbers wrap
  around. An empty port text and a URL that is not valid are refused, and a
  port that is reported always lies between 1 and 65535. With a null pointer the
  answer is the same and nothing is written.
\<close>

theorem GetPort_correct:
  assumes "IsValid u" and "m_Port u = ds @ rest"
    and "ds \<noteq> []" and "\<forall>c \<in> set ds. isdigit c" and "rest = [] \<or> \<not> isdigit (hd rest)"
    and "IsValid w \<longrightarrow> m_Port w = []"
  shows "(let p = to_int32 (min (int (dec_value 0 ds)) (2 ^ 63 - 1))
          in GetPort u (Some out) =
               (if 1 \<le> p \<and> p \<le> 65535 then (True, Some p) else (False, Some out)))
    \<and> (dec_value 0 ds < 2 ^ 31 \<longrightarrow> GetPort u (Some out) =
        (if 1 \<le> dec_value 0 ds \<and> dec_value 0 ds \<le> 65535
         then (True, Some (int (dec_value 0 ds))) else (False, Some out)))
    \<and> GetPort u None = (fst (GetPort u (Some out)), None)
    \<and> GetPort w x = (False, x)
    \<and> (\<forall>v y p. GetPort v (Some y) = (True, Some p) \<longrightarrow> IsValid v \<and> 1 \<le> p \<and> p \<le> 65535)"
proof -
  obtain t where t: "c_str (m_Port u) = ds @ t" "t = [] \<or> \<not> isdigit (hd t)"
    using c_str_digits [OF assms(4,5)] assms(2) by auto
  have a: "atoi (c_str (m_Port u)) = to_int32 (min (int (dec_value 0 ds)) (2 ^ 63 - 1))"
    unfolding t(1) by (rule atoi_dec [OF assms(3,4) t(2)])
  have "min (int (dec_value 0 ds)) (2 ^ 63 - 1) = int (dec_value 0 ds)"
    if "dec_value 0 ds < 2 ^ 31"
    using that by simp
  then have "atoi (c_str (m_Port u)) = int (dec_value 0 ds)" if "dec_value 0 ds < 2 ^ 31"
    using that a by (simp add: to_int32_id)
  then have "let p = to_int32 (min (int (dec_value 0 ds)) (2 ^ 63 - 1))
          in GetPort u (Some out) =
               (if 1 \<le> p \<and> p \<le> 65535 then (True, Some p) else (False, Some out))"
    and "dec_value 0 ds < 2 ^ 31 \<longrightarrow> GetPort u (Some out) =
        (if 1 \<le> dec_value 0 ds \<and> dec_value 0 ds \<le> 65535
         then (True, Some (int (dec_value 0 ds))) else (False, Some out))"
    and "GetPort u None = (fst (GetPort u (Some out)), None)"
    using assms(1) a by (auto simp: GetPort_def Let_def)
  moreover have "GetPort w x = (False, x)"
    using assms(6) by (auto simp: GetPort_def c_str_def)
  moreover have "\<forall>v y p. GetPort v (Some y) = (True, Some p) \<longrightarrow> IsValid v \<and> 1 \<le> p \<and> p \<le> 65535"
    by (auto simp: GetPort_def Let_def split: if_splits)
  ultimately show ?thesis by (intro conjI)
qed

theorem GetPort_correct_witness:
  "GetPort example_url (Some 0) = (True, Some 80)
   \<and> GetPort (example_url\<lparr>m_Port := ''4294967376x''\<rparr>) (Some 0) = (True, Some 80)
   \<and> GetPort (example_url\<lparr>m_Port := ''0''\<rparr>) (Some 7) = (False, Some 7)"
proof (intro conjI)
  show "GetPort example_url (Some 0) = (True, Some 80)"
    using GetPort_correct [of example_url "''80''" "[]" clParseURL_init 0 None]
    by (simp add: example_url_def IsValid_def isdigit_def clParseURL_init_def)
  show "GetPort (example_url\<lparr>m_Port := ''4294967376x''\<rparr>) (Some 0) = (True, Some 80)"
    using GetPort_correct [of "example_url\<lparr>m_Port := ''4294967376x''\<rparr>" "''4294967376''" "''x''"
        clParseURL_init 0 None]
    by (simp add: example_url_def IsValid_def isdigit_def clParseURL_init_def to_int32_def Let_def)
  show "GetPort (example_url\<lparr>m_Port := ''0''\<rparr>) (Some 7) = (False, Some 7)"
    using GetPort_correct [of "example_url\<lparr>m_Port := ''0''\<rparr>" "''0''" "[]" clParseURL_init 7 None]
    by (simp add: example_url_def IsValid_def isdigit_def clParseURL_init_def)
qed

text \<open>
  The range test of \<open>GetPort\<close> looks at the converted value only: a port text far above
  65535, such as 4294967376 (two to the power 32, plus 80), is converted to the \<open>int\<close> 80 and
  accepted as port 80, and trailing text after the digits is ignored.
\<close>

theorem GetPort_wraps:
  "GetPort (clParseURL_init\<lparr>m_ErrorCode := LUrlParserError_Ok, m_Port := ''4294967376''\<rparr>) (Some 0)
     = (True, Some 80)
   \<and> GetPort (clParseURL_init\<lparr>m_ErrorCode := LUrlParserError_Ok, m_Port := ''80x''\<rparr>) (Some 0)
     = (True, Some 80)"
  by (simp add: GetPort_def IsValid_def clParseURL_init_def c_str_def atoi_def strtol_def
      isspace_def skip_hex_prefix_def digit_val_def isdigit_def islower_def isupper_def
      clamp_long_def to_int32_def)

end
