(* ===== verification/Web_Utility.thy ===== *)
theory Web_Utility
  imports Prelude "HOL-Library.Multiset"
begin

unbundle bit_operations_syntax

text \<open>
  The HTTP helpers of \<open>common/web_utility.hpp\<close>: comparison and hash of header and parameter
  names without regard to case, percent encoding, the content type of a path, and the
  splitting of a request target into path and parameters. The comparison \<open>iequals\<close> that
  \<open>mime_type\<close> calls is the one of the bundled Beast library and is modelled from its source.
\<close>

section \<open>Case-insensitive keys\<close>

definition case_insensitive_equal :: "string \<Rightarrow> string \<Rightarrow> bool" where
  "case_insensitive_equal str1 str2 \<longleftrightarrow>
     length str1 = length str2 \<and> list_all2 (\<lambda>a b. tolower a = tolower b) str1 str2"

text \<open>
  \<open>CaseInsensitiveHash\<close> folds \<open>std::hash<int>\<close>, which the language leaves open and which is
  therefore an argument, over the lower-case bytes (as the signed values a \<open>char\<close> has); the
  arithmetic is that of a 64-bit \<open>size_t\<close> and wraps.
\<close>

definition signed_code :: "char \<Rightarrow> int" where
  "signed_code c = (if code c < 128 then int (code c) else int (code c) - 256)"

fun hash_loop :: "(int \<Rightarrow> 64 word) \<Rightarrow> 64 word \<Rightarrow> string \<Rightarrow> 64 word" where
  "hash_loop hash h [] = h"
| "hash_loop hash h (c # str) =
     hash_loop hash
       (h XOR (hash (signed_code (tolower c)) + 0x9e3779b9 + push_bit 6 h + drop_bit 2 h)) str"

definition CaseInsensitiveHash :: "(int \<Rightarrow> 64 word) \<Rightarrow> string \<Rightarrow> 64 word" where
  "CaseInsensitiveHash hash str = hash_loop hash 0 str"

text \<open>
  \<open>CaseInsensitiveMultimap\<close>, a \<open>std::unordered_multimap\<close>: the container promises no order of
  its entries, so it is the multiset of them. It keeps them in buckets chosen by the hash, and a
  lookup visits one bucket. \<open>emplaced\<close> is the sequence of the \<open>emplace\<close> calls that fill a
  container; the container they fill is their multiset.
\<close>

type_synonym multimap = "(string \<times> string) multiset"
type_synonym emplaced = "(string \<times> string) list"

definition equal_range :: "multimap \<Rightarrow> string \<Rightarrow> string multiset" where
  "equal_range m key = image_mset snd (filter_mset (\<lambda>(k, v). case_insensitive_equal key k) m)"

locale hash_key =
  fixes eq :: "'k \<Rightarrow> 'k \<Rightarrow> bool" and hash :: "'k \<Rightarrow> 64 word"
  assumes eq_refl: "eq a a"
    and eq_sym: "eq a b \<Longrightarrow> eq b a"
    and eq_trans: "eq a b \<Longrightarrow> eq b c \<Longrightarrow> eq a c"
    and eq_hash: "eq a b \<Longrightarrow> hash a = hash b"
begin

definition bucket :: "nat \<Rightarrow> ('k \<times> 'v) multiset \<Rightarrow> 'k \<Rightarrow> ('k \<times> 'v) multiset" where
  "bucket n m key = filter_mset (\<lambda>(k, v). unat (hash k) mod n = unat (hash key) mod n) m"

lemma bucket_complete:
  "filter_mset (\<lambda>(k, v). eq key k) (bucket n m key) = filter_mset (\<lambda>(k, v). eq key k) m"
proof -
  have "unat (hash k) mod n = unat (hash key) mod n \<and> eq key k \<longleftrightarrow> eq key k" for k
    using eq_hash [of key k] by auto
  then show ?thesis
    unfolding bucket_def by (induction m) (auto split: prod.splits)
qed

lemma bucket_congruent: "eq a b \<Longrightarrow> bucket n m a = bucket n m b"
  unfolding bucket_def using eq_hash [of a b] by simp

end

lemma case_insensitive_equal_iff:
  "case_insensitive_equal a b \<longleftrightarrow> map tolower a = map tolower b"
  by (auto simp: case_insensitive_equal_def list_all2_conv_all_nth list_eq_iff_nth_eq)

lemma hash_loop_tolower: "hash_loop hash h (map tolower s) = hash_loop hash h s"
  by (induction s arbitrary: h) simp_all

lemma CaseInsensitiveHash_eq:
  "map tolower a = map tolower b \<Longrightarrow> CaseInsensitiveHash hash a = CaseInsensitiveHash hash b"
  unfolding CaseInsensitiveHash_def by (metis hash_loop_tolower)

interpretation cimap: hash_key case_insensitive_equal "CaseInsensitiveHash hash"
  for hash :: "int \<Rightarrow> 64 word"
  by unfold_locales (auto simp: case_insensitive_equal_iff intro: CaseInsensitiveHash_eq)

text \<open>
  Equality and hash of the parameter names agree, for every hash of the integers: two
  names that differ in case only have the same hash, so the lookup in the one bucket that the
  hash of the key selects, whatever the number of buckets, finds all the values that a scan of
  the whole container finds, each as often.
\<close>

lemma multimap_lookup_complete:
  "image_mset snd (filter_mset (\<lambda>(k, v). case_insensitive_equal key k)
     (filter_mset (\<lambda>(k, v). unat (CaseInsensitiveHash hash k) mod n
                       = unat (CaseInsensitiveHash hash key) mod n) m))
   = equal_range m key"
  using cimap.bucket_complete [of key hash n m]
  by (simp add: equal_range_def cimap.bucket_def)

lemma equal_range_mset:
  "equal_range (mset xs) key = mset (map snd (filter (\<lambda>(n, v). map tolower n = map tolower key) xs))"
proof -
  have "filter (\<lambda>(k, v). case_insensitive_equal key k) xs
      = filter (\<lambda>(n, v). map tolower n = map tolower key) xs"
    by (rule filter_cong) (auto simp: case_insensitive_equal_iff)
  then show ?thesis
    by (simp add: equal_range_def flip: mset_filter mset_map)
qed

section \<open>Percent encoding\<close>

definition hex_chars :: string where
  "hex_chars = ''0123456789ABCDEF''"

definition must_encode :: "char \<Rightarrow> bool" where
  "must_encode chr \<longleftrightarrow>
     chr = CHR ''!'' \<or> chr = CHR ''#'' \<or> chr = CHR ''$''
     \<or> (code chr \<ge> code CHR ''&'' \<and> code chr \<le> code CHR '','')
     \<or> (code chr \<ge> code CHR ''/'' \<and> code chr \<le> code CHR '';'')
     \<or> chr = CHR ''='' \<or> chr = CHR ''?'' \<or> chr = CHR ''@'' \<or> chr = CHR ''['' \<or> chr = CHR '']''"

fun encode :: "string \<Rightarrow> string" where
  "encode [] = []"
| "encode (chr # value) =
     (if chr = CHR '' '' then ''+''
      else if must_encode chr
      then ''%'' @ [hex_chars ! (code chr div 16)] @ [hex_chars ! (code chr mod 16)]
      else [chr]) @ encode value"

definition to_char :: "int \<Rightarrow> char" where
  "to_char n = char_of (nat (n mod 256))"

function decode :: "string \<Rightarrow> string" where
  "decode [] = []"
| "decode (chr # value) =
     (if chr = CHR ''%'' \<and> length value \<ge> 2
      then to_char (strtol 16 (c_str (take 2 value))) # decode (drop 2 value)
      else if chr = CHR ''+'' then CHR '' '' # decode value
      else chr # decode value)"
  by pat_completeness auto
termination
  by (relation "measure length") auto

declare decode.simps(2) [simp del]

lemma hex_chars_digit:
  "d < 16 \<Longrightarrow> digit_val 16 (hex_chars ! d) = Some d \<and> \<not> isspace (hex_chars ! d)
     \<and> hex_chars ! d \<noteq> CHR ''-'' \<and> hex_chars ! d \<noteq> CHR ''+'' \<and> hex_chars ! d \<noteq> NUL
     \<and> hex_chars ! d \<noteq> CHR ''&'' \<and> hex_chars ! d \<noteq> CHR ''=''"
proof -
  assume "d < 16"
  then have "d \<in> set [0..<16]" by simp
  then show ?thesis
    by (simp add: upt_rec hex_chars_def)
       (elim disjE; simp add: digit_val_def isdigit_def isupper_def islower_def isspace_def)
qed

lemma code_nibbles: "code c div 16 < 16" "code c mod 16 < 16"
  by (rule less_mult_imp_div_less) simp_all

lemma strtol_hex:
  assumes "n < 256"
  shows "strtol 16 (c_str [hex_chars ! (n div 16), hex_chars ! (n mod 16)]) = int n"
proof -
  define x where "x = hex_chars ! (n div 16)"
  define y where "y = hex_chars ! (n mod 16)"
  have "n div 16 < 16" using assms by (intro less_mult_imp_div_less) simp
  then have x: "digit_val 16 x = Some (n div 16)" "\<not> isspace x"
    "x \<noteq> CHR ''-''" "x \<noteq> CHR ''+''" "x \<noteq> NUL"
    using hex_chars_digit [of "n div 16"] by (simp_all add: x_def)
  have y: "digit_val 16 y = Some (n mod 16)" "y \<noteq> NUL"
    using hex_chars_digit [of "n mod 16"] by (simp_all add: y_def)
  have "read_digits 16 0 [x, y] = n"
    using x(1) y(1) by simp
  moreover have "c_str [x, y] = [x, y]"
    using x(5) y(2) by (simp add: c_str_def)
  moreover have "skip_hex_prefix 16 [x, y] = [x, y]"
    by (simp add: skip_hex_prefix_def)
  ultimately have "strtol 16 (c_str [x, y]) = clamp_long (int n)"
    using x(2,3,4) by (simp add: strtol_def)
  then show ?thesis using assms by (simp add: x_def y_def clamp_long_def)
qed

lemma to_char_code: "to_char (int (code c)) = c"
  by (simp add: to_char_def nat_mod_distrib)

lemma decode_percent:
  "decode (CHR ''%'' # x # y # rest) = to_char (strtol 16 (c_str [x, y])) # decode rest"
  by (subst decode.simps) simp

lemma decode_encode_char:
  assumes "chr \<noteq> CHR ''%''"
  shows "decode (encode [chr] @ rest) = chr # decode rest"
proof (cases "chr = CHR '' ''")
  case True
  then show ?thesis by (simp add: decode.simps(2))
next
  case space: False
  show ?thesis
  proof (cases "must_encode chr")
    case True
    then have "decode (encode [chr] @ rest) =
        to_char (strtol 16 (c_str [hex_chars ! (code chr div 16), hex_chars ! (code chr mod 16)]))
          # decode rest"
      using space by (simp add: decode_percent)
    then show ?thesis
      using strtol_hex [OF code_less, of chr] by (simp only: to_char_code)
  next
    case False
    moreover have "must_encode CHR ''+''" by (simp add: must_encode_def)
    ultimately have "chr \<noteq> CHR ''+''" by metis
    with False space assms show ?thesis by (simp add: decode.simps(2))
  qed
qed

lemma encode_Cons: "encode (c # s) = encode [c] @ encode s"
  by simp

lemma decode_encode: "CHR ''%'' \<notin> set s \<Longrightarrow> decode (encode s) = s"
proof (induction s)
  case (Cons c s)
  then have "decode (encode [c] @ encode s) = c # decode (encode s)"
    by (intro decode_encode_char) auto
  moreover have "encode (c # s) = encode [c] @ encode s" by (rule encode_Cons)
  ultimately show ?case using Cons by (simp del: encode.simps)
qed simp

text \<open>Two strings without percent signs that are encoded alike are equal.\<close>

interpretation percent_text: text_codec "\<lambda>s. Inr (encode s)" "\<lambda>t. Inr (decode t)" "\<lambda>s. CHR ''%'' \<notin> set s" "\<lambda>s. s"
  by unfold_locales (auto simp: decode_encode)

lemma encode_inject: "CHR ''%'' \<notin> set s \<Longrightarrow> CHR ''%'' \<notin> set t \<Longrightarrow> encode s = encode t \<Longrightarrow> s = t"
  using percent_text.write_inject [of s t "encode t"] by simp


lemma encode_char_no_separator:
  assumes "c \<in> set (encode [chr])"
  shows "c \<noteq> CHR ''&'' \<and> c \<noteq> CHR ''=''"
proof (cases "chr \<noteq> CHR '' '' \<and> must_encode chr")
  case True
  then have "encode [chr] = [CHR ''%'', hex_chars ! (code chr div 16), hex_chars ! (code chr mod 16)]"
    by simp
  then have "c \<in> {CHR ''%'', hex_chars ! (code chr div 16), hex_chars ! (code chr mod 16)}"
    using assms by (simp only: list.set)
  then show ?thesis
    using hex_chars_digit [OF code_nibbles(1) [of chr]]
      hex_chars_digit [OF code_nibbles(2) [of chr]]
    by (elim insertE emptyE) simp_all
next
  case False
  have "must_encode CHR ''&''" "must_encode CHR ''=''"
    by (simp_all add: must_encode_def)
  moreover have "c = CHR ''+'' \<or> c = chr \<and> \<not> must_encode chr"
    using False assms by (simp split: if_splits)
  ultimately show ?thesis by (elim disjE) (simp, metis)
qed

lemma encode_no_separator: "c \<in> set (encode s) \<Longrightarrow> c \<noteq> CHR ''&'' \<and> c \<noteq> CHR ''=''"
proof (induction s)
  case (Cons chr s)
  then have "c \<in> set (encode [chr]) \<or> c \<in> set (encode s)"
    by (subst (asm) encode_Cons) simp
  then show ?case
    using Cons.IH encode_char_no_separator by blast
qed simp

lemma encode_separators [simp]: "CHR ''&'' \<notin> set (encode s)" "CHR ''='' \<notin> set (encode s)"
  using encode_no_separator by blast+

lemma length_decode: "length (decode s) \<le> length s"
  by (induction s rule: decode.induct) (auto simp: decode.simps(2) min_def)

text \<open>
  C27: Percent encoding round trip. Decoding the encoding of a string without a percent sign
  gives the string back; an encoded string never contains the separators of a query, and is at
  least as long as its source and at most three times as long; decoding never lengthens.
\<close>

theorem percent_roundtrip:
  assumes "CHR ''%'' \<notin> set s"
  shows "decode (encode s) = s \<and> CHR ''&'' \<notin> set (encode s) \<and> CHR ''='' \<notin> set (encode s)
    \<and> length s \<le> length (encode s) \<and> length (encode s) \<le> 3 * length s
    \<and> length (decode t) \<le> length t"
proof -
  have "length s \<le> length (encode s) \<and> length (encode s) \<le> 3 * length s"
    by (induction s) auto
  then show ?thesis
    using decode_encode [OF assms] encode_no_separator length_decode by blast
qed

theorem percent_roundtrip_witness:
  "encode ''a b&c'' = ''a+b%26c'' \<and> decode (encode ''a b&c'') = ''a b&c''"
proof -
  have "encode ''a b&c'' = ''a+b%26c''"
    by (simp add: must_encode_def hex_chars_def)
  moreover have "decode (encode ''a b&c'') = ''a b&c''"
    using percent_roundtrip [of "''a b&c''"] by simp
  ultimately show ?thesis by simp
qed

text \<open>
  The encoder leaves the percent sign itself unescaped, so the round trip fails on strings
  that contain one: the text \<open>%AB\<close> is its own encoding and decodes to the single byte 171.
\<close>

theorem percent_not_escaped:
  "encode ''%AB'' = ''%AB'' \<and> decode (encode ''%AB'') = [CHR 0xAB]"
proof -
  have "encode ''%AB'' = ''%AB''" by (simp add: must_encode_def)
  moreover have "strtol 16 (c_str ''AB'') = 171"
    by (simp add: c_str_def strtol_def isspace_def skip_hex_prefix_def digit_val_def isdigit_def
        islower_def isupper_def clamp_long_def)
  moreover have "to_char 171 = CHR 0xAB" by code_simp
  ultimately show ?thesis by (simp add: decode_percent)
qed

section \<open>Content types\<close>

text \<open>
  \<open>iequals\<close> of the Beast library: a loop that runs while the bytes are equal, and from the
  first difference on a loop that compares them in lower case. The second loop reads one byte
  beyond both strings before it tests its counter; the value read there is not used.
\<close>

definition ascii_tolower :: "char \<Rightarrow> char" where
  "ascii_tolower c = (if 65 \<le> code c \<and> code c - 65 < 26 then char_of (code c + 97 - 65) else c)"

fun iequals_slow :: "char \<Rightarrow> char \<Rightarrow> string \<Rightarrow> string \<Rightarrow> bool" where
  "iequals_slow a b [] p2 = (ascii_tolower a = ascii_tolower b)"
| "iequals_slow a b (a' # p1) p2 =
     (if ascii_tolower a \<noteq> ascii_tolower b then False
      else iequals_slow a' (deref p2) p1 (tl p2))"

fun iequals_fast :: "string \<Rightarrow> string \<Rightarrow> bool" where
  "iequals_fast [] p2 = True"
| "iequals_fast (a # p1) p2 =
     (let b = deref p2 in
      if a \<noteq> b then iequals_slow a b p1 (tl p2) else iequals_fast p1 (tl p2))"

definition iequals :: "string \<Rightarrow> string \<Rightarrow> bool" where
  "iequals lhs rhs = (if length rhs \<noteq> length lhs then False else iequals_fast lhs rhs)"

definition rfind :: "string \<Rightarrow> char \<Rightarrow> nat" where
  "rfind s c = (if c \<in> set s then length s - Suc (length (takeWhile (\<lambda>x. x \<noteq> c) (rev s)))
                else npos)"

definition mime_ext :: "string \<Rightarrow> string" where
  "mime_ext path = (let pos = rfind path CHR ''.'' in if pos = npos then [] else drop pos path)"

definition mime_type :: "string \<Rightarrow> string" where
  "mime_type path =
     (let ext = mime_ext path in
      if iequals ext ''.htm'' then ''text/html''
      else if iequals ext ''.html'' then ''text/html''
      else if iequals ext ''.php'' then ''text/html''
      else if iequals ext ''.css'' then ''text/css''
      else if iequals ext ''.txt'' then ''text/plain''
      else if iequals ext ''.js'' then ''application/javascript''
      else if iequals ext ''.json'' then ''application/json''
      else if iequals ext ''.xml'' then ''application/xml''
      else if iequals ext ''.swf'' then ''application/x-shockwave-flash''
      else if iequals ext ''.flv'' then ''video/x-flv''
      else if iequals ext ''.png'' then ''image/png''
      else if iequals ext ''.jpe'' then ''image/jpeg''
      else if iequals ext ''.jpeg'' then ''image/jpeg''
      else if iequals ext ''.jpg'' then ''image/jpeg''
      else if iequals ext ''.gif'' then ''image/gif''
      else if iequals ext ''.bmp'' then ''image/bmp''
      else if iequals ext ''.ico'' then ''image/vnd.microsoft.icon''
      else if iequals ext ''.tiff'' then ''image/tiff''
      else if iequals ext ''.tif'' then ''image/tiff''
      else if iequals ext ''.svg'' then ''image/svg+xml''
      else if iequals ext ''.svgz'' then ''image/svg+xml''
      else ''application/octet-stream'')"

lemma ascii_tolower_eq: "ascii_tolower c = tolower c"
  by (auto simp: ascii_tolower_def tolower_def isupper_def)

lemma iequals_slow_iff:
  "length p1 = length p2 \<Longrightarrow>
   iequals_slow a b p1 p2 \<longleftrightarrow> map tolower (a # p1) = map tolower (b # p2)"
  by (induction p1 p2 arbitrary: a b rule: list_induct2) (auto simp: ascii_tolower_eq)

lemma iequals_fast_iff:
  "length p1 = length p2 \<Longrightarrow> iequals_fast p1 p2 \<longleftrightarrow> map tolower p1 = map tolower p2"
  by (induction p1 p2 rule: list_induct2) (auto simp: iequals_slow_iff)

lemma iequals_iff: "iequals a b \<longleftrightarrow> map tolower a = map tolower b"
  by (auto simp: iequals_def iequals_fast_iff dest: map_eq_imp_length_eq)

text \<open>The reference: a table of extensions and content types, searched from the front.\<close>

definition mime_table :: "(string \<times> string) list" where
  "mime_table =
     [(''.htm'', ''text/html''), (''.html'', ''text/html''), (''.php'', ''text/html''),
      (''.css'', ''text/css''), (''.txt'', ''text/plain''), (''.js'', ''application/javascript''),
      (''.json'', ''application/json''), (''.xml'', ''application/xml''),
      (''.swf'', ''application/x-shockwave-flash''), (''.flv'', ''video/x-flv''),
      (''.png'', ''image/png''), (''.jpe'', ''image/jpeg''), (''.jpeg'', ''image/jpeg''),
      (''.jpg'', ''image/jpeg''), (''.gif'', ''image/gif''), (''.bmp'', ''image/bmp''),
      (''.ico'', ''image/vnd.microsoft.icon''), (''.tiff'', ''image/tiff''),
      (''.tif'', ''image/tiff''), (''.svg'', ''image/svg+xml''), (''.svgz'', ''image/svg+xml'')]"

lemma tolower_dot: "tolower c = CHR ''.'' \<longleftrightarrow> c = CHR ''.''"
proof -
  have "\<not> isalpha CHR ''.''" by (simp add: isalpha_def isupper_def islower_def)
  then show ?thesis by (metis isalpha_tolower tolower_not_alpha)
qed

lemma rfind_tolower: "rfind (map tolower s) CHR ''.'' = rfind s CHR ''.''"
proof -
  have "(\<lambda>x. x \<noteq> CHR ''.'') \<circ> tolower = (\<lambda>x. x \<noteq> CHR ''.'')"
    by (auto simp: tolower_dot)
  moreover have "CHR ''.'' \<in> set (map tolower s) \<longleftrightarrow> CHR ''.'' \<in> set s"
    by (metis (no_types, lifting) image_iff list.set_map tolower_dot)
  ultimately show ?thesis
    unfolding rfind_def rev_map takeWhile_map by simp
qed

lemma mime_ext_tolower: "mime_ext (map tolower s) = map tolower (mime_ext s)"
  by (simp add: mime_ext_def rfind_tolower drop_map Let_def)

lemma mime_ext_last_dot:
  assumes "CHR ''.'' \<notin> set e" and "length dir + length e < npos"
  shows "mime_ext (dir @ CHR ''.'' # e) = CHR ''.'' # e"
proof -
  have "takeWhile (\<lambda>x. x \<noteq> CHR ''.'') (rev e @ CHR ''.'' # rev dir) = rev e"
    using assms(1) by (subst takeWhile_append2) auto
  then have "rfind (dir @ CHR ''.'' # e) CHR ''.'' = length dir"
    by (simp add: rfind_def)
  then show ?thesis
    using assms(2) by (simp add: mime_ext_def)
qed

lemma mime_ext_no_dot: "CHR ''.'' \<notin> set path \<Longrightarrow> mime_ext path = []"
  by (simp add: mime_ext_def rfind_def)


lemma lower_extensions:
  "map tolower ''.htm'' = ''.htm''"
  "map tolower ''.html'' = ''.html''"
  "map tolower ''.php'' = ''.php''"
  "map tolower ''.css'' = ''.css''"
  "map tolower ''.txt'' = ''.txt''"
  "map tolower ''.js'' = ''.js''"
  "map tolower ''.json'' = ''.json''"
  "map tolower ''.xml'' = ''.xml''"
  "map tolower ''.swf'' = ''.swf''"
  "map tolower ''.flv'' = ''.flv''"
  "map tolower ''.png'' = ''.png''"
  "map tolower ''.jpe'' = ''.jpe''"
  "map tolower ''.jpeg'' = ''.jpeg''"
  "map tolower ''.jpg'' = ''.jpg''"
  "map tolower ''.gif'' = ''.gif''"
  "map tolower ''.bmp'' = ''.bmp''"
  "map tolower ''.ico'' = ''.ico''"
  "map tolower ''.tiff'' = ''.tiff''"
  "map tolower ''.tif'' = ''.tif''"
  "map tolower ''.svg'' = ''.svg''"
  "map tolower ''.svgz'' = ''.svgz''"
  by code_simp+

lemma lookup_if:
  "(case (if b then Some x else y) of Some t \<Rightarrow> t | None \<Rightarrow> d)
     = (if b then x else (case y of Some t \<Rightarrow> t | None \<Rightarrow> d))"
  by simp

lemma mime_type_table:
  "mime_type path =
     (case map_of mime_table (map tolower (mime_ext path)) of
        Some t \<Rightarrow> t | None \<Rightarrow> ''application/octet-stream'')"
  unfolding mime_type_def mime_table_def iequals_iff Let_def lower_extensions
  by (simp only: map_of.simps fun_upd_apply fst_conv snd_conv lookup_if option.case)

text \<open>
  The content type depends on the text after the last dot only, without regard to case, and
  is the entry of the table for it, or \<open>application/octet-stream\<close> when there is none or the path
  has no dot.
\<close>

theorem mime_type_by_extension:
  assumes "CHR ''.'' \<notin> set e" and "length dir + length e < npos" and "CHR ''.'' \<notin> set nodot"
    and "map tolower p = map tolower q"
  shows "mime_type (dir @ CHR ''.'' # e) =
           (case map_of mime_table (CHR ''.'' # map tolower e) of
              Some t \<Rightarrow> t | None \<Rightarrow> ''application/octet-stream'')
         \<and> mime_type nodot = ''application/octet-stream'' \<and> mime_type p = mime_type q"
proof (intro conjI)
  have "tolower CHR ''.'' = CHR ''.''" by (simp add: tolower_dot)
  then show "mime_type (dir @ CHR ''.'' # e) =
           (case map_of mime_table (CHR ''.'' # map tolower e) of
              Some t \<Rightarrow> t | None \<Rightarrow> ''application/octet-stream'')"
    by (simp add: mime_type_table mime_ext_last_dot [OF assms(1,2)])
  show "mime_type nodot = ''application/octet-stream''"
    by (simp add: mime_type_table mime_ext_no_dot [OF assms(3)] mime_table_def)
  have "map tolower (mime_ext p) = map tolower (mime_ext q)"
    using assms(4) by (metis mime_ext_tolower)
  then show "mime_type p = mime_type q" by (simp add: mime_type_table)
qed

theorem mime_type_by_extension_witness:
  "mime_type (''/a.b/x'' @ CHR ''.'' # ''HTML'') = ''text/html''
   \<and> mime_type ''/README'' = ''application/octet-stream''
   \<and> mime_type ''p.Png'' = mime_type ''P.pNG''"
proof -
  have "mime_type (''/a.b/x'' @ CHR ''.'' # ''HTML'') =
      (case map_of mime_table (CHR ''.'' # map tolower ''HTML'') of
         Some t \<Rightarrow> t | None \<Rightarrow> ''application/octet-stream'')
      \<and> mime_type ''/README'' = ''application/octet-stream''
      \<and> mime_type ''p.Png'' = mime_type ''P.pNG''"
  proof (rule mime_type_by_extension)
    show "map tolower ''p.Png'' = map tolower ''P.pNG''" by code_simp
  qed (simp_all add: npos_def)
  moreover have "(case map_of mime_table (CHR ''.'' # map tolower ''HTML'') of
      Some t \<Rightarrow> t | None \<Rightarrow> ''application/octet-stream'') = ''text/html''"
    by code_simp
  ultimately show ?thesis by (simp only:)
qed

section \<open>Request targets\<close>

text \<open>
  \<open>parse_target\<close> writes its two output strings: they are passed in and returned, since without a
  question mark the code leaves \<open>query_string\<close> as it was.
\<close>

definition parse_target :: "string \<Rightarrow> string \<Rightarrow> string \<Rightarrow> bool \<times> string \<times> string" where
  "parse_target target path query_string =
     (let query_start = length (takeWhile (\<lambda>c. c \<noteq> CHR ''?'') target) in
      if query_start < length target
      then (True, take query_start target, drop (query_start + 1) target)
      else (True, target, query_string))"

lemma parse_target_no_query:
  assumes "CHR ''?'' \<notin> set target"
  shows "parse_target target path query_string = (True, target, query_string)"
proof -
  have t: "takeWhile (\<lambda>c. c \<noteq> CHR ''?'') target = target"
    using assms by (subst takeWhile_eq_all_conv) metis
  show ?thesis unfolding parse_target_def Let_def t by simp
qed

lemma parse_target_query:
  assumes "CHR ''?'' \<notin> set p"
  shows "parse_target (p @ CHR ''?'' # q) path query_string = (True, p, q)"
proof -
  have "takeWhile (\<lambda>c. c \<noteq> CHR ''?'') (p @ CHR ''?'' # q) = p"
    using assms by (subst takeWhile_append2) auto
  then show ?thesis by (simp add: parse_target_def)
qed

text \<open>
  \<open>parse_query_string\<close>: the loop over the index \<open>c\<close> with its three positions, \<open>npos\<close> standing
  for the value minus one they are initialised with, then the entry after the last separator.
\<close>

record query_state =
  name_pos :: nat
  name_end_pos :: nat
  value_pos :: nat
  query_result :: emplaced

definition query_entry :: "string \<Rightarrow> nat \<Rightarrow> query_state \<Rightarrow> std_error + emplaced" where
  "query_entry query_string c st =
     bind_res (substr query_string (name_pos st)
        (size_sub (if name_end_pos st = npos then c else name_end_pos st) (name_pos st))) (\<lambda>name.
     if name \<noteq> [] then
       bind_res (if value_pos st = npos then Inr []
                 else substr query_string (value_pos st) (size_sub c (value_pos st))) (\<lambda>value.
       Inr (query_result st @ [(name, decode value)]))
     else Inr (query_result st))"

function query_loop :: "string \<Rightarrow> nat \<Rightarrow> query_state \<Rightarrow> std_error + query_state" where
  "query_loop query_string c st =
     (if c < length query_string then
        if query_string ! c = CHR ''&'' then
          bind_res (query_entry query_string c st) (\<lambda>res.
          query_loop query_string (c + 1)
            \<lparr>name_pos = c + 1, name_end_pos = npos, value_pos = npos, query_result = res\<rparr>)
        else if query_string ! c = CHR ''='' then
          query_loop query_string (c + 1) (st\<lparr>name_end_pos := c, value_pos := c + 1\<rparr>)
        else query_loop query_string (c + 1) st
      else Inr st)"
  by pat_completeness auto
termination
  by (relation "measure (\<lambda>(q, c, st). length q - c)") auto

declare query_loop.simps [simp del]

definition query_last :: "string \<Rightarrow> query_state \<Rightarrow> std_error + emplaced" where
  "query_last query_string st =
     (if name_pos st < length query_string then
        bind_res (substr query_string (name_pos st) (size_sub (name_end_pos st) (name_pos st))) (\<lambda>name.
        if name \<noteq> [] then
          bind_res (if value_pos st \<ge> length query_string then Inr []
                    else substr query_string (value_pos st) npos) (\<lambda>value.
          Inr (query_result st @ [(name, decode value)]))
        else Inr (query_result st))
      else Inr (query_result st))"

definition parse_query_string :: "string \<Rightarrow> std_error + emplaced" where
  "parse_query_string query_string =
     (if query_string = [] then Inr []
      else bind_res (query_loop query_string 0
             \<lparr>name_pos = 0, name_end_pos = npos, value_pos = npos, query_result = []\<rparr>)
           (query_last query_string))"


text \<open>
  The reference: the query is split at every ampersand, each piece at its last equals sign; a
  piece with an empty name is dropped, the value is percent-decoded and the name is not.
\<close>

fun split_on :: "'a \<Rightarrow> 'a list \<Rightarrow> 'a list list" where
  "split_on x [] = [[]]"
| "split_on x (y # ys) =
     (if y = x then [] # split_on x ys
      else (y # hd (split_on x ys)) # tl (split_on x ys))"

definition split_pair :: "string \<Rightarrow> string \<times> string" where
  "split_pair seg =
     (if CHR ''='' \<in> set seg
      then let v = rev (takeWhile (\<lambda>c. c \<noteq> CHR ''='') (rev seg))
           in (take (length seg - length v - 1) seg, v)
      else (seg, []))"

definition pair_entry :: "string \<Rightarrow> emplaced" where
  "pair_entry seg =
     (let (name, value) = split_pair seg in if name = [] then [] else [(name, decode value)])"

definition query_spec :: "string \<Rightarrow> emplaced" where
  "query_spec q = concat (map pair_entry (split_on CHR ''&'' q))"

lemma split_on_nonempty [simp]: "split_on x ys \<noteq> []"
  by (cases ys) auto

lemma split_on_snoc:
  "split_on x (s @ [a]) =
     (if a = x then split_on x s @ [[]]
      else butlast (split_on x s) @ [last (split_on x s) @ [a]])"
proof (induction s)
  case (Cons b s)
  obtain h t where "split_on x s = h # t" by (cases "split_on x s") auto
  with Cons show ?case by (cases t) auto
qed simp

lemma split_on_last:
  "\<exists>pre. s = pre @ last (split_on x s) \<and> x \<notin> set (last (split_on x s))"
proof (induction s rule: rev_induct)
  case (snoc a s)
  then show ?case by (auto simp: split_on_snoc)
qed simp

lemma split_on_notin: "x \<notin> set s \<Longrightarrow> split_on x s = [s]"
  by (induction s) auto

lemma split_on_append:
  "x \<notin> set s \<Longrightarrow> split_on x (s @ x # t) = s # split_on x t"
  by (induction s) auto

lemma split_on_join:
  "xs \<noteq> [] \<Longrightarrow> (\<And>s. s \<in> set xs \<Longrightarrow> x \<notin> set s) \<Longrightarrow> split_on x (join [x] xs) = xs"
proof (induction xs)
  case (Cons s xs)
  then show ?case
    by (cases "xs = []") (simp_all add: join_Cons split_on_append split_on_notin)
qed simp

lemma split_pair_last:
  assumes "CHR ''='' \<notin> set v"
  shows "split_pair (n @ CHR ''='' # v) = (n, v)"
proof -
  have "takeWhile (\<lambda>c. c \<noteq> CHR ''='') (rev v @ CHR ''='' # rev n) = rev v"
    using assms by (subst takeWhile_append2) auto
  then show ?thesis by (simp add: split_pair_def)
qed

lemma split_pair_none: "CHR ''='' \<notin> set seg \<Longrightarrow> split_pair seg = (seg, [])"
  by (simp add: split_pair_def)

lemma split_pair_cases:
  obtains "CHR ''='' \<notin> set seg" "split_pair seg = (seg, [])"
  | n v where "seg = n @ CHR ''='' # v" "CHR ''='' \<notin> set v" "split_pair seg = (n, v)"
proof (cases "CHR ''='' \<in> set seg")
  case True
  then obtain n v where "seg = n @ CHR ''='' # v" "CHR ''='' \<notin> set v"
    using split_list_last by fastforce
  then show ?thesis using that(2) split_pair_last by blast
qed (use that(1) split_pair_none in blast)

text \<open>
  The loop invariant: after \<open>c\<close> bytes the positions describe the piece that is being read (its
  start, and its last equals sign if it has one), and the entries of the pieces before it are
  in the result.
\<close>

definition query_inv :: "string \<Rightarrow> nat \<Rightarrow> query_state \<Rightarrow> bool" where
  "query_inv q c st \<longleftrightarrow>
     (let cur = last (split_on CHR ''&'' (take c q)) in
        name_pos st + length cur = c
        \<and> (if CHR ''='' \<in> set cur
           then name_end_pos st = name_pos st + length (fst (split_pair cur))
                \<and> value_pos st = name_end_pos st + 1
           else name_end_pos st = npos \<and> value_pos st = npos)
        \<and> query_result st = concat (map pair_entry (butlast (split_on CHR ''&'' (take c q)))))"

lemma concat_butlast_last:
  "ps \<noteq> [] \<Longrightarrow> concat (map f (butlast ps)) @ f (last ps) = concat (map f ps)"
  by (induction ps) auto

lemma query_inv_drop:
  assumes "query_inv q c st" and "c \<le> length q"
  shows "drop (name_pos st) q = last (split_on CHR ''&'' (take c q)) @ drop c q"
proof -
  define cur where "cur = last (split_on CHR ''&'' (take c q))"
  define rest where "rest = drop c q"
  obtain pre where pre: "take c q = pre @ cur"
    using split_on_last [of "take c q"] unfolding cur_def by blast
  then have "q = pre @ cur @ rest"
    unfolding rest_def by (metis append_assoc append_take_drop_id)
  moreover have "length pre + length cur = c"
    using arg_cong [OF pre, of length] assms(2) by simp
  then have "name_pos st = length pre"
    using assms(1) by (auto simp: query_inv_def cur_def Let_def)
  ultimately have "drop (name_pos st) q = cur @ rest" by simp
  then show ?thesis by (simp only: cur_def rest_def)
qed

lemma query_entry_correct:
  assumes inv: "query_inv q c st" and c: "c \<le> length q" and len: "length q < npos"
  shows "query_entry q c st =
           Inr (query_result st @ pair_entry (last (split_on CHR ''&'' (take c q))))"
proof -
  define cur where "cur = last (split_on CHR ''&'' (take c q))"
  have d: "drop (name_pos st) q = cur @ drop c q"
    using query_inv_drop [OF inv c] by (simp add: cur_def)
  have pos: "name_pos st + length cur = c"
    using inv by (simp add: query_inv_def cur_def Let_def)
  have small: "c < 2 ^ 64" "name_pos st \<le> length q" using c len pos by (simp_all add: npos_def)
  show ?thesis
  proof (cases rule: split_pair_cases [of cur])
    case 1
    then have "name_end_pos st = npos" "value_pos st = npos"
      using inv by (auto simp: query_inv_def cur_def Let_def)
    moreover have "size_sub c (name_pos st) = length cur"
      using size_sub_le [of "name_pos st" c] pos small by simp
    ultimately show ?thesis
      using d small 1(2)
      by (simp add: query_entry_def substr_def pair_entry_def cur_def [symmetric])
  next
    case (2 n v)
    then have e: "name_end_pos st = name_pos st + length n" "value_pos st = name_end_pos st + 1"
      using inv by (auto simp: query_inv_def cur_def Let_def)
    have ne: "name_end_pos st \<noteq> npos" "value_pos st \<noteq> npos"
      using e pos 2(1) c len by (auto simp: npos_def)
    have s1: "size_sub (name_end_pos st) (name_pos st) = length n"
      using size_sub_le [of "name_pos st" "name_end_pos st"] e pos 2(1) small by simp
    have s2: "size_sub c (value_pos st) = length v"
      using size_sub_le [of "value_pos st" c] e pos 2(1) small by simp
    have "drop (value_pos st) q = drop (Suc (length n)) (drop (name_pos st) q)"
      using e by (simp add: add.commute)
    then have d2: "drop (value_pos st) q = v @ drop c q"
      using d 2(1) by simp
    have "value_pos st \<le> length q" using e pos 2(1) c by simp
    then show ?thesis
      using d d2 ne s1 s2 small 2
      by (simp add: query_entry_def substr_def pair_entry_def cur_def [symmetric])
  qed
qed


lemma query_inv_step:
  assumes inv: "query_inv q c st" and c: "c < length q" and len: "length q < npos"
  shows "query_inv q (c + 1)
     (if q ! c = CHR ''&''
      then \<lparr>name_pos = c + 1, name_end_pos = npos, value_pos = npos,
            query_result = query_result st @ pair_entry (last (split_on CHR ''&'' (take c q)))\<rparr>
      else if q ! c = CHR ''='' then st\<lparr>name_end_pos := c, value_pos := c + 1\<rparr>
      else st)"
proof -
  define ps where "ps = split_on CHR ''&'' (take c q)"
  have ps: "ps \<noteq> []" by (simp add: ps_def)
  have t: "take (Suc c) q = take c q @ [q ! c]"
    using c by (simp add: take_Suc_conv_app_nth)
  have r: "concat (map pair_entry (butlast ps)) @ pair_entry (last ps) = concat (map pair_entry ps)"
    by (rule concat_butlast_last [OF ps])
  have st: "name_pos st + length (last ps) = c"
    "query_result st = concat (map pair_entry (butlast ps))"
    "if CHR ''='' \<in> set (last ps)
     then name_end_pos st = name_pos st + length (fst (split_pair (last ps)))
          \<and> value_pos st = name_end_pos st + 1
     else name_end_pos st = npos \<and> value_pos st = npos"
    using inv by (simp_all add: query_inv_def ps_def Let_def)
  consider "q ! c = CHR ''&''" | "q ! c = CHR ''=''" | "q ! c \<noteq> CHR ''&''" "q ! c \<noteq> CHR ''=''"
    by blast
  then show ?thesis
  proof cases
    case 1
    then show ?thesis
      using r st(2) by (simp add: query_inv_def Let_def t split_on_snoc ps_def [symmetric])
  next
    case 2
    then show ?thesis
      using st(1,2) split_pair_last [of "[]" "last ps"]
      by (simp add: query_inv_def Let_def t split_on_snoc ps_def [symmetric])
  next
    case 3
    show ?thesis
    proof (cases rule: split_pair_cases [of "last ps"])
      case 1
      then show ?thesis
        using 3 st by (simp add: query_inv_def Let_def t split_on_snoc ps_def [symmetric])
    next
      case (2 n v)
      then have "split_pair (last ps @ [q ! c]) = (n, v @ [q ! c])"
        using 3 split_pair_last [of "v @ [q ! c]" n] by simp
      then show ?thesis
        using 2 3 st by (simp add: query_inv_def Let_def t split_on_snoc ps_def [symmetric])
    qed
  qed
qed

lemma query_loop_correct:
  assumes "query_inv q c st" and "c \<le> length q" and "length q < npos"
  shows "\<exists>st'. query_loop q c st = Inr st' \<and> query_inv q (length q) st'"
  using assms
proof (induction q c st rule: query_loop.induct)
  case (1 q c st)
  show ?case
  proof (cases "c < length q")
    case True
    note step = query_inv_step [OF "1.prems"(1) True "1.prems"(3)]
    note entry = query_entry_correct [OF "1.prems"]
    consider "q ! c = CHR ''&''" | "q ! c = CHR ''=''" | "q ! c \<noteq> CHR ''&''" "q ! c \<noteq> CHR ''=''"
      by blast
    then show ?thesis
    proof cases
      case 1
      then show ?thesis
        using "1.IH"(1) [OF True _ entry] step entry True "1.prems"(3)
        by (simp add: query_loop.simps [of q c st])
    next
      case 2
      then show ?thesis
        using "1.IH"(2) [OF True] step True "1.prems"(3)
        by (simp add: query_loop.simps [of q c st])
    next
      case 3
      then show ?thesis
        using "1.IH"(3) [OF True] step True "1.prems"(3)
        by (simp add: query_loop.simps [of q c st])
    qed
  next
    case False
    then have "c = length q" using "1.prems"(2) by simp
    then show ?thesis
      using "1.prems"(1) by (simp add: query_loop.simps [of q "length q" st])
  qed
qed

lemma query_last_correct:
  assumes inv: "query_inv q (length q) st" and len: "length q < npos"
  shows "query_last q st = Inr (query_spec q)"
proof -
  define ps where "ps = split_on CHR ''&'' q"
  have spec: "query_spec q = query_result st @ pair_entry (last ps)"
    using inv concat_butlast_last [of ps pair_entry]
    by (simp add: query_spec_def query_inv_def Let_def ps_def)
  have pos: "name_pos st + length (last ps) = length q"
    using inv by (simp add: query_inv_def Let_def ps_def)
  have d: "drop (name_pos st) q = last ps"
    using query_inv_drop [OF inv] by (simp add: ps_def)
  have small: "name_pos st \<le> npos" "npos < 2 ^ 64" using pos len by (simp_all add: npos_def)
  show ?thesis
  proof (cases rule: split_pair_cases [of "last ps"])
    case 1
    then have e: "name_end_pos st = npos" "value_pos st = npos"
      using inv by (auto simp: query_inv_def ps_def Let_def)
    have "size_sub npos (name_pos st) \<ge> length (last ps)"
      using size_sub_le [of "name_pos st" npos] small pos len by simp
    moreover have "name_pos st < length q \<longleftrightarrow> last ps \<noteq> []"
      using pos by (cases "last ps") auto
    ultimately show ?thesis
      using 1 e pos len d
      by (auto simp: query_last_def spec substr_def pair_entry_def)
  next
    case (2 n v)
    then have e: "name_end_pos st = name_pos st + length n" "value_pos st = name_end_pos st + 1"
      using inv by (auto simp: query_inv_def ps_def Let_def)
    have s1: "size_sub (name_end_pos st) (name_pos st) = length n"
      using size_sub_le [of "name_pos st" "name_end_pos st"] e pos 2(1) small len by simp
    have "drop (value_pos st) q = drop (Suc (length n)) (drop (name_pos st) q)"
      using e by (simp add: add.commute)
    then have d2: "drop (value_pos st) q = v" using d 2(1) by simp
    have l: "length v < npos" "name_pos st < length q"
      using pos 2(1) len by simp_all
    show ?thesis
      using 2 e pos d d2 s1 l
      by (auto simp: query_last_def spec substr_def pair_entry_def)
  qed
qed

lemma parse_query_string_eq:
  assumes "length q < npos"
  shows "parse_query_string q = Inr (query_spec q)"
proof (cases "q = []")
  case True
  then show ?thesis
    by (simp add: parse_query_string_def query_spec_def pair_entry_def split_pair_def)
next
  case False
  have "query_inv q 0 \<lparr>name_pos = 0, name_end_pos = npos, value_pos = npos, query_result = []\<rparr>"
    by (simp add: query_inv_def)
  then obtain st where "query_loop q 0 \<lparr>name_pos = 0, name_end_pos = npos, value_pos = npos,
      query_result = []\<rparr> = Inr st" "query_inv q (length q) st"
    using query_loop_correct assms by blast
  with False assms show ?thesis
    by (simp add: parse_query_string_def query_last_correct)
qed

text \<open>
  C15: The index loop of \<open>parse_query_string\<close> never leaves the string (no \<open>substr\<close> throws, no
  position underflows) and computes the declarative reading: the pieces between ampersands,
  each split at its last equals sign, pieces with an empty name dropped, values decoded.
\<close>

theorem parse_query_string_correct:
  assumes "length q < npos"
  shows "parse_query_string q = Inr (query_spec q)"
  by (rule parse_query_string_eq [OF assms])

theorem parse_query_string_correct_witness:
  "parse_query_string ''a=1&=x&b&c=d=e'' = Inr [(''a'', ''1''), (''b'', []), (''c=d'', ''e'')]"
proof -
  have "query_spec ''a=1&=x&b&c=d=e'' = [(''a'', ''1''), (''b'', []), (''c=d'', ''e'')]"
    by (simp add: query_spec_def pair_entry_def split_pair_def decode.simps)
  then show ?thesis
    using parse_query_string_correct [of "''a=1&=x&b&c=d=e''"] by (simp add: npos_def)
qed

text \<open>
  C28: Parameters survive the trip through a query string. If the names are not empty and free
  of the two separators and the values free of percent signs, then the parser applied to the
  query built from the names and the encoded values fills its container with exactly those
  entries, each as often as it was given, and a lookup of a name finds exactly the values that were
  given under a name that is the same up to case. (The container promises no order.)
\<close>

theorem query_roundtrip:
  assumes "params \<noteq> []"
    and "\<forall>(n, v) \<in> set params. n \<noteq> [] \<and> CHR ''&'' \<notin> set n \<and> CHR ''='' \<notin> set n \<and> CHR ''%'' \<notin> set v"
    and "length (join ''&'' (map (\<lambda>(n, v). n @ ''='' @ encode v) params)) < npos"
  shows "\<exists>calls. parse_query_string (join ''&'' (map (\<lambda>(n, v). n @ ''='' @ encode v) params)) = Inr calls
    \<and> mset calls = mset params
    \<and> (\<forall>key. equal_range (mset calls) key =
          mset (map snd (filter (\<lambda>(n, v). map tolower n = map tolower key) params)))"
proof -
  let ?segs = "map (\<lambda>(n, v). n @ ''='' @ encode v) params"
  have "split_on CHR ''&'' (join ''&'' ?segs) = ?segs"
    using assms(1,2) by (intro split_on_join) auto
  moreover have "concat (map pair_entry ?segs) = params"
    using assms(2)
  proof (induction params)
    case (Cons p ps)
    obtain n v where p: "p = (n, v)" by (cases p)
    have "split_pair (n @ CHR ''='' # encode v) = (n, encode v)"
      by (intro split_pair_last) simp
    then have "pair_entry (n @ CHR ''='' # encode v) = [(n, v)]"
      using Cons.prems p by (auto simp: pair_entry_def decode_encode)
    with Cons p show ?case by simp
  qed simp
  ultimately have "parse_query_string (join ''&'' ?segs) = Inr params"
    using parse_query_string_eq [OF assms(3)] by (simp add: query_spec_def)
  then show ?thesis by (auto simp: equal_range_mset)
qed

theorem query_roundtrip_witness:
  "\<exists>calls. parse_query_string ''k=a%26b&K=+'' = Inr calls
     \<and> mset calls = mset [(''k'', ''a&b''), (''K'', '' '')]
     \<and> equal_range (mset calls) ''K'' = mset [''a&b'', '' '']"
proof -
  let ?params = "[(''k'', ''a&b''), (''K'', '' '')]"
  have j: "join ''&'' (map (\<lambda>(n, v). n @ ''='' @ encode v) ?params) = ''k=a%26b&K=+''"
    by (simp add: must_encode_def hex_chars_def)
  have k: "map snd (filter (\<lambda>(n, v). map tolower n = map tolower ''K'') ?params) = [''a&b'', '' '']"
    by (simp add: tolower_def isupper_def char_of_def bit_0)
  have "\<exists>calls. parse_query_string ''k=a%26b&K=+'' = Inr calls \<and> mset calls = mset ?params
    \<and> (\<forall>key. equal_range (mset calls) key =
          mset (map snd (filter (\<lambda>(n, v). map tolower n = map tolower key) ?params)))"
    unfolding j [symmetric] by (rule query_roundtrip) (simp_all only: j, simp_all add: npos_def)
  then show ?thesis using k by metis
qed

end
