(* ===== verification/Json_Value.thy ===== *)
theory Json_Value
  imports Prelude "HOL-Library.List_Lexorder"
begin

text \<open>
  The JSON values of the program and the operations of \<open>third_party/include/json.hpp\<close> (version
  3.7.3) that the SQL generator and the HTTP examples call: the compact serializer
  (\<open>dump\<close> with no indentation, \<open>ensure_ascii\<close> false, the strict error handler), with its
  UTF-8 automaton, its 512-byte string buffer and its digit buffer; iteration; and the element
  accessors with the exceptions they throw.

  Integers are \<^typ>\<open>64 word\<close>s (the signed type is read with \<^const>\<open>sint\<close>), an object is
  the list of its members in the order of \<open>std::map\<close>. The text of a floating-point number is
  the argument \<open>to_chars\<close> of the serializer: floats are values of a type parameter.
\<close>

section \<open>Values\<close>

datatype 'f json =
    Null
  | Boolean bool
  | Number_integer "64 word"
  | Number_unsigned "64 word"
  | Number_float 'f
  | String string
  | Array "'f json list"
  | Object "(string \<times> 'f json) list"

text \<open>
  The exceptions of the library carry a number. \<open>Undefined_behaviour\<close> stands for the places
  where the source steps outside a container: a write past a buffer, a decrement of the end
  of an empty container.
\<close>

datatype json_error =
    Parse_error nat
  | Type_error nat
  | Invalid_iterator nat
  | Json_out_of_range nat
  | Undefined_behaviour

fun is_null :: "'f json \<Rightarrow> bool" where
  "is_null Null = True"
| "is_null _ = False"

fun is_boolean :: "'f json \<Rightarrow> bool" where
  "is_boolean (Boolean _) = True"
| "is_boolean _ = False"

fun is_number :: "'f json \<Rightarrow> bool" where
  "is_number (Number_integer _) = True"
| "is_number (Number_unsigned _) = True"
| "is_number (Number_float _) = True"
| "is_number _ = False"

fun is_string :: "'f json \<Rightarrow> bool" where
  "is_string (String _) = True"
| "is_string _ = False"

fun is_array :: "'f json \<Rightarrow> bool" where
  "is_array (Array _) = True"
| "is_array _ = False"

fun is_object :: "'f json \<Rightarrow> bool" where
  "is_object (Object _) = True"
| "is_object _ = False"

definition is_structured :: "'f json \<Rightarrow> bool" where
  "is_structured j \<longleftrightarrow> is_array j \<or> is_object j"

fun empty :: "'f json \<Rightarrow> bool" where
  "empty Null = True"
| "empty (Array xs) = (xs = [])"
| "empty (Object ms) = (ms = [])"
| "empty _ = False"

section \<open>The UTF-8 automaton\<close>

definition utf8d :: "nat list" where
  "utf8d =
    [0, 0, 0, 0, 0, 0, 0, 0, 0, 0, 0, 0, 0, 0, 0, 0, 0, 0, 0, 0, 0, 0, 0, 0, 0, 0, 0, 0, 0, 0, 0, 0,
     0, 0, 0, 0, 0, 0, 0, 0, 0, 0, 0, 0, 0, 0, 0, 0, 0, 0, 0, 0, 0, 0, 0, 0, 0, 0, 0, 0, 0, 0, 0, 0,
     0, 0, 0, 0, 0, 0, 0, 0, 0, 0, 0, 0, 0, 0, 0, 0, 0, 0, 0, 0, 0, 0, 0, 0, 0, 0, 0, 0, 0, 0, 0, 0,
     0, 0, 0, 0, 0, 0, 0, 0, 0, 0, 0, 0, 0, 0, 0, 0, 0, 0, 0, 0, 0, 0, 0, 0, 0, 0, 0, 0, 0, 0, 0, 0,
     1, 1, 1, 1, 1, 1, 1, 1, 1, 1, 1, 1, 1, 1, 1, 1, 9, 9, 9, 9, 9, 9, 9, 9, 9, 9, 9, 9, 9, 9, 9, 9,
     7, 7, 7, 7, 7, 7, 7, 7, 7, 7, 7, 7, 7, 7, 7, 7, 7, 7, 7, 7, 7, 7, 7, 7, 7, 7, 7, 7, 7, 7, 7, 7,
     8, 8, 2, 2, 2, 2, 2, 2, 2, 2, 2, 2, 2, 2, 2, 2, 2, 2, 2, 2, 2, 2, 2, 2, 2, 2, 2, 2, 2, 2, 2, 2,
     0xA, 0x3, 0x3, 0x3, 0x3, 0x3, 0x3, 0x3, 0x3, 0x3, 0x3, 0x3, 0x3, 0x4, 0x3, 0x3,
     0xB, 0x6, 0x6, 0x6, 0x5, 0x8, 0x8, 0x8, 0x8, 0x8, 0x8, 0x8, 0x8, 0x8, 0x8, 0x8,
     0x0, 0x1, 0x2, 0x3, 0x5, 0x8, 0x7, 0x1, 0x1, 0x1, 0x4, 0x6, 0x1, 0x1, 0x1, 0x1,
     1, 1, 1, 1, 1, 1, 1, 1, 1, 1, 1, 1, 1, 1, 1, 1, 1, 0, 1, 1, 1, 1, 1, 0, 1, 0, 1, 1, 1, 1, 1, 1,
     1, 2, 1, 1, 1, 1, 1, 2, 1, 2, 1, 1, 1, 1, 1, 1, 1, 1, 1, 1, 1, 1, 1, 2, 1, 1, 1, 1, 1, 1, 1, 1,
     1, 2, 1, 1, 1, 1, 1, 1, 1, 2, 1, 1, 1, 1, 1, 1, 1, 1, 1, 1, 1, 1, 1, 3, 1, 3, 1, 1, 1, 1, 1, 1,
     1, 3, 1, 1, 1, 1, 1, 3, 1, 3, 1, 1, 1, 1, 1, 1, 1, 3, 1, 1, 1, 1, 1, 1, 1, 1, 1, 1, 1, 1, 1, 1]"

abbreviation (input) UTF8_ACCEPT :: nat where "UTF8_ACCEPT \<equiv> 0"
abbreviation (input) UTF8_REJECT :: nat where "UTF8_REJECT \<equiv> 1"

unbundle bit_operations_syntax

text \<open>One step of the automaton: the new state and the new code point.\<close>

definition utf8_decode :: "nat \<Rightarrow> 32 word \<Rightarrow> char \<Rightarrow> nat \<times> 32 word" where
  "utf8_decode state codep c =
     (let byte = of_nat (code c) :: 32 word;
          type = utf8d ! code c;
          codep' = (if state \<noteq> UTF8_ACCEPT then (byte AND 0x3F) OR push_bit 6 codep
                    else drop_bit type 0xFF AND byte)
      in (utf8d ! (256 + state * 16 + type), codep'))"

section \<open>Escaped strings\<close>

text \<open>
  The state of \<open>dump_escaped\<close>: the automaton, the used part of the 512-byte string buffer and
  what has been written to the output. \<open>buf_put\<close> is a write of bytes at the end of the used
  part that needs \<open>need\<close> bytes of room (\<open>snprintf\<close> also writes a null byte).
\<close>

record escaper =
  dfa_state :: nat
  codepoint :: "32 word"
  string_buffer :: string
  written :: string

definition string_buffer_size :: nat where
  "string_buffer_size = 512"

definition buf_put :: "nat \<Rightarrow> string \<Rightarrow> escaper \<Rightarrow> json_error + escaper" where
  "buf_put need cs e =
     (if length (string_buffer e) + need \<le> string_buffer_size
      then Inr (e\<lparr>string_buffer := string_buffer e @ cs\<rparr>) else Inl Undefined_behaviour)"

definition hex_digit :: "nat \<Rightarrow> char" where
  "hex_digit n = char_of (if n < 10 then 48 + n else 87 + n)"

text \<open>The bytes written for an accepted code point; \<open>c\<close> is the last byte read.\<close>

definition escape_accept :: "char \<Rightarrow> escaper \<Rightarrow> json_error + escaper" where
  "escape_accept c e =
     (let cp = unat (codepoint e) in
      if cp = 0x08 then buf_put 2 [CHR 0x5C, CHR ''b''] e
      else if cp = 0x09 then buf_put 2 [CHR 0x5C, CHR ''t''] e
      else if cp = 0x0A then buf_put 2 [CHR 0x5C, CHR ''n''] e
      else if cp = 0x0C then buf_put 2 [CHR 0x5C, CHR ''f''] e
      else if cp = 0x0D then buf_put 2 [CHR 0x5C, CHR ''r''] e
      else if cp = 0x22 then buf_put 2 [CHR 0x5C, CHR 0x22] e
      else if cp = 0x5C then buf_put 2 [CHR 0x5C, CHR 0x5C] e
      else if cp \<le> 0x1F
      then buf_put 7 [CHR 0x5C, CHR ''u'', CHR ''0'', CHR ''0'', hex_digit (cp div 16), hex_digit (cp mod 16)] e
      else buf_put 1 [c] e)"

text \<open>The buffer is written out when fewer than 13 bytes of it are free.\<close>

definition flush_if_full :: "escaper \<Rightarrow> escaper" where
  "flush_if_full e =
     (if string_buffer_size - length (string_buffer e) < 13
      then e\<lparr>written := written e @ string_buffer e, string_buffer := []\<rparr> else e)"

definition escape_step :: "char \<Rightarrow> escaper \<Rightarrow> json_error + escaper" where
  "escape_step c e =
     (let (st, cp) = utf8_decode (dfa_state e) (codepoint e) c;
          e1 = e\<lparr>dfa_state := st, codepoint := cp\<rparr>
      in if st = UTF8_ACCEPT then bind_res (escape_accept c e1) (\<lambda>e2. Inr (flush_if_full e2))
         else if st = UTF8_REJECT then Inl (Type_error 316)
         else buf_put 1 [c] e1)"

fun escape_loop :: "string \<Rightarrow> escaper \<Rightarrow> json_error + escaper" where
  "escape_loop [] e = Inr e"
| "escape_loop (c # cs) e = bind_res (escape_step c e) (escape_loop cs)"

definition escaper_init :: escaper where
  "escaper_init = \<lparr>dfa_state = UTF8_ACCEPT, codepoint = 0, string_buffer = [], written = []\<rparr>"

definition dump_escaped :: "string \<Rightarrow> json_error + string" where
  "dump_escaped s =
     bind_res (escape_loop s escaper_init)
       (\<lambda>e. if dfa_state e = UTF8_ACCEPT then Inr (written e @ string_buffer e) else Inl (Type_error 316))"

section \<open>Integers\<close>

function count_digits_loop :: "64 word \<Rightarrow> nat \<Rightarrow> nat" where
  "count_digits_loop x n_digits =
     (if x < 10 then n_digits
      else if x < 100 then n_digits + 1
      else if x < 1000 then n_digits + 2
      else if x < 10000 then n_digits + 3
      else count_digits_loop (x div 10000) (n_digits + 4))"
  by pat_completeness auto
termination
  by (relation "measure (\<lambda>(x, n). unat x)") (auto simp: word_less_nat_alt unat_div)

declare count_digits_loop.simps [simp del]

definition count_digits :: "64 word \<Rightarrow> nat" where
  "count_digits x = count_digits_loop x 1"

definition digits_to_99 :: "string list" where
  "digits_to_99 = map (\<lambda>i. [char_of (48 + i div 10), char_of (48 + i mod 10)]) [0..<100]"

definition remove_sign :: "64 word \<Rightarrow> 64 word" where
  "remove_sign x = - (x + 1) + 1"

text \<open>
  The digits are written backwards from a pointer into the digit buffer, two at a time.
  \<open>put2\<close> is the pair of stores \<open>*(--buffer_ptr)\<close>; the result is the buffer and the pointer.
\<close>

definition put2 :: "64 word \<Rightarrow> string \<times> nat \<Rightarrow> string \<times> nat" where
  "put2 i = (\<lambda>(buf, p). (buf[p - 1 := (digits_to_99 ! unat i) ! 1, p - 2 := (digits_to_99 ! unat i) ! 0], p - 2))"

function write_digits :: "64 word \<Rightarrow> string \<times> nat \<Rightarrow> string \<times> nat" where
  "write_digits v bp =
     (if v \<ge> 100 then write_digits (v div 100) (put2 (v mod 100) bp)
      else if v \<ge> 10 then put2 v bp
      else (case bp of (buf, p) \<Rightarrow> (buf[p - 1 := char_of (48 + unat v)], p - 1)))"
  by pat_completeness auto
termination
  by (relation "measure (\<lambda>(v, bp). unat v)") (auto simp: word_le_nat_alt unat_div)

declare write_digits.simps [simp del]

definition number_buffer_size :: nat where
  "number_buffer_size = 64"

definition dump_integer :: "bool \<Rightarrow> 64 word \<Rightarrow> string" where
  "dump_integer is_signed x =
     (if x = 0 then ''0''
      else let is_negative = (is_signed \<and> \<not> sint x \<ge> 0);
               abs_value = (if is_negative then remove_sign x else x);
               buf = replicate number_buffer_size NUL;
               buf = (if is_negative then buf[0 := CHR ''-''] else buf);
               n_chars = (if is_negative then 1 + count_digits abs_value else count_digits abs_value)
           in take n_chars (fst (write_digits abs_value (buf, n_chars))))"

section \<open>Serialization\<close>

text \<open>
  \<open>dump_array\<close> and \<open>dump_object\<close> are the loops over the first n-1 elements followed by the
  last element.
\<close>

fun dump :: "('f \<Rightarrow> string) \<Rightarrow> 'f json \<Rightarrow> json_error + string"
and dump_array :: "('f \<Rightarrow> string) \<Rightarrow> 'f json list \<Rightarrow> json_error + string"
and dump_object :: "('f \<Rightarrow> string) \<Rightarrow> (string \<times> 'f json) list \<Rightarrow> json_error + string"
and dump_member :: "('f \<Rightarrow> string) \<Rightarrow> string \<times> 'f json \<Rightarrow> json_error + string" where
  "dump to_chars (Object ms) =
     (if ms = [] then Inr ''{}'' else bind_res (dump_object to_chars ms) (\<lambda>t. Inr (''{'' @ t @ ''}'')))"
| "dump to_chars (Array xs) =
     (if xs = [] then Inr ''[]'' else bind_res (dump_array to_chars xs) (\<lambda>t. Inr (''['' @ t @ '']'')))"
| "dump to_chars (String s) = bind_res (dump_escaped s) (\<lambda>t. Inr ([CHR 0x22] @ t @ [CHR 0x22]))"
| "dump to_chars (Boolean b) = Inr (if b then ''true'' else ''false'')"
| "dump to_chars (Number_integer x) = Inr (dump_integer True x)"
| "dump to_chars (Number_unsigned x) = Inr (dump_integer False x)"
| "dump to_chars (Number_float x) = Inr (to_chars x)"
| "dump to_chars Null = Inr ''null''"
| "dump_array to_chars [] = Inr []"
| "dump_array to_chars [x] = dump to_chars x"
| "dump_array to_chars (x # y # xs) =
     bind_res (dump to_chars x) (\<lambda>t. bind_res (dump_array to_chars (y # xs)) (\<lambda>u. Inr (t @ '','' @ u)))"
| "dump_object to_chars [] = Inr []"
| "dump_object to_chars [m] = dump_member to_chars m"
| "dump_object to_chars (m # n # ms) =
     bind_res (dump_member to_chars m) (\<lambda>t. bind_res (dump_object to_chars (n # ms)) (\<lambda>u. Inr (t @ '','' @ u)))"
| "dump_member to_chars (k, v) =
     bind_res (dump_escaped k) (\<lambda>kt. bind_res (dump to_chars v)
       (\<lambda>vt. Inr ([CHR 0x22] @ kt @ [CHR 0x22, CHR '':''] @ vt)))"

section \<open>Iteration and element access\<close>

text \<open>
  \<open>items\<close> lists what a loop from \<open>begin()\<close> to \<open>end()\<close> visits: the members of an object with
  their keys, the elements of an array, nothing for null, the value itself for a primitive.
  The key is absent where \<open>it.key()\<close> throws. \<open>end_minus_one\<close> is \<open>--last\<close> on \<open>end()\<close>.
\<close>

fun items :: "'f json \<Rightarrow> (string option \<times> 'f json) list" where
  "items (Object ms) = map (\<lambda>(k, v). (Some k, v)) ms"
| "items (Array xs) = map (\<lambda>v. (None, v)) xs"
| "items Null = []"
| "items j = [(None, j)]"

definition iter_key :: "string option \<times> 'f json \<Rightarrow> json_error + string" where
  "iter_key it = (case fst it of Some k \<Rightarrow> Inr k | None \<Rightarrow> Inl (Invalid_iterator 207))"

definition iter_value :: "string option \<times> 'f json \<Rightarrow> 'f json" where
  "iter_value it = snd it"

definition end_minus_one :: "'f json \<Rightarrow> json_error + unit" where
  "end_minus_one j = (if is_structured j \<and> empty j then Inl Undefined_behaviour else Inr ())"

text \<open>\<open>std::map\<close> keyed by \<open>std::string\<close>: the members are kept in increasing key order.\<close>

fun omap_set :: "string \<Rightarrow> 'v \<Rightarrow> (string \<times> 'v) list \<Rightarrow> (string \<times> 'v) list" where
  "omap_set k v [] = [(k, v)]"
| "omap_set k v ((k', v') # ms) =
     (if k < k' then (k, v) # (k', v') # ms
      else if k = k' then (k, v) # ms else (k', v') # omap_set k v ms)"

definition omap_erase :: "string \<Rightarrow> (string \<times> 'v) list \<Rightarrow> (string \<times> 'v) list" where
  "omap_erase k ms = filter (\<lambda>m. fst m \<noteq> k) ms"

definition omap_ok :: "(string \<times> 'v) list \<Rightarrow> bool" where
  "omap_ok ms \<longleftrightarrow> sorted_wrt (<) (map fst ms)"

fun at_key :: "'f json \<Rightarrow> string \<Rightarrow> json_error + 'f json" where
  "at_key (Object ms) k = (case map_of ms k of Some v \<Rightarrow> Inr v | None \<Rightarrow> Inl (Json_out_of_range 403))"
| "at_key _ k = Inl (Type_error 304)"

fun find_key :: "'f json \<Rightarrow> string \<Rightarrow> 'f json option" where
  "find_key (Object ms) k = map_of ms k"
| "find_key _ k = None"

fun erase_key :: "string \<Rightarrow> 'f json \<Rightarrow> json_error + 'f json" where
  "erase_key k (Object ms) = Inr (Object (omap_erase k ms))"
| "erase_key k _ = Inl (Type_error 307)"

text \<open>\<open>j[k] = v\<close>: the subscript turns null into an empty object and throws on other values.\<close>

fun assign_key :: "'f json \<Rightarrow> string \<Rightarrow> 'f json \<Rightarrow> json_error + 'f json" where
  "assign_key Null k v = Inr (Object [(k, v)])"
| "assign_key (Object ms) k v = Inr (Object (omap_set k v ms))"
| "assign_key _ k v = Inl (Type_error 305)"

fun push_back :: "'f json \<Rightarrow> 'f json \<Rightarrow> json_error + 'f json" where
  "push_back Null v = Inr (Array [v])"
| "push_back (Array xs) v = Inr (Array (xs @ [v]))"
| "push_back _ v = Inl (Type_error 308)"

fun get_string :: "'f json \<Rightarrow> json_error + string" where
  "get_string (String s) = Inr s"
| "get_string _ = Inl (Type_error 302)"

fun json_ok :: "'f json \<Rightarrow> bool" where
  "json_ok (Array xs) = (\<forall>x \<in> set xs. json_ok x)"
| "json_ok (Object ms) = (omap_ok ms \<and> (\<forall>m \<in> set ms. json_ok (snd m)))"
| "json_ok _ = True"

section \<open>Integers are printed in decimal\<close>

lemma length_nat_dec: "length (nat_dec n) = (if n < 10 then 1 else 1 + length (nat_dec (n div 10)))"
  by (simp add: nat_dec.simps)

lemma count_digits_loop_length:
  "count_digits_loop x n + 1 = n + length (nat_dec (unat x))"
proof (induction x n rule: count_digits_loop.induct)
  case (1 x n)
  define m where "m = unat x"
  have lt: "x < 10 \<longleftrightarrow> m < 10" "x < 100 \<longleftrightarrow> m < 100" "x < 1000 \<longleftrightarrow> m < 1000" "x < 10000 \<longleftrightarrow> m < 10000"
    by (simp_all add: m_def word_less_nat_alt)
  have len: "length (nat_dec m) =
      (if m < 10 then 1 else if m < 100 then 2 else if m < 1000 then 3 else if m < 10000 then 4
       else 4 + length (nat_dec (m div 10000)))"
  proof -
    have d: "m div 10 div 10 = m div 100" "m div 100 div 10 = m div 1000" "m div 1000 div 10 = m div 10000"
      by (simp_all add: div_mult2_eq [symmetric])
    have c: "m div 10 < 10 \<longleftrightarrow> m < 100" "m div 100 < 10 \<longleftrightarrow> m < 1000" "m div 1000 < 10 \<longleftrightarrow> m < 10000"
      by (simp_all add: div_less_iff_less_mult)
    show ?thesis
      by (simp add: length_nat_dec [of m] length_nat_dec [of "m div 10"] length_nat_dec [of "m div 100"]
          length_nat_dec [of "m div 1000"] c d)
  qed
  show ?case
  proof (cases "x < 10000")
    case True
    then show ?thesis
      by (subst count_digits_loop.simps) (auto simp: lt len simp flip: m_def)
  next
    case False
    then have "count_digits_loop x n = count_digits_loop (x div 10000) (n + 4)"
      by (subst count_digits_loop.simps) (simp add: lt)
    moreover have "count_digits_loop (x div 10000) (n + 4) + 1 = n + 4 + length (nat_dec (m div 10000))"
      using False "1.IH" by (simp add: lt unat_div m_def)
    ultimately show ?thesis using False by (simp add: lt len flip: m_def)
  qed
qed

lemma count_digits_length: "count_digits x = length (nat_dec (unat x))"
  using count_digits_loop_length [of x 1] by (simp add: count_digits_def)

lemma put2_split:
  assumes "2 \<le> p" and "p \<le> length buf" and "unat i < 100"
  shows "put2 i (buf, p) =
    (take (p - 2) buf @ [char_of (48 + unat i div 10), char_of (48 + unat i mod 10)] @ drop p buf, p - 2)"
proof -
  obtain q where p: "p = Suc (Suc q)" using assms(1) by (metis Suc_le_D numeral_2_eq_2 Suc_le_mono)
  define xs a b ys where "xs = take q buf" and "a = buf ! q" and "b = buf ! Suc q" and "ys = drop p buf"
  have buf: "buf = xs @ [a, b] @ ys"
    using assms(2) p by (simp add: xs_def a_def b_def ys_def Cons_nth_drop_Suc)
  have q: "q = length xs" using assms(2) p by (simp add: xs_def)
  have "buf[Suc q := d, q := c] = xs @ [c, d] @ ys" for c d
    by (simp add: buf q list_update_append)
  then have "buf[Suc q := d, q := c] = take q buf @ [c, d] @ drop p buf" for c d
    by (simp add: xs_def ys_def)
  then show ?thesis using assms(3) p by (simp add: put2_def digits_to_99_def)
qed

lemma nat_dec_hundred:
  assumes "100 \<le> n"
  shows "nat_dec n = nat_dec (n div 100) @ [char_of (48 + n mod 100 div 10), char_of (48 + n mod 100 mod 10)]"
proof -
  have "n div 10 div 10 = n div 100" "n div 10 mod 10 = n mod 100 div 10" "n mod 100 mod 10 = n mod 10"
    by (simp_all add: div_mult2_eq [symmetric] mod_mult2_eq [of n 10 10, simplified] mod_mod_cancel)
  moreover have "10 \<le> n div 10" using div_le_mono [OF assms, of 10] by simp
  ultimately show ?thesis using assms by (simp add: nat_dec_step [of n] nat_dec_step [of "n div 10"])
qed

lemma write_digits_correct:
  assumes "length (nat_dec (unat v)) \<le> p" and "p \<le> length buf"
  shows "write_digits v (buf, p) =
    (take (p - length (nat_dec (unat v))) buf @ nat_dec (unat v) @ drop p buf, p - length (nat_dec (unat v)))"
  using assms
proof (induction v "(buf, p)" arbitrary: buf p rule: write_digits.induct)
  case (1 v buf p)
  define m where "m = unat v"
  have le: "v \<ge> 100 \<longleftrightarrow> 100 \<le> m" "v \<ge> 10 \<longleftrightarrow> 10 \<le> m" by (simp_all add: m_def word_le_nat_alt)
  note prems = "1.prems" [folded m_def]
  consider "100 \<le> m" | "10 \<le> m" "m < 100" | "m < 10" by linarith
  then show ?case
  proof cases
    case 1
    define buf' where "buf' = take (p - 2) buf @ [char_of (48 + m mod 100 div 10), char_of (48 + m mod 100 mod 10)] @ drop p buf"
    have split: "nat_dec m = nat_dec (m div 100) @ [char_of (48 + m mod 100 div 10), char_of (48 + m mod 100 mod 10)]"
      by (rule nat_dec_hundred [OF 1])
    then have p: "2 \<le> p" "length (nat_dec (m div 100)) \<le> p - 2" using prems by simp_all
    have "put2 (v mod 100) (buf, p) = (buf', p - 2)"
      using put2_split [of p buf "v mod 100"] p(1) prems(2) by (simp add: buf'_def m_def unat_mod)
    moreover have "length buf' = length buf" using p prems(2) by (simp add: buf'_def)
    ultimately have "write_digits (v div 100) (buf', p - 2) =
      (take (p - 2 - length (nat_dec (m div 100))) buf' @ nat_dec (m div 100) @ drop (p - 2) buf',
       p - 2 - length (nat_dec (m div 100)))"
      using "1.hyps" [of buf' "p - 2"] 1 p prems(2) by (simp add: le unat_div flip: m_def)
    moreover have "write_digits v (buf, p) = write_digits (v div 100) (buf', p - 2)"
      using 1 \<open>put2 _ _ = _\<close> by (subst write_digits.simps) (simp add: le)
    moreover have "drop (p - 2) buf' = [char_of (48 + m mod 100 div 10), char_of (48 + m mod 100 mod 10)] @ drop p buf"
      using p prems(2) by (simp add: buf'_def)
    moreover have "take (p - 2 - length (nat_dec (m div 100))) buf' = take (p - 2 - length (nat_dec (m div 100))) buf"
      using p prems(2) by (simp add: buf'_def)
    ultimately show ?thesis by (simp add: split flip: m_def)
  next
    case 2
    have "nat_dec m = [char_of (48 + m div 10), char_of (48 + m mod 10)]"
      using 2 by (simp add: nat_dec_step nat_dec_small)
    moreover have "write_digits v (buf, p) = put2 v (buf, p)"
      using 2 by (subst write_digits.simps) (simp add: le)
    ultimately show ?thesis
      using put2_split [of p buf v] 2 prems by (simp add: numeral_2_eq_2 flip: m_def)
  next
    case 3
    have "nat_dec m = [char_of (48 + m)]" using 3 by (simp add: nat_dec_small)
    moreover have "write_digits v (buf, p) = (buf[p - 1 := char_of (48 + m)], p - 1)"
      using 3 by (subst write_digits.simps) (simp add: le m_def)
    ultimately show ?thesis
      using prems by (simp add: upd_conv_take_nth_drop flip: m_def)
  qed
qed

lemma unat_word_of_int: "0 \<le> k \<Longrightarrow> k < 2 ^ 64 \<Longrightarrow> unat (word_of_int k :: 64 word) = nat k"
  by (simp flip: nat_uint_eq add: uint_word_of_int_eq take_bit_int_eq_self)

lemma unat_remove_sign:
  assumes "sint x < 0"
  shows "unat (remove_sign x) = nat \<bar>sint x\<bar>"
proof -
  have "remove_sign x = word_of_int (- sint x)" by (simp add: remove_sign_def)
  moreover have "- (2 ^ 63) \<le> sint x" using sint_greater_eq [of x] by simp
  ultimately show ?thesis
    using assms unat_word_of_int [of "- sint x"] by simp
qed

lemma unat_sint_pos:
  assumes "0 \<le> sint (x :: 64 word)"
  shows "unat x = nat (sint x)"
  using assms sint_less [of x] unat_word_of_int [of "sint x"] by simp

lemma length_nat_dec_le: "n < 10 ^ Suc k \<Longrightarrow> length (nat_dec n) \<le> Suc k"
proof (induction k arbitrary: n)
  case (Suc k)
  have "n div 10 < 10 ^ Suc k" using Suc.prems by (simp add: div_less_iff_less_mult)
  then show ?case using Suc.IH [of "n div 10"] by (simp add: length_nat_dec [of n])
qed (simp add: nat_dec_small)

lemma count_digits_le: "count_digits x \<le> 20"
proof -
  have "unat x < 2 ^ LENGTH(64)" by (rule unsigned_less)
  then have "unat x < 10 ^ Suc 19" by simp
  then have "length (nat_dec (unat x)) \<le> Suc 19" by (rule length_nat_dec_le)
  then show ?thesis by (simp add: count_digits_length)
qed

lemma write_digits_fst:
  assumes "count_digits v + k \<le> length buf"
  shows "take (k + count_digits v) (fst (write_digits v (buf, k + count_digits v))) = take k buf @ nat_dec (unat v)"
  using write_digits_correct [of v "k + count_digits v" buf] assms
  by (simp add: count_digits_length)

lemma dump_integer_cases:
  "dump_integer False x = nat_dec (unat x) \<and>
   dump_integer True x = (if sint x < 0 then ''-'' else []) @ nat_dec (nat \<bar>sint x\<bar>)"
proof (cases "x = 0")
  case True
  then show ?thesis by (simp add: dump_integer_def nat_dec_zero)
next
  case False
  define buf where "buf = replicate number_buffer_size NUL"
  have len: "count_digits v + k \<le> number_buffer_size" if "k \<le> 1" for v k
    using count_digits_le [of v] that by (simp add: number_buffer_size_def)
  have pos: "take (count_digits v) (fst (write_digits v (buf, count_digits v))) = nat_dec (unat v)" for v
    using write_digits_fst [of v 0 buf] len [of 0 v] by (simp add: buf_def)
  have neg: "take (1 + count_digits v) (fst (write_digits v (buf[0 := CHR ''-''], 1 + count_digits v)))
      = ''-'' @ nat_dec (unat v)" for v
    using write_digits_fst [of v 1 "buf[0 := CHR ''-'']"] len [of 1 v]
    by (simp add: buf_def take_Suc number_buffer_size_def hd_conv_nth)
  show ?thesis
    using False pos [of x] neg [of "remove_sign x"]
    by (auto simp: dump_integer_def Let_def unat_remove_sign unat_sint_pos simp flip: buf_def)
qed

lemma dump_integer_unsigned: "dump_integer False x = nat_dec (unat x)"
  by (simp add: dump_integer_cases)

lemma dump_integer_signed:
  "dump_integer True x = (if sint x < 0 then ''-'' else []) @ nat_dec (nat \<bar>sint x\<bar>)"
  by (simp add: dump_integer_cases)

text \<open>
  \<open>dump_integer\<close> writes the decimal text of the number: the absolute value without leading
  zeros, after a minus sign when a signed value is negative. This includes the most negative
  signed value, and the digit count leaves room in the 64-byte digit buffer.
\<close>

lemma dump_integer_decimal:
  "dump_integer False x = nat_dec (unat x) \<and>
   dump_integer True x = (if sint x < 0 then ''-'' else []) @ nat_dec (nat \<bar>sint x\<bar>) \<and>
   1 + count_digits x < number_buffer_size - 1"
  using count_digits_le [of x] dump_integer_cases [of x] by (simp add: number_buffer_size_def)

section \<open>Escaping accepts exactly the UTF-8 strings\<close>

text \<open>The automaton as ranges of bytes.\<close>

definition byte_type :: "nat \<Rightarrow> nat" where
  "byte_type b =
     (if b < 0x80 then 0 else if b < 0x90 then 1 else if b < 0xA0 then 9 else if b < 0xC0 then 7
      else if b < 0xC2 then 8 else if b < 0xE0 then 2 else if b = 0xE0 then 0xA else if b = 0xED then 4
      else if b < 0xF0 then 3 else if b = 0xF0 then 0xB else if b < 0xF4 then 6 else if b = 0xF4 then 5 else 8)"

definition type_step :: "nat \<Rightarrow> nat \<Rightarrow> nat" where
  "type_step st t =
     (if st = 0 then [0, 1, 2, 3, 5, 8, 7, 1, 1, 1, 4, 6, 1, 1, 1, 1] ! t
      else if st = 2 then if t = 1 \<or> t = 7 \<or> t = 9 then 0 else 1
      else if st = 3 then if t = 1 \<or> t = 7 \<or> t = 9 then 2 else 1
      else if st = 4 then if t = 7 then 2 else 1
      else if st = 5 then if t = 1 \<or> t = 9 then 2 else 1
      else if st = 6 then if t = 7 \<or> t = 9 then 3 else 1
      else if st = 7 then if t = 1 \<or> t = 7 \<or> t = 9 then 3 else 1
      else if st = 8 then if t = 1 then 3 else 1
      else 1)"

lemma utf8d_tables:
  "utf8d = map byte_type [0..<256] @ map (\<lambda>i. type_step (i div 16) (i mod 16)) [0..<144]"
  by code_simp

lemma utf8d_type: "utf8d ! code c = byte_type (code c)"
  by (simp add: utf8d_tables nth_append)

lemma byte_type_less: "byte_type b < 12"
  by (simp add: byte_type_def)

lemma utf8d_step: "st < 9 \<Longrightarrow> t < 16 \<Longrightarrow> utf8d ! (256 + st * 16 + t) = type_step st t"
  by (simp add: utf8d_tables nth_append)

lemma unat_byte: "unat (of_nat (code c) :: 32 word) = code c"
proof -
  have "code c < 2 ^ 32" using order_less_trans [OF code_less [of c]] by simp
  then show ?thesis by (simp add: unsigned_of_nat take_bit_nat_eq_self)
qed

lemma unat_byte_take: "unat (take_bit n (of_nat (code c) :: 32 word)) = code c mod 2 ^ n"
  unfolding unsigned_take_bit_eq unat_byte by (rule take_bit_eq_mod)

lemma unat_shift_or:
  fixes x y :: "32 word"
  assumes "unat y < 2 ^ 26"
  shows "unat (take_bit 6 x OR push_bit 6 y) = unat y * 64 + unat x mod 64"
proof -
  have z: "take_bit 6 x AND push_bit 6 y = 0"
    by (rule bit_eqI) (auto simp: bit_simps)
  have "take_bit 6 x OR push_bit 6 y = take_bit 6 x + push_bit 6 y"
    by (rule disjunctive_add_eq_or [OF z, symmetric])
  moreover have "unat (push_bit 6 y) = unat y * 64"
  proof -
    have "unat (push_bit 6 y) = take_bit 32 (push_bit 6 (unat y))"
      unfolding unsigned_push_bit_eq by simp
    moreover have "push_bit 6 (unat y) = unat y * 64" by (simp add: push_bit_eq_mult)
    ultimately show ?thesis using assms by (simp add: take_bit_nat_eq_self)
  qed
  moreover have "unat (take_bit 6 x) = unat x mod 64"
    unfolding unsigned_take_bit_eq by (simp add: take_bit_eq_mod)
  moreover have "unat x mod 64 + unat y * 64 < 2 ^ 32"
  proof -
    have "unat x mod 64 < 64" by simp
    moreover have "unat y < 67108864" using assms by simp
    ultimately have "unat x mod 64 + unat y * 64 < 4294967296" by linarith
    then show ?thesis by simp
  qed
  ultimately show ?thesis
    by (simp add: unat_word_ariths)
qed

lemma utf8_decode_eq:
  assumes "st < 9" and "st \<noteq> 0 \<longrightarrow> unat cp < 2 ^ 26"
  shows "fst (utf8_decode st cp c) = type_step st (byte_type (code c))"
    and "unat (snd (utf8_decode st cp c)) =
      (if st \<noteq> 0 then unat cp * 64 + code c mod 64 else code c mod 2 ^ (8 - byte_type (code c)))"
proof -
  show "fst (utf8_decode st cp c) = type_step st (byte_type (code c))"
    using assms(1) utf8d_step [of st "byte_type (code c)"] byte_type_less [of "code c"]
    by (simp add: utf8_decode_def utf8d_type Let_def)
  have m6: "x AND 0x3F = take_bit 6 x" for x :: "32 word"
    by (simp add: take_bit_eq_mask mask_eq_exp_minus_1)
  have m8: "drop_bit t 0xFF = (mask (8 - t) :: 32 word)" for t
  proof -
    have m: "(0xFF :: 32 word) = mask 8" by (simp add: mask_eq_exp_minus_1)
    show ?thesis unfolding m by (rule bit_eqI) (auto simp: bit_simps)
  qed
  show "unat (snd (utf8_decode st cp c)) =
      (if st \<noteq> 0 then unat cp * 64 + code c mod 64 else code c mod 2 ^ (8 - byte_type (code c)))"
    using assms unat_shift_or [of cp "of_nat (code c)"]
    by (simp add: utf8_decode_def utf8d_type Let_def m6 m8 unat_byte unat_byte_take and.commute
        flip: take_bit_eq_mask)
qed

text \<open>
  The same computation without words and without the buffer: the text for a code point, and a
  run of the automaton from a state and a code point.
\<close>

definition escaped :: "nat \<Rightarrow> string \<Rightarrow> string" where
  "escaped cp raw =
     (if cp = 0x08 then [CHR 0x5C, CHR ''b''] else if cp = 0x09 then [CHR 0x5C, CHR ''t'']
      else if cp = 0x0A then [CHR 0x5C, CHR ''n''] else if cp = 0x0C then [CHR 0x5C, CHR ''f'']
      else if cp = 0x0D then [CHR 0x5C, CHR ''r''] else if cp = 0x22 then [CHR 0x5C, CHR 0x22]
      else if cp = 0x5C then [CHR 0x5C, CHR 0x5C]
      else if cp \<le> 0x1F then [CHR 0x5C, CHR ''u'', CHR ''0'', CHR ''0'', hex_digit (cp div 16), hex_digit (cp mod 16)]
      else raw)"

definition next_state :: "nat \<Rightarrow> char \<Rightarrow> nat" where
  "next_state st c = type_step st (byte_type (code c))"

definition next_cp :: "nat \<Rightarrow> nat \<Rightarrow> char \<Rightarrow> nat" where
  "next_cp st cp c = (if st \<noteq> 0 then cp * 64 + code c mod 64 else code c mod 2 ^ (8 - byte_type (code c)))"

fun esc_run :: "nat \<Rightarrow> nat \<Rightarrow> string \<Rightarrow> string option" where
  "esc_run st cp [] = (if st = 0 then Some [] else None)"
| "esc_run st cp (c # cs) =
     (let st' = next_state st c; cp' = next_cp st cp c
      in if st' = 1 then None
         else map_option (\<lambda>t. (if st' = 0 then escaped cp' [c] else [c]) @ t) (esc_run st' cp' cs))"

text \<open>How many bytes of a sequence have been read, and how large its code point can be.\<close>

definition seen :: "nat \<Rightarrow> nat" where
  "seen st = (if st = 0 then 0 else if st = 2 then 3 else if st \<le> 5 then 2 else 1)"

definition esc_inv :: "escaper \<Rightarrow> nat \<Rightarrow> nat \<Rightarrow> bool" where
  "esc_inv e st cp \<longleftrightarrow> dfa_state e = st \<and> unat (codepoint e) = cp \<and> st < 9 \<and> st \<noteq> 1 \<and>
     (st \<noteq> 0 \<longrightarrow> cp < 64 ^ seen st) \<and> length (string_buffer e) \<le> 499 + seen st"

lemma type_step_range:
  assumes "st < 9" and "st \<noteq> 1" and "t < 12" and "type_step st t \<noteq> 0" and "type_step st t \<noteq> 1"
  shows "type_step st t < 9 \<and> seen st < seen (type_step st t)"
proof -
  have "st \<in> set [0, 2, 3, 4, 5, 6, 7, 8]" "t \<in> set [0..<12]" using assms(1,2,3) by (auto simp: less_Suc_eq numeral_eq_Suc)
  moreover have "\<forall>st \<in> set [0, 2, 3, 4, 5, 6, 7, 8]. \<forall>t \<in> set [0..<12]. type_step st t \<noteq> 0 \<longrightarrow> type_step st t \<noteq> 1 \<longrightarrow>
      type_step st t < 9 \<and> seen st < seen (type_step st t)"
    by code_simp
  ultimately show ?thesis using assms(4,5) by blast
qed

lemma seen_le: "seen st \<le> 3"
  by (simp add: seen_def)

lemma next_cp_less:
  assumes "st < 9" and "st \<noteq> 1" and "st \<noteq> 0 \<longrightarrow> cp < 64 ^ seen st"
    and "next_state st c \<noteq> 0" and "next_state st c \<noteq> 1"
  shows "next_cp st cp c < 64 ^ seen (next_state st c)"
proof (cases "st = 0")
  case True
  have "byte_type (code c) \<ge> 2" using assms(4,5) True
    by (auto simp: next_state_def type_step_def byte_type_def split: if_splits)
  then have "(2::nat) ^ (8 - byte_type (code c)) \<le> 2 ^ 6" by (intro power_increasing) auto
  moreover have "code c mod 2 ^ (8 - byte_type (code c)) < 2 ^ (8 - byte_type (code c))" by simp
  ultimately have "code c mod 2 ^ (8 - byte_type (code c)) < 2 ^ 6" by linarith
  then have l: "next_cp st cp c < 64" using True by (simp add: next_cp_def)
  have "1 \<le> seen (next_state st c)" using assms(4) by (simp add: seen_def)
  then have "(64::nat) ^ 1 \<le> 64 ^ seen (next_state st c)" by (intro power_increasing) auto
  then show ?thesis using l by simp
next
  case False
  have "seen st < seen (next_state st c)"
    using type_step_range [of st "byte_type (code c)"] byte_type_less assms by (simp add: next_state_def)
  then have p: "(64::nat) ^ Suc (seen st) \<le> 64 ^ seen (next_state st c)" by (intro power_increasing) auto
  have "code c mod 64 < 64" by simp
  moreover have "cp + 1 \<le> 64 ^ seen st" using assms(3) False by simp
  then have "(cp + 1) * 64 \<le> 64 ^ seen st * 64" by (rule mult_le_mono1)
  ultimately have "next_cp st cp c < 64 ^ Suc (seen st)" using False by (simp add: next_cp_def)
  then show ?thesis using p by linarith
qed

abbreviation emitted :: "escaper \<Rightarrow> string" where
  "emitted e \<equiv> written e @ string_buffer e"

lemma escape_accept_emitted:
  assumes "length (string_buffer e) \<le> 502"
  shows "\<exists>e'. escape_accept c e = Inr e' \<and> emitted e' = emitted e @ escaped (unat (codepoint e)) [c] \<and>
    dfa_state e' = dfa_state e \<and> codepoint e' = codepoint e"
  using assms by (simp add: escape_accept_def escaped_def buf_put_def Let_def string_buffer_size_def)

lemma flush_emitted: "emitted (flush_if_full e) = emitted e \<and> length (string_buffer (flush_if_full e)) \<le> 499 \<and>
    dfa_state (flush_if_full e) = dfa_state e \<and> codepoint (flush_if_full e) = codepoint e"
  by (auto simp: flush_if_full_def string_buffer_size_def)

lemma escape_step_refines:
  assumes inv: "esc_inv e st cp"
  shows "next_state st c = 1 \<Longrightarrow> escape_step c e = Inl (Type_error 316)"
    and "next_state st c \<noteq> 1 \<Longrightarrow> \<exists>e'. escape_step c e = Inr e' \<and> esc_inv e' (next_state st c) (next_cp st cp c) \<and>
      emitted e' = emitted e @ (if next_state st c = 0 then escaped (next_cp st cp c) [c] else [c])"
proof -
  define d where "d = utf8_decode (dfa_state e) (codepoint e) c"
  define e1 where "e1 = e\<lparr>dfa_state := fst d, codepoint := snd d\<rparr>"
  have st: "dfa_state e = st" "unat (codepoint e) = cp" "st < 9" "st \<noteq> 1" "st \<noteq> 0 \<longrightarrow> cp < 64 ^ seen st"
    "length (string_buffer e) \<le> 499 + seen st"
    using inv by (simp_all add: esc_inv_def)
  have "(64::nat) ^ seen st \<le> 64 ^ 3" using seen_le [of st] by (intro power_increasing) auto
  then have "st \<noteq> 0 \<longrightarrow> unat (codepoint e) < 2 ^ 26" using st by auto
  then have d: "fst d = next_state st c" "unat (snd d) = next_cp st cp c"
    using utf8_decode_eq [of st "codepoint e" c] st by (simp_all add: d_def next_state_def next_cp_def)
  have step: "escape_step c e =
    (if fst d = 0 then bind_res (escape_accept c e1) (\<lambda>e2. Inr (flush_if_full e2))
     else if fst d = 1 then Inl (Type_error 316) else buf_put 1 [c] e1)"
    by (simp add: escape_step_def e1_def Let_def split_beta flip: d_def)
  show "next_state st c = 1 \<Longrightarrow> escape_step c e = Inl (Type_error 316)"
    by (simp add: step d)
  assume n1: "next_state st c \<noteq> 1"
  show "\<exists>e'. escape_step c e = Inr e' \<and> esc_inv e' (next_state st c) (next_cp st cp c) \<and>
      emitted e' = emitted e @ (if next_state st c = 0 then escaped (next_cp st cp c) [c] else [c])"
  proof (cases "next_state st c = 0")
    case True
    have "length (string_buffer e1) \<le> 502" using st(6) seen_le [of st] by (simp add: e1_def)
    then obtain e2 where "escape_accept c e1 = Inr e2" "emitted e2 = emitted e1 @ escaped (unat (codepoint e1)) [c]"
      "dfa_state e2 = dfa_state e1" "codepoint e2 = codepoint e1"
      using escape_accept_emitted by blast
    then show ?thesis
      using True d flush_emitted [of e2] by (simp add: step e1_def esc_inv_def seen_def)
  next
    case False
    have r: "next_state st c < 9 \<and> seen st < seen (next_state st c)"
      using type_step_range [of st "byte_type (code c)"] byte_type_less st False n1 by (simp add: next_state_def)
    then show ?thesis
      using False n1 d st next_cp_less [of st cp c] seen_le [of "next_state st c"]
      by (simp add: step buf_put_def string_buffer_size_def e1_def esc_inv_def)
  qed
qed

lemma escape_loop_refines:
  "esc_inv e st cp \<Longrightarrow>
   bind_res (escape_loop s e) (\<lambda>e'. if dfa_state e' = 0 then Inr (emitted e') else Inl (Type_error 316)) =
   (case esc_run st cp s of None \<Rightarrow> Inl (Type_error 316) | Some t \<Rightarrow> Inr (emitted e @ t))"
proof (induction s arbitrary: e st cp)
  case Nil
  then show ?case by (simp add: esc_inv_def)
next
  case (Cons c s)
  show ?case
  proof (cases "next_state st c = 1")
    case True
    then show ?thesis using escape_step_refines(1) [OF Cons.prems] by simp
  next
    case False
    obtain e' where e': "escape_step c e = Inr e'" "esc_inv e' (next_state st c) (next_cp st cp c)"
      "emitted e' = emitted e @ (if next_state st c = 0 then escaped (next_cp st cp c) [c] else [c])"
      using escape_step_refines(2) [OF Cons.prems False] by blast
    show ?thesis
      using Cons.IH [OF e'(2)] e'(1,3) False by (simp add: Let_def split: option.splits)
  qed
qed

lemma dump_escaped_run:
  "dump_escaped s = (case esc_run 0 0 s of None \<Rightarrow> Inl (Type_error 316) | Some t \<Rightarrow> Inr t)"
proof -
  have "esc_inv escaper_init 0 0" by (simp add: esc_inv_def escaper_init_def)
  from escape_loop_refines [OF this, of s] show ?thesis
    by (simp add: dump_escaped_def escaper_init_def split: option.splits)
qed

text \<open>The UTF-8 encoding of a Unicode scalar value, as RFC 3629 defines it.\<close>

definition scalar_value :: "nat \<Rightarrow> bool" where
  "scalar_value n \<longleftrightarrow> n < 0xD800 \<or> (0xE000 \<le> n \<and> n < 0x110000)"

definition utf8_encode :: "nat \<Rightarrow> string" where
  "utf8_encode n = map char_of
     (if n < 0x80 then [n]
      else if n < 0x800 then [0xC0 + n div 64, 0x80 + n mod 64]
      else if n < 0x10000 then [0xE0 + n div 4096, 0x80 + n div 64 mod 64, 0x80 + n mod 64]
      else [0xF0 + n div 262144, 0x80 + n div 4096 mod 64, 0x80 + n div 64 mod 64, 0x80 + n mod 64])"

definition utf8_string :: "string \<Rightarrow> bool" where
  "utf8_string s \<longleftrightarrow> (\<exists>ns. list_all scalar_value ns \<and> s = concat (map utf8_encode ns))"

lemma next_state_lead:
  "next_state 0 c =
     (if code c < 0x80 then 0 else if code c < 0xC2 then 1 else if code c < 0xE0 then 2
      else if code c = 0xE0 then 4 else if code c = 0xED then 5 else if code c < 0xF0 then 3
      else if code c = 0xF0 then 6 else if code c < 0xF4 then 7 else if code c = 0xF4 then 8 else 1)"
  by (auto simp: next_state_def type_step_def byte_type_def)

lemma next_state_cont:
  "next_state 2 c = (if 0x80 \<le> code c \<and> code c < 0xC0 then 0 else 1)"
  "next_state 3 c = (if 0x80 \<le> code c \<and> code c < 0xC0 then 2 else 1)"
  "next_state 4 c = (if 0xA0 \<le> code c \<and> code c < 0xC0 then 2 else 1)"
  "next_state 5 c = (if 0x80 \<le> code c \<and> code c < 0xA0 then 2 else 1)"
  "next_state 6 c = (if 0x90 \<le> code c \<and> code c < 0xC0 then 3 else 1)"
  "next_state 7 c = (if 0x80 \<le> code c \<and> code c < 0xC0 then 3 else 1)"
  "next_state 8 c = (if 0x80 \<le> code c \<and> code c < 0x90 then 3 else 1)"
  by (auto simp: next_state_def type_step_def byte_type_def)

lemma next_cp_cont: "st \<noteq> 0 \<Longrightarrow> 0x80 \<le> code c \<Longrightarrow> code c < 0xC0 \<Longrightarrow> next_cp st cp c = cp * 64 + (code c - 0x80)"
  using mod_less [of "code c - 128" 64] by (simp add: next_cp_def le_mod_geq)

lemma mod_block: "k * a \<le> x \<Longrightarrow> x < k * a + k \<Longrightarrow> x mod k = x - k * a" for x k a :: nat
  by (metis add_less_cancel_left le_add_diff_inverse mod_less mod_mult_self4)

lemma next_cp_lead:
  "code c < 0x80 \<Longrightarrow> next_cp 0 cp c = code c"
  "0xC2 \<le> code c \<Longrightarrow> code c < 0xE0 \<Longrightarrow> next_cp 0 cp c = code c - 0xC0"
  "0xE0 \<le> code c \<Longrightarrow> code c < 0xF0 \<Longrightarrow> next_cp 0 cp c = code c - 0xE0"
  "0xF0 \<le> code c \<Longrightarrow> code c < 0xF5 \<Longrightarrow> next_cp 0 cp c = code c - 0xF0"
  using mod_block [of 64 3 "code c"] mod_block [of 32 7 "code c"] mod_block [of 4 60 "code c"]
    mod_block [of 8 30 "code c"]
  by (auto simp: next_cp_def byte_type_def)

lemma code_char_of: "n < 256 \<Longrightarrow> code (char_of n) = n"
  by simp

lemma escaped_raw: "0x80 \<le> n \<Longrightarrow> escaped n raw = raw"
  by (simp add: escaped_def)

lemma esc_run_encode:
  assumes "scalar_value n"
  shows "esc_run 0 cp (utf8_encode n @ r) = map_option (\<lambda>t. escaped n (utf8_encode n) @ t) (esc_run 0 n r)"
proof -
  consider "n < 0x80" | "0x80 \<le> n" "n < 0x800" | "0x800 \<le> n" "n < 0x10000" | "0x10000 \<le> n" "n < 0x110000"
    using assms by (force simp: scalar_value_def)
  then show ?thesis
  proof cases
    case 1
    then show ?thesis
      by (simp add: utf8_encode_def next_state_lead next_cp_lead code_char_of)
  next
    case 2
    then have "2 \<le> n div 64" "n div 64 < 32" by simp_all
    with 2 show ?thesis
      by (simp add: utf8_encode_def next_state_lead next_state_cont next_cp_lead next_cp_cont code_char_of
          escaped_raw option.map_comp comp_def)
  next
    case 3
    define a b c where "a = n div 4096" and "b = n div 64 mod 64" and "c = n mod 64"
    have n: "n = (a * 64 + b) * 64 + c" "b < 64" "c < 64"
    proof -
      have "n div 64 = a * 64 + b"
        using div_mult_mod_eq [of "n div 64" 64] by (simp add: a_def b_def div_mult2_eq [symmetric])
      then show "n = (a * 64 + b) * 64 + c" using div_mult_mod_eq [of n 64] by (simp add: c_def)
    qed (simp_all add: b_def c_def)
    have "utf8_encode n = [char_of (0xE0 + a), char_of (0x80 + b), char_of (0x80 + c)]"
      using 3 by (simp add: utf8_encode_def a_def b_def c_def)
    moreover have "a < 16" "a = 0 \<Longrightarrow> 32 \<le> b" "a = 13 \<Longrightarrow> b < 32"
      using 3 n assms by (auto simp: scalar_value_def)
    moreover have "next_state 0 (char_of (0xE0 + a)) = (if a = 0 then 4 else if a = 13 then 5 else 3)"
      using \<open>a < 16\<close> by (simp add: next_state_lead code_char_of)
    moreover have "next_cp 0 cp (char_of (0xE0 + a)) = a"
      using \<open>a < 16\<close> next_cp_lead(3) [of "char_of (0xE0 + a)"] by (simp add: code_char_of)
    ultimately show ?thesis
      using n 3 by (simp add: next_state_cont next_cp_cont code_char_of escaped_raw option.map_comp comp_def)
  next
    case 4
    define a b c d where "a = n div 262144" and "b = n div 4096 mod 64" and "c = n div 64 mod 64" and "d = n mod 64"
    have n: "n = ((a * 64 + b) * 64 + c) * 64 + d" "b < 64" "c < 64" "d < 64"
    proof -
      have "n div 4096 = a * 64 + b"
        using div_mult_mod_eq [of "n div 4096" 64] by (simp add: a_def b_def div_mult2_eq [symmetric])
      then have "n div 64 = (a * 64 + b) * 64 + c"
        using div_mult_mod_eq [of "n div 64" 64] by (simp add: c_def div_mult2_eq [symmetric])
      then show "n = ((a * 64 + b) * 64 + c) * 64 + d" using div_mult_mod_eq [of n 64] by (simp add: d_def)
    qed (simp_all add: b_def c_def d_def)
    have "utf8_encode n = [char_of (0xF0 + a), char_of (0x80 + b), char_of (0x80 + c), char_of (0x80 + d)]"
      using 4 by (simp add: utf8_encode_def a_def b_def c_def d_def)
    moreover have "a < 5" "a = 0 \<Longrightarrow> 16 \<le> b" "a = 4 \<Longrightarrow> b < 16"
      using 4 n by auto
    moreover have "next_state 0 (char_of (0xF0 + a)) = (if a = 0 then 6 else if a = 4 then 8 else 7)"
      using \<open>a < 5\<close> by (simp add: next_state_lead code_char_of)
    moreover have "next_cp 0 cp (char_of (0xF0 + a)) = a"
      using \<open>a < 5\<close> next_cp_lead(4) [of "char_of (0xF0 + a)"] by (simp add: code_char_of)
    ultimately show ?thesis
      using n 4 by (simp add: next_state_cont next_cp_cont code_char_of escaped_raw option.map_comp comp_def)
  qed
qed

lemma esc_run_Cons_Some:
  "esc_run st cp s = Some t \<Longrightarrow> st \<noteq> 0 \<Longrightarrow>
   \<exists>c r t'. s = c # r \<and> next_state st c \<noteq> 1 \<and> esc_run (next_state st c) (next_cp st cp c) r = Some t'"
  by (cases s) (auto simp: Let_def split: if_splits)

lemma div_mod_64: "e < 64 \<Longrightarrow> (x * 64 + e) div 64 = x" "e < 64 \<Longrightarrow> (x * 64 + e) mod 64 = e" for x e :: nat
  by simp_all

lemma encode_2:
  assumes "2 \<le> a" "a < 32" "b < 64"
  shows "scalar_value (a * 64 + b)" "utf8_encode (a * 64 + b) = [char_of (0xC0 + a), char_of (0x80 + b)]"
proof -
  have "(a * 64 + b) div 64 = a" "(a * 64 + b) mod 64 = b" using assms by simp_all
  then show "scalar_value (a * 64 + b)" "utf8_encode (a * 64 + b) = [char_of (0xC0 + a), char_of (0x80 + b)]"
    using assms by (simp_all add: scalar_value_def utf8_encode_def)
qed

lemma encode_3:
  assumes "a < 16" "b < 64" "c < 64" "a = 0 \<Longrightarrow> 32 \<le> b" "a = 13 \<Longrightarrow> b < 32"
  shows "scalar_value ((a * 64 + b) * 64 + c)"
    "utf8_encode ((a * 64 + b) * 64 + c) = [char_of (0xE0 + a), char_of (0x80 + b), char_of (0x80 + c)]"
proof -
  define n where "n = (a * 64 + b) * 64 + c"
  have d: "n div 64 = a * 64 + b" "n mod 64 = c" unfolding n_def by (rule div_mod_64 [OF assms(3)])+
  have "n div 4096 = n div 64 div 64" by (simp add: div_mult2_eq [symmetric])
  then have "n div 4096 = a" "n div 64 mod 64 = b" using d assms by simp_all
  moreover have "0x800 \<le> n" by (cases "a = 0") (use assms in \<open>simp_all add: n_def\<close>)
  moreover have "n < 0x10000" using assms by (simp add: n_def)
  moreover have "n < 0xD800 \<or> 0xE000 \<le> n"
    by (cases a "13::nat" rule: linorder_cases) (use assms in \<open>simp_all add: n_def\<close>)
  moreover from calculation show "scalar_value n" by (auto simp: scalar_value_def)
  ultimately show "utf8_encode n = [char_of (0xE0 + a), char_of (0x80 + b), char_of (0x80 + c)]"
    using d by (simp add: utf8_encode_def)
qed

lemma encode_4:
  assumes "a < 5" "b < 64" "c < 64" "d < 64" "a = 0 \<Longrightarrow> 16 \<le> b" "a = 4 \<Longrightarrow> b < 16"
  shows "scalar_value (((a * 64 + b) * 64 + c) * 64 + d)"
    "utf8_encode (((a * 64 + b) * 64 + c) * 64 + d) =
       [char_of (0xF0 + a), char_of (0x80 + b), char_of (0x80 + c), char_of (0x80 + d)]"
proof -
  define n where "n = ((a * 64 + b) * 64 + c) * 64 + d"
  have e: "n div 64 = (a * 64 + b) * 64 + c" "n mod 64 = d" unfolding n_def by (rule div_mod_64 [OF assms(4)])+
  have "n div 4096 = n div 64 div 64" "n div 262144 = n div 4096 div 64"
    by (simp_all add: div_mult2_eq [symmetric])
  then have f: "n div 4096 = a * 64 + b" "n div 64 mod 64 = c" and g: "n div 262144 = (a * 64 + b) div 64"
    unfolding e by (simp_all only: div_mod_64 [OF assms(3)])
  then have "n div 262144 = a" "n div 4096 mod 64 = b" "n div 64 mod 64 = c"
    using assms(2) by (simp_all only: div_mod_64)
  moreover have "0x10000 \<le> n" by (cases "a = 0") (use assms in \<open>simp_all add: n_def\<close>)
  moreover have "n < 0x110000" by (cases "a = 4") (use assms in \<open>simp_all add: n_def\<close>)
  moreover show "scalar_value n" using \<open>0x10000 \<le> n\<close> \<open>n < 0x110000\<close> by (simp add: scalar_value_def)
  ultimately show "utf8_encode n = [char_of (0xF0 + a), char_of (0x80 + b), char_of (0x80 + c), char_of (0x80 + d)]"
    using e by (simp add: utf8_encode_def)
qed

lemma char_of_code_sub: "k \<le> code c \<Longrightarrow> char_of (k + (code c - k)) = c"
  by simp

lemma esc_run_decompose:
  assumes run: "esc_run 0 cp (c # s) = Some t"
  shows "\<exists>n r. scalar_value n \<and> c # s = utf8_encode n @ r"
proof -
  define st where "st = next_state 0 c"
  have st1: "st \<noteq> 1" and run1: "\<exists>t1 cp1. esc_run st cp1 s = Some t1"
    using run by (auto simp: Let_def st_def split: if_splits)
  then consider (ascii) "code c < 0x80" | (two) "0xC2 \<le> code c" "code c < 0xE0" "st = 2"
    | (three) "0xE0 \<le> code c" "code c < 0xF0" "st = (if code c = 0xE0 then 4 else if code c = 0xED then 5 else 3)"
    | (four) "0xF0 \<le> code c" "code c < 0xF5" "st = (if code c = 0xF0 then 6 else if code c = 0xF4 then 8 else 7)"
    unfolding st_def next_state_lead by (force split: if_splits)
  then show ?thesis
  proof cases
    case ascii
    then have "scalar_value (code c)" "c # s = utf8_encode (code c) @ s"
      by (simp_all add: scalar_value_def utf8_encode_def)
    then show ?thesis by blast
  next
    case two
    then obtain d r where s: "s = d # r" and d: "next_state 2 d \<noteq> 1"
      using run1 esc_run_Cons_Some by force
    have "0x80 \<le> code d" "code d < 0xC0" using d by (auto simp: next_state_cont split: if_splits)
    then show ?thesis
      using encode_2 [of "code c - 0xC0" "code d - 0x80"] two s by fastforce
  next
    case three
    then have "st \<noteq> 0" by simp
    then obtain d r1 cp2 t2 where s: "s = d # r1" and d: "next_state st d \<noteq> 1" and run2: "esc_run (next_state st d) cp2 r1 = Some t2"
      using run1 esc_run_Cons_Some by blast
    have d': "0x80 \<le> code d" "code d < 0xC0" "code c = 0xE0 \<Longrightarrow> 0xA0 \<le> code d" "code c = 0xED \<Longrightarrow> code d < 0xA0" "next_state st d = 2"
      using d three by (auto simp: next_state_cont split: if_splits)
    then obtain e r where r1: "r1 = e # r" and e: "next_state 2 e \<noteq> 1"
      using run2 esc_run_Cons_Some by force
    have "0x80 \<le> code e" "code e < 0xC0" using e by (auto simp: next_state_cont split: if_splits)
    then show ?thesis
      using encode_3 [of "code c - 0xE0" "code d - 0x80" "code e - 0x80"] three d' s r1 by fastforce
  next
    case four
    then have "st \<noteq> 0" by simp
    then obtain d r1 cp2 t2 where s: "s = d # r1" and d: "next_state st d \<noteq> 1" and run2: "esc_run (next_state st d) cp2 r1 = Some t2"
      using run1 esc_run_Cons_Some by blast
    have d': "0x80 \<le> code d" "code d < 0xC0" "code c = 0xF0 \<Longrightarrow> 0x90 \<le> code d" "code c = 0xF4 \<Longrightarrow> code d < 0x90" "next_state st d = 3"
      using d four by (auto simp: next_state_cont split: if_splits)
    then obtain e r2 cp3 t3 where r1: "r1 = e # r2" and e: "next_state 3 e \<noteq> 1" and run3: "esc_run (next_state 3 e) cp3 r2 = Some t3"
      using run2 esc_run_Cons_Some by force
    have e': "0x80 \<le> code e" "code e < 0xC0" "next_state 3 e = 2" using e by (auto simp: next_state_cont split: if_splits)
    then obtain f r where r2: "r2 = f # r" and f: "next_state 2 f \<noteq> 1"
      using run3 esc_run_Cons_Some by force
    have "0x80 \<le> code f" "code f < 0xC0" using f by (auto simp: next_state_cont split: if_splits)
    then show ?thesis
      using encode_4 [of "code c - 0xF0" "code d - 0x80" "code e - 0x80" "code f - 0x80"] four d' e' s r1 r2 by fastforce
  qed
qed

lemma esc_run_iff:
  "esc_run 0 cp s = Some t \<longleftrightarrow>
   (\<exists>ns. list_all scalar_value ns \<and> s = concat (map utf8_encode ns) \<and>
         t = concat (map (\<lambda>n. escaped n (utf8_encode n)) ns))"
proof (induction "length s" arbitrary: s t cp rule: less_induct)
  case less
  have enc: "utf8_encode n \<noteq> []" for n by (simp add: utf8_encode_def)
  show ?case
  proof
    assume run: "esc_run 0 cp s = Some t"
    show "\<exists>ns. list_all scalar_value ns \<and> s = concat (map utf8_encode ns) \<and>
         t = concat (map (\<lambda>n. escaped n (utf8_encode n)) ns)"
    proof (cases s)
      case Nil
      then show ?thesis using run by (intro exI [of _ "[]"]) simp
    next
      case (Cons c cs)
      then obtain n r where n: "scalar_value n" and s: "s = utf8_encode n @ r"
        using run esc_run_decompose by blast
      then obtain t' where t': "esc_run 0 n r = Some t'" "t = escaped n (utf8_encode n) @ t'"
        using run by (auto simp: esc_run_encode)
      have "length r < length s" using s enc [of n] by simp
      then obtain ns where "list_all scalar_value ns" "r = concat (map utf8_encode ns)"
          "t' = concat (map (\<lambda>n. escaped n (utf8_encode n)) ns)"
        using less.hyps t'(1) by blast
      then show ?thesis using n s t' by (intro exI [of _ "n # ns"]) simp
    qed
  next
    assume "\<exists>ns. list_all scalar_value ns \<and> s = concat (map utf8_encode ns) \<and>
         t = concat (map (\<lambda>n. escaped n (utf8_encode n)) ns)"
    then obtain ns where ns: "list_all scalar_value ns" and s: "s = concat (map utf8_encode ns)"
        and t: "t = concat (map (\<lambda>n. escaped n (utf8_encode n)) ns)" by blast
    have "esc_run 0 cp (concat (map utf8_encode ns)) = Some (concat (map (\<lambda>n. escaped n (utf8_encode n)) ns))"
      using ns by (induction ns arbitrary: cp) (auto simp: esc_run_encode)
    then show "esc_run 0 cp s = Some t" using s t by simp
  qed
qed

text \<open>A reader of JSON string literals (after the opening quote), up to the basic plane for \<open>\u\<close>.\<close>

definition unescape_char :: "char \<Rightarrow> char option" where
  "unescape_char c =
     (if c = CHR ''b'' then Some (CHR 0x08) else if c = CHR ''t'' then Some (CHR 0x09)
      else if c = CHR ''n'' then Some (CHR 0x0A) else if c = CHR ''f'' then Some (CHR 0x0C)
      else if c = CHR ''r'' then Some (CHR 0x0D)
      else if c = CHR 0x22 \<or> c = CHR 0x5C \<or> c = CHR ''/'' then Some c else None)"

definition hex4 :: "string \<Rightarrow> nat option" where
  "hex4 h = (if length h = 4 \<and> list_all (\<lambda>c. digit_val 16 c \<noteq> None) h then Some (read_digits 16 0 h) else None)"

fun read_json_string :: "string \<Rightarrow> (string \<times> string) option" where
  "read_json_string [] = None"
| "read_json_string (c # cs) =
     (if c = CHR 0x22 then Some ([], cs)
      else if c = CHR 0x5C then
        (case cs of [] \<Rightarrow> None
         | e # r \<Rightarrow>
             if e = CHR ''u'' then
               (case hex4 (take 4 r) of None \<Rightarrow> None
                | Some n \<Rightarrow> map_option (\<lambda>(s, t). (utf8_encode n @ s, t)) (read_json_string (drop 4 r)))
             else
               (case unescape_char e of None \<Rightarrow> None
                | Some d \<Rightarrow> map_option (\<lambda>(s, t). (d # s, t)) (read_json_string r)))
      else if code c < 0x20 then None
      else map_option (\<lambda>(s, t). (c # s, t)) (read_json_string cs))"

lemma read_plain:
  "\<forall>c \<in> set xs. c \<noteq> CHR 0x22 \<and> c \<noteq> CHR 0x5C \<and> 0x20 \<le> code c \<Longrightarrow>
   read_json_string (xs @ r) = map_option (\<lambda>(s, t). (xs @ s, t)) (read_json_string r)"
  by (induction xs; cases "read_json_string r") auto

lemma digit_val_hex_digit: "k < 16 \<Longrightarrow> digit_val 16 (hex_digit k) = Some k"
  by (simp add: digit_val_def hex_digit_def isdigit_def islower_def isupper_def code_char_of Let_def)

lemma hex4_control:
  assumes "n < 0x20"
  shows "hex4 [CHR ''0'', CHR ''0'', hex_digit (n div 16), hex_digit (n mod 16)] = Some n"
proof -
  have "n div 16 < 16" using assms by (simp add: div_less_iff_less_mult)
  moreover have "digit_val 16 (CHR ''0'') = Some 0" by code_simp
  ultimately show ?thesis by (simp add: hex4_def digit_val_hex_digit)
qed

lemma encode_special:
  "utf8_encode 0x08 = [CHR 0x08]" "utf8_encode 0x09 = [CHR 0x09]" "utf8_encode 0x0A = [CHR 0x0A]"
  "utf8_encode 0x0C = [CHR 0x0C]" "utf8_encode 0x0D = [CHR 0x0D]" "utf8_encode 0x22 = [CHR 0x22]"
  "utf8_encode 0x5C = [CHR 0x5C]"
  by code_simp+

lemma utf8_encode_codes:
  assumes "scalar_value n" and "c \<in> set (utf8_encode n)"
  shows "code c = n \<or> 0x80 \<le> code c"
proof (cases "n < 0x80")
  case True
  then show ?thesis using assms by (simp add: utf8_encode_def)
next
  case False
  have m: "0x80 + k mod 64 < 256" for k :: nat using mod_less_divisor [of 64 k] by linarith
  have "n div 64 < 32 \<or> \<not> n < 0x800" "n div 4096 < 16 \<or> \<not> n < 0x10000" "n div 262144 < 5"
    using assms(1) by (auto simp: scalar_value_def div_less_iff_less_mult)
  then have "\<exists>k::nat. c = char_of k \<and> 0x80 \<le> k \<and> k < 256"
    using assms(2) False m [of n] m [of "n div 64"] m [of "n div 4096"]
    unfolding utf8_encode_def by (simp split: if_splits) (elim disjE exE; rule exI, rule conjI, assumption, simp)+
  then show ?thesis by (auto simp: code_char_of)
qed

lemma read_escaped:
  assumes "scalar_value n"
  shows "read_json_string (escaped n (utf8_encode n) @ r) =
    map_option (\<lambda>(s, t). (utf8_encode n @ s, t)) (read_json_string r)"
proof -
  consider (special) "n \<in> {0x08, 0x09, 0x0A, 0x0C, 0x0D, 0x22, 0x5C}" 
    | (control) "n < 0x20" "n \<notin> {0x08, 0x09, 0x0A, 0x0C, 0x0D, 0x22, 0x5C}"
    | (raw) "\<not> n < 0x20" "n \<notin> {0x08, 0x09, 0x0A, 0x0C, 0x0D, 0x22, 0x5C}"
    by blast
  then show ?thesis
  proof cases
    case special
    then obtain e d where "escaped n (utf8_encode n) = [CHR 0x5C, e]" "e \<noteq> CHR ''u''" "unescape_char e = Some d" "utf8_encode n = [d]"
      by (elim insertE) (simp_all add: escaped_def encode_special unescape_char_def)
    then show ?thesis by simp
  next
    case control
    then have "escaped n (utf8_encode n) = [CHR 0x5C, CHR ''u'', CHR ''0'', CHR ''0'', hex_digit (n div 16), hex_digit (n mod 16)]"
      by (simp add: escaped_def)
    then show ?thesis using hex4_control [OF control(1)] by simp
  next
    case raw
    then have e: "escaped n (utf8_encode n) = utf8_encode n" by (simp add: escaped_def)
    have "\<forall>c \<in> set (utf8_encode n). code c \<noteq> 0x22 \<and> code c \<noteq> 0x5C \<and> 0x20 \<le> code c"
      using raw utf8_encode_codes [OF assms] by fastforce
    then have "\<forall>c \<in> set (utf8_encode n). c \<noteq> CHR 0x22 \<and> c \<noteq> CHR 0x5C \<and> 0x20 \<le> code c"
      by fastforce
    then show ?thesis unfolding e by (rule read_plain)
  qed
qed

text \<open>
  C13: Escaping a string for a JSON text. dump_escaped never steps outside its 512-byte buffer.
  It succeeds exactly on the strings that are UTF-8 encodings of Unicode scalar values, and
  a reader of JSON string literals gets the original string back from what it writes, up to
  the closing quote and no further. On every other string it throws type_error 316.
\<close>

theorem dump_escaped_utf8:
  "if utf8_string s
   then \<exists>t. dump_escaped s = Inr t \<and> (\<forall>rest. read_json_string (t @ [CHR 0x22] @ rest) = Some (s, rest))
   else dump_escaped s = Inl (Type_error 316)"
proof (cases "utf8_string s")
  case True
  then obtain ns where ns: "list_all scalar_value ns" and s: "s = concat (map utf8_encode ns)"
    by (auto simp: utf8_string_def)
  define t where "t = concat (map (\<lambda>n. escaped n (utf8_encode n)) ns)"
  have "esc_run 0 0 s = Some t" using ns s t_def esc_run_iff by blast
  moreover have "read_json_string (t @ [CHR 0x22] @ rest) = Some (s, rest)" for rest
    unfolding t_def s using ns by (induction ns) (simp_all add: read_escaped)
  ultimately show ?thesis using True by (auto simp: dump_escaped_run)
next
  case False
  then have "esc_run 0 0 s = None"
    using esc_run_iff [of 0 s] by (cases "esc_run 0 0 s") (auto simp: utf8_string_def)
  then show ?thesis using False by (simp add: dump_escaped_run)
qed

section \<open>Ordered maps keep their contract\<close>

text \<open>
  What the callers of \<open>std::map\<close> rely on: an invariant that the operations keep, and a lookup
  that sees exactly the updates and erasures. The client lemmas are about sequences of updates.
\<close>

locale dictionary =
  fixes dict_ok :: "'m \<Rightarrow> bool"
    and lookup :: "'m \<Rightarrow> 'k \<Rightarrow> 'v option"
    and update :: "'k \<Rightarrow> 'v \<Rightarrow> 'm \<Rightarrow> 'm"
    and delete :: "'k \<Rightarrow> 'm \<Rightarrow> 'm"
  assumes ok_update: "dict_ok m \<Longrightarrow> dict_ok (update k v m)"
    and ok_delete: "dict_ok m \<Longrightarrow> dict_ok (delete k m)"
    and lookup_update: "dict_ok m \<Longrightarrow> lookup (update k v m) k' = (if k' = k then Some v else lookup m k')"
    and lookup_delete: "dict_ok m \<Longrightarrow> lookup (delete k m) k' = (if k' = k then None else lookup m k')"
begin

lemma ok_updates: "dict_ok m \<Longrightarrow> dict_ok (fold (\<lambda>(k, v). update k v) kvs m)"
  by (induction kvs arbitrary: m) (auto simp: ok_update)

lemma lookup_updates:
  "dict_ok m \<Longrightarrow> lookup (fold (\<lambda>(k, v). update k v) kvs m) k =
     (case map_of (rev kvs) k of Some v \<Rightarrow> Some v | None \<Rightarrow> lookup m k)"
proof (induction kvs arbitrary: m)
  case (Cons kv kvs)
  obtain k0 v0 where kv: "kv = (k0, v0)" by (cases kv)
  have "lookup (fold (\<lambda>(k, v). update k v) (kv # kvs) m) k =
      (case map_of (rev kvs) k of Some v \<Rightarrow> Some v | None \<Rightarrow> lookup (update k0 v0 m) k)"
    using Cons.IH [OF ok_update [OF Cons.prems]] by (simp add: kv)
  then show ?case
    using lookup_update [OF Cons.prems, of k0 v0 k] by (auto simp: kv map_add_def split: option.splits)
qed simp

lemma delete_update_commute:
  "dict_ok m \<Longrightarrow> k \<noteq> k' \<Longrightarrow> lookup (delete k (update k' v m)) k'' = lookup (update k' v (delete k m)) k''"
  by (simp add: lookup_update lookup_delete ok_update ok_delete)

end

lemma omap_set_fst: "set (map fst (omap_set k v ms)) = insert k (set (map fst ms))"
  by (induction k v ms rule: omap_set.induct) auto

lemma omap_ok_set: "omap_ok ms \<Longrightarrow> omap_ok (omap_set k v ms)"
proof (induction k v ms rule: omap_set.induct)
  case (2 k v k' v' ms)
  have "\<forall>x \<in> set (map fst (omap_set k v ms)). k' < x" if "k' < k"
    using "2.prems" that unfolding omap_set_fst by (auto simp: omap_ok_def)
  moreover have "\<forall>x \<in> set (map fst ms). k < x" if "k < k'"
    using "2.prems" that by (auto simp: omap_ok_def intro: less_trans)
  ultimately show ?case
    using 2 by (cases k k' rule: linorder_cases) (simp_all add: omap_ok_def)
qed (simp add: omap_ok_def)

lemma omap_ok_erase: "omap_ok ms \<Longrightarrow> omap_ok (omap_erase k ms)"
  by (induction ms) (auto simp: omap_ok_def omap_erase_def)

lemma map_of_omap_set: "omap_ok ms \<Longrightarrow> map_of (omap_set k v ms) k' = (if k' = k then Some v else map_of ms k')"
  by (induction k v ms rule: omap_set.induct) (auto simp: omap_ok_def)

lemma map_of_omap_erase: "map_of (omap_erase k ms) k' = (if k' = k then None else map_of ms k')"
  by (induction ms) (auto simp: omap_erase_def)

interpretation omap: dictionary omap_ok map_of omap_set omap_erase
  by unfold_locales (simp_all add: omap_ok_set omap_ok_erase map_of_omap_set map_of_omap_erase)

lemma omap_keys_distinct: "omap_ok ms \<Longrightarrow> distinct (map fst ms)"
  by (auto simp: omap_ok_def strict_sorted_iff)

end
