(* ===== verification/Json_Lexer.thy ===== *)
theory Json_Lexer
  imports Json_Value
begin

text \<open>
  The scanner of the JSON library (\<open>third_party/include/json.hpp\<close>, class \<open>lexer\<close>) that
  \<open>json::parse\<close> uses when a column is read (\<open>db/soci_pgsql.hpp\<close>). The input is the list of bytes
  that are left; \<open>unget\<close> leaves the last byte there. The positions and the text of error messages
  are not kept. The conversion of the text of a floating-point number is the argument
  \<open>strtof\<close>; the decimal point is that of the "C" locale.
\<close>

section \<open>Tokens\<close>

datatype 'f json_token =
    Begin_array | End_array | Begin_object | End_object | Name_separator | Value_separator
  | Literal_true | Literal_false | Literal_null
  | Value_string string
  | Value_unsigned "64 word"
  | Value_integer "64 word"
  | Value_float 'f
  | End_of_input
  | Token_error

section \<open>Strings\<close>

definition hex_value :: "char \<Rightarrow> nat option" where
  "hex_value c =
     (if 0x30 \<le> code c \<and> code c \<le> 0x39 then Some (code c - 0x30)
      else if 0x41 \<le> code c \<and> code c \<le> 0x46 then Some (code c - 0x37)
      else if 0x61 \<le> code c \<and> code c \<le> 0x66 then Some (code c - 0x57)
      else None)"

fun get_codepoint_loop :: "nat list \<Rightarrow> nat \<Rightarrow> string \<Rightarrow> (nat \<times> string) option" where
  "get_codepoint_loop [] cp s = Some (cp, s)"
| "get_codepoint_loop (factor # factors) cp [] = None"
| "get_codepoint_loop (factor # factors) cp (c # s) =
     (case hex_value c of
        None \<Rightarrow> None
      | Some d \<Rightarrow> get_codepoint_loop factors (cp + push_bit factor d) s)"

definition get_codepoint :: "string \<Rightarrow> (nat \<times> string) option" where
  "get_codepoint s = get_codepoint_loop [12, 8, 4, 0] 0 s"

text \<open>The bytes that are added for the code point of an escape.\<close>

definition codepoint_bytes :: "nat \<Rightarrow> string" where
  "codepoint_bytes cp = map char_of
     (if cp < 0x80 then [cp]
      else if cp \<le> 0x7FF then [0xC0 OR drop_bit 6 cp, 0x80 OR (cp AND 0x3F)]
      else if cp \<le> 0xFFFF
      then [0xE0 OR drop_bit 12 cp, 0x80 OR (drop_bit 6 cp AND 0x3F), 0x80 OR (cp AND 0x3F)]
      else [0xF0 OR drop_bit 18 cp, 0x80 OR (drop_bit 12 cp AND 0x3F), 0x80 OR (drop_bit 6 cp AND 0x3F),
            0x80 OR (cp AND 0x3F)])"

text \<open>What follows \<open>\u\<close>: four digits, and for a high surrogate the escape of a low surrogate.\<close>

definition scan_unicode :: "string \<Rightarrow> (string \<times> string) option" where
  "scan_unicode s =
     (case get_codepoint s of
        None \<Rightarrow> None
      | Some (cp1, s1) \<Rightarrow>
          if 0xD800 \<le> cp1 \<and> cp1 \<le> 0xDBFF then
            (case s1 of
               b # u # s2 \<Rightarrow>
                 if b = CHR 0x5C \<and> u = CHR ''u'' then
                   (case get_codepoint s2 of
                      None \<Rightarrow> None
                    | Some (cp2, s3) \<Rightarrow>
                        if 0xDC00 \<le> cp2 \<and> cp2 \<le> 0xDFFF
                        then Some (codepoint_bytes (push_bit 10 cp1 + cp2 - 0x35FDC00), s3)
                        else None)
                 else None
             | _ \<Rightarrow> None)
          else if 0xDC00 \<le> cp1 \<and> cp1 \<le> 0xDFFF then None
          else Some (codepoint_bytes cp1, s1))"

text \<open>The ranges of the bytes that follow a lead byte of a UTF-8 sequence.\<close>

definition lead_ranges :: "nat \<Rightarrow> (nat \<times> nat) list option" where
  "lead_ranges b =
     (if 0xC2 \<le> b \<and> b \<le> 0xDF then Some [(0x80, 0xBF)]
      else if b = 0xE0 then Some [(0xA0, 0xBF), (0x80, 0xBF)]
      else if 0xE1 \<le> b \<and> b \<le> 0xEC \<or> b = 0xEE \<or> b = 0xEF then Some [(0x80, 0xBF), (0x80, 0xBF)]
      else if b = 0xED then Some [(0x80, 0x9F), (0x80, 0xBF)]
      else if b = 0xF0 then Some [(0x90, 0xBF), (0x80, 0xBF), (0x80, 0xBF)]
      else if 0xF1 \<le> b \<and> b \<le> 0xF3 then Some [(0x80, 0xBF), (0x80, 0xBF), (0x80, 0xBF)]
      else if b = 0xF4 then Some [(0x80, 0x8F), (0x80, 0xBF), (0x80, 0xBF)]
      else None)"

fun next_byte_in_range :: "(nat \<times> nat) list \<Rightarrow> string \<Rightarrow> (string \<times> string) option" where
  "next_byte_in_range [] s = Some ([], s)"
| "next_byte_in_range ((lo, hi) # ranges) [] = None"
| "next_byte_in_range ((lo, hi) # ranges) (c # s) =
     (if lo \<le> code c \<and> code c \<le> hi
      then map_option (\<lambda>(bs, r). (c # bs, r)) (next_byte_in_range ranges s) else None)"

lemma get_codepoint_loop_shorter: "get_codepoint_loop fs cp s = Some (n, r) \<Longrightarrow> length r \<le> length s"
  by (induction fs cp s rule: get_codepoint_loop.induct) (fastforce split: option.splits)+

lemma scan_unicode_shorter: "scan_unicode s = Some (bs, r) \<Longrightarrow> length r \<le> length s"
  by (auto simp: scan_unicode_def get_codepoint_def split: option.splits if_splits list.splits
      dest!: get_codepoint_loop_shorter)

lemma next_byte_in_range_shorter: "next_byte_in_range rs s = Some (bs, r) \<Longrightarrow> length r \<le> length s"
  by (induction rs s arbitrary: bs rule: next_byte_in_range.induct) (fastforce split: if_splits)+

text \<open>\<open>token_buffer\<close> and the rest of the input; \<^const>\<open>None\<close> is \<open>parse_error\<close>.\<close>

function scan_string :: "string \<Rightarrow> string \<Rightarrow> (string \<times> string) option" where
  "scan_string buf [] = None"
| "scan_string buf (c # s) =
     (if c = CHR 0x22 then Some (buf, s)
      else if c = CHR 0x5C then
        (case s of
           [] \<Rightarrow> None
         | e # s' \<Rightarrow>
             if e = CHR ''u'' then
               (case scan_unicode s' of
                  None \<Rightarrow> None
                | Some (bs, r) \<Rightarrow> scan_string (buf @ bs) r)
             else
               (case unescape_char e of
                  None \<Rightarrow> None
                | Some d \<Rightarrow> scan_string (buf @ [d]) s'))
      else if code c < 0x20 then None
      else if code c < 0x80 then scan_string (buf @ [c]) s
      else
        (case lead_ranges (code c) of
           None \<Rightarrow> None
         | Some ranges \<Rightarrow>
             (case next_byte_in_range ranges s of
                None \<Rightarrow> None
              | Some (bs, r) \<Rightarrow> scan_string (buf @ c # bs) r)))"
  by pat_completeness auto
termination
  by (relation "measure (\<lambda>(buf, s). length s)")
    (auto dest!: scan_unicode_shorter next_byte_in_range_shorter)

section \<open>Numbers\<close>

datatype number_type = Type_unsigned | Type_integer | Type_float

datatype number_state = Minus | Zero | Any1 | Decimal1 | Decimal2 | Exponent | Sign | Any2

datatype number_move = Goto number_state | Number_done | Number_error

definition is_e :: "char \<Rightarrow> bool" where
  "is_e c \<longleftrightarrow> c = CHR ''e'' \<or> c = CHR ''E''"

fun number_next :: "number_state \<Rightarrow> char \<Rightarrow> number_move" where
  "number_next Minus c =
     (if c = CHR ''0'' then Goto Zero else if isdigit c then Goto Any1 else Number_error)"
| "number_next Zero c =
     (if c = CHR ''.'' then Goto Decimal1 else if is_e c then Goto Exponent else Number_done)"
| "number_next Any1 c =
     (if isdigit c then Goto Any1 else if c = CHR ''.'' then Goto Decimal1
      else if is_e c then Goto Exponent else Number_done)"
| "number_next Decimal1 c = (if isdigit c then Goto Decimal2 else Number_error)"
| "number_next Decimal2 c =
     (if isdigit c then Goto Decimal2 else if is_e c then Goto Exponent else Number_done)"
| "number_next Exponent c =
     (if c = CHR ''+'' \<or> c = CHR ''-'' then Goto Sign else if isdigit c then Goto Any2 else Number_error)"
| "number_next Sign c = (if isdigit c then Goto Any2 else Number_error)"
| "number_next Any2 c = (if isdigit c then Goto Any2 else Number_done)"

definition number_accepts :: "number_state \<Rightarrow> bool" where
  "number_accepts st \<longleftrightarrow> st \<in> {Zero, Any1, Decimal2, Any2}"

fun number_enter :: "number_state \<Rightarrow> number_type \<Rightarrow> number_type" where
  "number_enter Minus t = Type_integer"
| "number_enter Decimal1 t = Type_float"
| "number_enter Exponent t = Type_float"
| "number_enter _ t = t"

fun scan_number_loop ::
  "number_state \<Rightarrow> number_type \<Rightarrow> string \<Rightarrow> string \<Rightarrow> (number_type \<times> string \<times> string) option" where
  "scan_number_loop st t buf [] = (if number_accepts st then Some (t, buf, []) else None)"
| "scan_number_loop st t buf (c # s) =
     (case number_next st c of
        Goto st' \<Rightarrow> scan_number_loop st' (number_enter st' t) (buf @ [c]) s
      | Number_done \<Rightarrow> Some (t, buf, c # s)
      | Number_error \<Rightarrow> None)"

text \<open>
  \<open>strtoull\<close> and \<open>strtoll\<close> set \<open>errno\<close> for a number that does not fit; the number is then
  converted to floating point.
\<close>

fun number_token :: "(string \<Rightarrow> 'f) \<Rightarrow> number_type \<Rightarrow> string \<Rightarrow> 'f json_token" where
  "number_token strtof Type_unsigned buf =
     (let x = dec_value 0 buf in if x < 2 ^ 64 then Value_unsigned (of_nat x) else Value_float (strtof buf))"
| "number_token strtof Type_integer buf =
     (let x = dec_value 0 (tl buf)
      in if x \<le> 2 ^ 63 then Value_integer (word_of_int (- int x)) else Value_float (strtof buf))"
| "number_token strtof Type_float buf = Value_float (strtof buf)"

definition scan_number :: "(string \<Rightarrow> 'f) \<Rightarrow> char \<Rightarrow> string \<Rightarrow> 'f json_token \<times> string" where
  "scan_number strtof c s =
     (case (if c = CHR ''-'' then scan_number_loop Minus Type_integer [c] s
            else if c = CHR ''0'' then scan_number_loop Zero Type_unsigned [c] s
            else scan_number_loop Any1 Type_unsigned [c] s) of
        None \<Rightarrow> (Token_error, [])
      | Some (t, buf, r) \<Rightarrow> (number_token strtof t buf, r))"

section \<open>The scanner\<close>

fun scan_literal :: "string \<Rightarrow> 'f json_token \<Rightarrow> string \<Rightarrow> 'f json_token \<times> string" where
  "scan_literal [] t s = (t, s)"
| "scan_literal (l # ls) t [] = (Token_error, [])"
| "scan_literal (l # ls) t (c # s) = (if c = l then scan_literal ls t s else (Token_error, []))"

definition is_blank :: "char \<Rightarrow> bool" where
  "is_blank c \<longleftrightarrow> c = CHR '' '' \<or> c = CHR 0x09 \<or> c = CHR 0x0A \<or> c = CHR 0x0D"

fun scan_from :: "(string \<Rightarrow> 'f) \<Rightarrow> char \<Rightarrow> string \<Rightarrow> 'f json_token \<times> string" where
  "scan_from strtof c s =
     (if c = CHR ''['' then (Begin_array, s)
      else if c = CHR '']'' then (End_array, s)
      else if c = CHR ''{'' then (Begin_object, s)
      else if c = CHR ''}'' then (End_object, s)
      else if c = CHR '':'' then (Name_separator, s)
      else if c = CHR '','' then (Value_separator, s)
      else if c = CHR ''t'' then scan_literal ''rue'' Literal_true s
      else if c = CHR ''f'' then scan_literal ''alse'' Literal_false s
      else if c = CHR ''n'' then scan_literal ''ull'' Literal_null s
      else if c = CHR 0x22 then
        (case scan_string [] s of None \<Rightarrow> (Token_error, []) | Some (v, r) \<Rightarrow> (Value_string v, r))
      else if c = CHR ''-'' \<or> isdigit c then scan_number strtof c s
      else if c = CHR 0x00 then (End_of_input, s)
      else (Token_error, []))"

definition scan :: "(string \<Rightarrow> 'f) \<Rightarrow> string \<Rightarrow> 'f json_token \<times> string" where
  "scan strtof s =
     (case dropWhile is_blank s of [] \<Rightarrow> (End_of_input, []) | c # r \<Rightarrow> scan_from strtof c r)"

definition skip_bom :: "string \<Rightarrow> string option" where
  "skip_bom s =
     (if s \<noteq> [] \<and> hd s = CHR 0xEF
      then if take 3 s = [CHR 0xEF, CHR 0xBB, CHR 0xBF] then Some (drop 3 s) else None
      else Some s)"

definition scan_first :: "(string \<Rightarrow> 'f) \<Rightarrow> string \<Rightarrow> 'f json_token \<times> string" where
  "scan_first strtof s = (case skip_bom s of None \<Rightarrow> (Token_error, []) | Some r \<Rightarrow> scan strtof r)"

end
