(* ===== verification/Json_Scan.thy ===== *)
theory Json_Scan
  imports Json_Parser
begin

text \<open>
  Lemmas on the scanner of \<^theory_text>\<open>Json_Lexer\<close>: it reads back the strings and numbers that the serializer
  writes, and every string it accepts is UTF-8. A text of a number is described by the
  automaton itself (\<open>number_text\<close>).
\<close>

section \<open>Strings are read back\<close>

lemma or_low:
  "y < 64 \<Longrightarrow> 0x80 OR y = 0x80 + y" "y < 32 \<Longrightarrow> 0xC0 OR y = 0xC0 + y"
  "y < 16 \<Longrightarrow> 0xE0 OR y = 0xE0 + y" "y < 8 \<Longrightarrow> 0xF0 OR y = 0xF0 + y" for y :: nat
proof -
  have "list_all (\<lambda>y. 0x80 OR y = 0x80 + y) [0..<64::nat]" "list_all (\<lambda>y. 0xC0 OR y = 0xC0 + y) [0..<32::nat]"
    "list_all (\<lambda>y. 0xE0 OR y = 0xE0 + y) [0..<16::nat]" "list_all (\<lambda>y. 0xF0 OR y = 0xF0 + y) [0..<8::nat]"
    by code_simp+
  then show "y < 64 \<Longrightarrow> 0x80 OR y = 0x80 + y" "y < 32 \<Longrightarrow> 0xC0 OR y = 0xC0 + y"
    "y < 16 \<Longrightarrow> 0xE0 OR y = 0xE0 + y" "y < 8 \<Longrightarrow> 0xF0 OR y = 0xF0 + y"
    by (auto simp: list_all_iff)
qed

lemma and_3F: "x AND 0x3F = x mod 64" for x :: nat
  using take_bit_eq_mask [of 6 x] by (simp add: take_bit_eq_mod mask_eq_exp_minus_1)

lemma codepoint_bytes_encode:
  assumes "n < 0x110000"
  shows "codepoint_bytes n = utf8_encode n"
proof -
  have "n \<le> 0x7FF \<Longrightarrow> n div 64 < 32" "n \<le> 0xFFFF \<Longrightarrow> n div 4096 < 16" "n div 262144 < 8"
    using assms by (simp_all add: div_less_iff_less_mult)
  then show ?thesis
    by (simp add: codepoint_bytes_def utf8_encode_def drop_bit_eq_div and_3F or_low le_less_Suc_eq flip: less_Suc_eq_le)
qed

lemma hex_value_hex_digit: "k < 16 \<Longrightarrow> hex_value (hex_digit k) = Some k"
  by (simp add: hex_value_def hex_digit_def code_char_of)

lemma scan_unicode_control:
  assumes "n < 0x20"
  shows "scan_unicode (CHR ''0'' # CHR ''0'' # hex_digit (n div 16) # hex_digit (n mod 16) # r) = Some (utf8_encode n, r)"
proof -
  have "n div 16 < 16" using assms by (simp add: div_less_iff_less_mult)
  moreover have "hex_value (CHR ''0'') = Some 0" by code_simp
  ultimately have "get_codepoint (CHR ''0'' # CHR ''0'' # hex_digit (n div 16) # hex_digit (n mod 16) # r) = Some (n, r)"
    by (simp add: get_codepoint_def hex_value_hex_digit push_bit_eq_mult)
  then show ?thesis using assms by (simp add: scan_unicode_def codepoint_bytes_encode)
qed

lemma mod_64_le: "x mod 64 \<le> 63" for x :: nat
  using mod_less_divisor [of 64 x] by simp

lemma utf8_encode_ranges:
  assumes "scalar_value n" "0x80 \<le> n"
  shows "\<exists>c bs ranges. utf8_encode n = c # bs \<and> 0x80 \<le> code c \<and> lead_ranges (code c) = Some ranges
    \<and> (\<forall>r. next_byte_in_range ranges (bs @ r) = Some (bs, r))"
proof -
  consider "n < 0x800" | "0x800 \<le> n" "n < 0x10000" | "0x10000 \<le> n" "n < 0x110000"
    using assms unfolding scalar_value_def by linarith
  then show ?thesis
  proof cases
    case 1
    then have "2 \<le> n div 64" "n div 64 < 32" using assms by (simp_all add: div_less_iff_less_mult less_eq_div_iff_mult_less_eq)
    then show ?thesis
      using assms 1 by (simp add: utf8_encode_def lead_ranges_def code_char_of)
  next
    case 2
    define a where "a = n div 4096"
    have a: "a < 16" using 2 by (simp add: a_def div_less_iff_less_mult)
    have n: "n div 64 = a * 64 + n div 64 mod 64"
      using div_mod_decomp [of "n div 64" 64] by (simp add: a_def div_mult2_eq [symmetric])
    have e0: "a = 0 \<Longrightarrow> 32 \<le> n div 64 mod 64"
      using n 2 less_eq_div_iff_mult_less_eq [of 64 32 n] by simp
    have ed: "a = 13 \<Longrightarrow> n div 64 mod 64 < 32"
    proof -
      assume "a = 13"
      then have "n < 0xD800" using assms 2 div_mod_decomp [of n 4096] by (auto simp: scalar_value_def a_def)
      then have "n div 64 < 864" by (simp add: div_less_iff_less_mult)
      then show ?thesis using n \<open>a = 13\<close> by simp
    qed
    consider "a = 0" | "0 < a" "a < 13" | "a = 13" | "a = 14" | "a = 15" using a by linarith
    then show ?thesis
      by cases (use e0 ed 2 in \<open>simp_all add: utf8_encode_def a_def [symmetric] lead_ranges_def code_char_of mod_64_le\<close>)
  next
    case 3
    define a where "a = n div 262144"
    have a: "a < 5" using 3 by (simp add: a_def div_less_iff_less_mult)
    have n: "n div 4096 = a * 64 + n div 4096 mod 64"
      using div_mod_decomp [of "n div 4096" 64] by (simp add: a_def div_mult2_eq [symmetric])
    have f0: "a = 0 \<Longrightarrow> 16 \<le> n div 4096 mod 64"
      using n 3 less_eq_div_iff_mult_less_eq [of 4096 16 n] by simp
    have "n div 4096 < 272" using 3 by (simp add: div_less_iff_less_mult)
    then have f4: "a = 4 \<Longrightarrow> n div 4096 mod 64 < 16" using n by simp
    consider "a = 0" | "0 < a" "a < 4" | "a = 4" using a by linarith
    then show ?thesis
      by cases (use f0 f4 3 in \<open>simp_all add: utf8_encode_def a_def [symmetric] lead_ranges_def code_char_of mod_64_le\<close>)
  qed
qed

lemma scan_string_escaped:
  assumes "scalar_value n"
  shows "scan_string buf (escaped n (utf8_encode n) @ r) = scan_string (buf @ utf8_encode n) r"
proof -
  consider (special) "n \<in> {0x08, 0x09, 0x0A, 0x0C, 0x0D, 0x22, 0x5C}"
    | (control) "n < 0x20" "n \<notin> {0x08, 0x09, 0x0A, 0x0C, 0x0D, 0x22, 0x5C}"
    | (ascii) "\<not> n < 0x20" "n < 0x80" "n \<notin> {0x22, 0x5C}"
    | (raw) "0x80 \<le> n"
    by fastforce
  then show ?thesis
  proof cases
    case special
    then obtain e d where "escaped n (utf8_encode n) = [CHR 0x5C, e]" "e \<noteq> CHR ''u''" "unescape_char e = Some d" "utf8_encode n = [d]"
      by (elim insertE) (simp_all add: escaped_def encode_special unescape_char_def)
    then show ?thesis by simp
  next
    case control
    then have "escaped n (utf8_encode n) = [CHR 0x5C, CHR ''u'', CHR ''0'', CHR ''0'', hex_digit (n div 16), hex_digit (n mod 16)]"
      by (simp add: escaped_def)
    then show ?thesis using scan_unicode_control [OF control(1)] by simp
  next
    case ascii
    have c: "utf8_encode n = [char_of n]" using ascii by (simp add: utf8_encode_def)
    have e: "escaped n (utf8_encode n) = [char_of n]" unfolding c using ascii by (simp add: escaped_def)
    have "code (char_of n) = n" using ascii by simp
    then have "char_of n \<noteq> CHR 0x22" "char_of n \<noteq> CHR 0x5C" using ascii(3) by fastforce+
    then show ?thesis unfolding e unfolding c using ascii by (simp add: code_char_of)
  next
    case raw
    then obtain c bs ranges where c: "utf8_encode n = c # bs" "0x80 \<le> code c" "lead_ranges (code c) = Some ranges"
        "next_byte_in_range ranges (bs @ r) = Some (bs, r)"
      using utf8_encode_ranges [OF assms] by blast
    then have "c \<noteq> CHR 0x22" "c \<noteq> CHR 0x5C" by fastforce+
    then show ?thesis using c raw by (simp add: escaped_raw)
  qed
qed

lemma dump_escaped_scalars:
  "dump_escaped s = Inr t \<longleftrightarrow> (\<exists>ns. list_all scalar_value ns \<and> s = concat (map utf8_encode ns)
     \<and> t = concat (map (\<lambda>n. escaped n (utf8_encode n)) ns))"
  using esc_run_iff [of 0 s t] by (auto simp: dump_escaped_run split: option.splits)

lemma scan_string_dumped:
  assumes "dump_escaped s = Inr t"
  shows "scan_string [] (t @ CHR 0x22 # r) = Some (s, r)"
proof -
  obtain ns where ns: "list_all scalar_value ns" "s = concat (map utf8_encode ns)"
      "t = concat (map (\<lambda>n. escaped n (utf8_encode n)) ns)"
    using assms dump_escaped_scalars by blast
  have "scan_string buf (concat (map (\<lambda>n. escaped n (utf8_encode n)) ns) @ CHR 0x22 # r)
      = Some (buf @ concat (map utf8_encode ns), r)" for buf
    using ns(1) by (induction ns arbitrary: buf) (simp_all add: scan_string_escaped)
  then show ?thesis using ns by simp
qed

section \<open>Numbers are read back\<close>

text \<open>What may follow a value in a text of the serializer.\<close>

definition delimited :: "string \<Rightarrow> bool" where
  "delimited r \<longleftrightarrow> r = [] \<or> hd r \<in> {CHR '','', CHR '']'', CHR ''}''}"

lemma delimited_intros [simp]:
  "delimited []" "delimited (CHR '','' # r)" "delimited (CHR '']'' # r)" "delimited (CHR ''}'' # r)"
  by (simp_all add: delimited_def)

lemma number_next_delimiter:
  assumes "number_accepts st" and "c \<in> {CHR '','', CHR '']'', CHR ''}''}"
  shows "number_next st c = Number_done"
  using assms by (cases st) (auto simp: number_accepts_def isdigit_def is_e_def)

text \<open>A text that the automaton accepts as a whole is accepted before a delimiter.\<close>

lemma scan_number_loop_append:
  "scan_number_loop st t buf s = Some (t', buf', []) \<Longrightarrow> delimited r
    \<Longrightarrow> scan_number_loop st t buf (s @ r) = Some (t', buf', r)"
proof (induction st t buf s rule: scan_number_loop.induct)
  case (1 st t buf)
  then show ?case by (cases r) (auto simp: delimited_def number_next_delimiter split: if_splits)
qed (auto split: number_move.splits)

lemma scan_number_loop_text:
  "scan_number_loop st t buf s = Some (t', buf', r) \<Longrightarrow> buf' @ r = buf @ s"
  by (induction st t buf s rule: scan_number_loop.induct) (auto split: number_move.splits if_splits)

lemma scan_number_loop_digits:
  "\<forall>c \<in> set ds. isdigit c \<Longrightarrow> scan_number_loop Any1 t buf ds = Some (t, buf @ ds, [])"
  by (induction ds arbitrary: buf) (simp_all add: number_accepts_def)

lemma nat_dec_Cons:
  assumes "n \<noteq> 0"
  obtains c ds where "nat_dec n = c # ds" "isdigit c" "c \<noteq> CHR ''0''" "\<forall>d \<in> set ds. isdigit d"
  using assms nat_dec_head [of n] nat_dec_digits [of _ n] nat_dec_nonempty [of n]
  by (cases "nat_dec n") auto

lemma isdigit_minus: "\<not> isdigit (CHR ''-'')"
  by (simp add: isdigit_def)

text \<open>The scanner takes a text that begins with a minus sign or a digit to the automaton.\<close>

definition number_text :: "number_type \<Rightarrow> string \<Rightarrow> bool" where
  "number_text t s \<longleftrightarrow>
     (case s of
        [] \<Rightarrow> False
      | c # s' \<Rightarrow>
          (if c = CHR ''-'' then scan_number_loop Minus Type_integer [c] s'
           else if c = CHR ''0'' then scan_number_loop Zero Type_unsigned [c] s'
           else if isdigit c then scan_number_loop Any1 Type_unsigned [c] s'
           else None) = Some (t, s, []))"

lemma number_start:
  assumes "c = CHR ''-'' \<or> isdigit c"
  shows "scan strtof (c # s) = scan_number strtof c s"
proof -
  have "c \<notin> {CHR ''['', CHR '']'', CHR ''{'', CHR ''}'', CHR '':'', CHR '','', CHR ''t'', CHR ''f'', CHR ''n'', CHR 0x22,
      CHR '' '', CHR 0x09, CHR 0x0A, CHR 0x0D}"
    using assms by (elim disjE) (simp, (rule notI, elim insertE emptyE; simp add: isdigit_def))
  then show ?thesis using assms by (simp add: scan_def is_blank_def)
qed

lemma number_text_start:
  assumes "number_text t s"
  obtains c s' where "s = c # s'" "c = CHR ''-'' \<or> isdigit c"
  using assms by (cases s) (auto simp: number_text_def isdigit_def split: if_splits)

lemma scan_number_text:
  assumes "number_text t s" and "delimited r"
  shows "scan strtof (s @ r) = (number_token strtof t s, r)"
proof -
  obtain c s' where s: "s = c # s'" and c: "c = CHR ''-'' \<or> isdigit c"
    using assms(1) by (rule number_text_start)
  then have "scan strtof (s @ r) = scan_number strtof c (s' @ r)" by (simp add: number_start)
  then show ?thesis
    using assms c by (auto simp: number_text_def s scan_number_def scan_number_loop_append split: if_splits)
qed

lemma number_text_unsigned: "number_text Type_unsigned (nat_dec n)"
proof (cases "n = 0")
  case True
  then show ?thesis by (simp add: nat_dec_zero number_text_def number_accepts_def)
next
  case False
  then obtain c ds where "nat_dec n = c # ds" "isdigit c" "c \<noteq> CHR ''0''" "\<forall>d \<in> set ds. isdigit d"
    by (rule nat_dec_Cons)
  then show ?thesis using isdigit_minus by (auto simp: number_text_def scan_number_loop_digits)
qed

lemma number_text_negative:
  assumes "n \<noteq> 0"
  shows "number_text Type_integer (CHR ''-'' # nat_dec n)"
proof -
  obtain c ds where "nat_dec n = c # ds" "isdigit c" "c \<noteq> CHR ''0''" "\<forall>d \<in> set ds. isdigit d"
    using assms by (rule nat_dec_Cons)
  then show ?thesis by (simp add: number_text_def scan_number_loop_digits)
qed

lemma scan_unsigned:
  assumes "delimited r"
  shows "scan strtof (dump_integer False x @ r) = (Value_unsigned x, r)"
  using scan_number_text [OF number_text_unsigned assms, where strtof = strtof] unsigned_less [of x, where ?'a = nat]
  by (simp add: dump_integer_unsigned)

lemma scan_signed:
  assumes "delimited r"
  shows "scan strtof (dump_integer True x @ r) = (if sint x < 0 then Value_integer x else Value_unsigned x, r)"
proof (cases "sint x < 0")
  case True
  have "number_text Type_integer (CHR ''-'' # nat_dec (nat \<bar>sint x\<bar>))" using True by (intro number_text_negative) simp
  moreover have "nat \<bar>sint x\<bar> \<le> 2 ^ 63" using True sint_greater_eq [of x] by simp
  ultimately show ?thesis
    using True assms scan_number_text [of Type_integer "CHR ''-'' # nat_dec (nat \<bar>sint x\<bar>)" r strtof]
    by (simp add: dump_integer_signed)
next
  case False
  then have "dump_integer True x = dump_integer False x"
    by (simp add: dump_integer_signed dump_integer_unsigned unat_sint_pos)
  then show ?thesis using False assms scan_unsigned by simp
qed

lemma scan_float:
  "number_text Type_float t \<Longrightarrow> delimited r \<Longrightarrow> scan strtof (t @ r) = (Value_float (strtof t), r)"
  by (simp add: scan_number_text)

section \<open>Strings are UTF-8\<close>

lemma utf8_string_Nil: "utf8_string []"
  unfolding utf8_string_def by (rule exI [of _ "[]"]) simp

lemma utf8_string_append: "utf8_string s \<Longrightarrow> utf8_string t \<Longrightarrow> utf8_string (s @ t)"
  unfolding utf8_string_def by (metis concat_append list_all_append map_append)

lemma utf8_string_encode: "scalar_value n \<Longrightarrow> utf8_string (utf8_encode n)"
  unfolding utf8_string_def by (rule exI [of _ "[n]"]) simp

lemma utf8_string_ascii: "code c < 0x80 \<Longrightarrow> utf8_string [c]"
  using utf8_string_encode [of "code c"] by (simp add: utf8_encode_def scalar_value_def)

lemma hex_value_less: "hex_value c = Some d \<Longrightarrow> d < 16"
  by (auto simp: hex_value_def split: if_splits)

lemma get_codepoint_loop_Cons:
  assumes "get_codepoint_loop (f # fs) cp s = Some (n, r)"
  obtains d s' where "d < 16" "get_codepoint_loop fs (cp + push_bit f d) s' = Some (n, r)"
  using assms by (cases s) (auto split: option.splits dest!: hex_value_less)

lemma get_codepoint_less:
  assumes "get_codepoint s = Some (n, r)"
  shows "n < 0x10000"
proof -
  obtain d1 s1 where d1: "d1 < 16" "get_codepoint_loop [8, 4, 0] (0 + push_bit 12 d1) s1 = Some (n, r)"
    using assms unfolding get_codepoint_def by (rule get_codepoint_loop_Cons)
  obtain d2 s2 where d2: "d2 < 16" "get_codepoint_loop [4, 0] (0 + push_bit 12 d1 + push_bit 8 d2) s2 = Some (n, r)"
    using d1(2) by (rule get_codepoint_loop_Cons)
  obtain d3 s3 where d3: "d3 < 16"
      "get_codepoint_loop [0] (0 + push_bit 12 d1 + push_bit 8 d2 + push_bit 4 d3) s3 = Some (n, r)"
    using d2(2) by (rule get_codepoint_loop_Cons)
  obtain d4 s4 where d4: "d4 < 16"
      "get_codepoint_loop [] (0 + push_bit 12 d1 + push_bit 8 d2 + push_bit 4 d3 + push_bit 0 d4) s4 = Some (n, r)"
    using d3(2) by (rule get_codepoint_loop_Cons)
  then show ?thesis using d1(1) d2(1) d3(1) by (simp add: push_bit_eq_mult)
qed

lemma surrogate_pair_scalar:
  assumes "0xD800 \<le> cp1" "cp1 \<le> 0xDBFF" "0xDC00 \<le> cp2" "cp2 \<le> 0xDFFF"
  shows "scalar_value (push_bit 10 cp1 + cp2 - 0x35FDC00)"
proof -
  have "0x10000 + 0x35FDC00 \<le> cp1 * 1024 + cp2" "cp1 * 1024 + cp2 < 0x110000 + 0x35FDC00"
    using assms by linarith+
  then have "0x10000 \<le> cp1 * 1024 + cp2 - 0x35FDC00" "cp1 * 1024 + cp2 - 0x35FDC00 < 0x110000" by linarith+
  then show ?thesis by (simp add: scalar_value_def push_bit_eq_mult)
qed

lemma scan_unicode_codepoint:
  assumes "scan_unicode s = Some (bs, r)"
  obtains n where "scalar_value n" "bs = codepoint_bytes n"
proof -
  obtain cp1 s1 where c1: "get_codepoint s = Some (cp1, s1)"
    using assms by (auto simp: scan_unicode_def split: option.splits)
  show thesis
  proof (cases "0xD800 \<le> cp1 \<and> cp1 \<le> 0xDBFF")
    case True
    then obtain s2 cp2 where "0xDC00 \<le> cp2 \<and> cp2 \<le> 0xDFFF" "bs = codepoint_bytes (push_bit 10 cp1 + cp2 - 0x35FDC00)"
      using assms c1 by (auto simp: scan_unicode_def split: option.splits if_splits list.splits)
    then show thesis using True that surrogate_pair_scalar by blast
  next
    case False
    then have "\<not> (0xDC00 \<le> cp1 \<and> cp1 \<le> 0xDFFF)" "bs = codepoint_bytes cp1"
      using assms c1 by (auto simp: scan_unicode_def split: if_splits)
    moreover have "cp1 < 0x10000" using c1 by (rule get_codepoint_less)
    ultimately have "scalar_value cp1" using False by (auto simp: scalar_value_def)
    then show thesis using that \<open>bs = codepoint_bytes cp1\<close> by blast
  qed
qed

lemma scan_unicode_utf8:
  assumes "scan_unicode s = Some (bs, r)"
  shows "utf8_string bs"
proof -
  obtain n where n: "scalar_value n" "bs = codepoint_bytes n" using assms by (rule scan_unicode_codepoint)
  then have "n < 0x110000" by (auto simp: scalar_value_def)
  then show ?thesis using n by (simp add: codepoint_bytes_encode utf8_string_encode)
qed

lemma if_Some_elim:
  assumes "(if b then Some x else y) = Some z" and "b \<Longrightarrow> x = z \<Longrightarrow> P" and "y = Some z \<Longrightarrow> P"
  shows P
  using assms by (auto split: if_splits)

lemma unescape_ascii: "unescape_char e = Some d \<Longrightarrow> code d < 0x80"
  unfolding unescape_char_def by (elim if_Some_elim disjE; hypsubst?; simp)

lemma next_byte_Cons:
  assumes "next_byte_in_range ((lo, hi) # rs) s = Some (bs, r)"
  obtains c bs' s' where "bs = c # bs'" "lo \<le> code c" "code c \<le> hi" "next_byte_in_range rs s' = Some (bs', r)"
  using assms by (cases s) (auto split: if_splits)

lemma next_byte_Nil: "next_byte_in_range [] s = Some (bs, r) \<Longrightarrow> bs = []"
  by simp

lemma encode_3_utf8:
  fixes a b c :: nat
  assumes "a < 16" "b < 64" "c < 64" "a = 0 \<longrightarrow> 32 \<le> b" "a = 13 \<longrightarrow> b < 32"
  shows "utf8_string [char_of (0xE0 + a), char_of (0x80 + b), char_of (0x80 + c)]"
proof -
  have "utf8_encode ((a * 64 + b) * 64 + c) = [char_of (0xE0 + a), char_of (0x80 + b), char_of (0x80 + c)]"
    by (rule encode_3) (use assms in blast)+
  moreover have "scalar_value ((a * 64 + b) * 64 + c)" by (rule encode_3) (use assms in blast)+
  ultimately show ?thesis using utf8_string_encode by metis
qed

lemma encode_4_utf8:
  fixes a b c d :: nat
  assumes "a < 5" "b < 64" "c < 64" "d < 64" "a = 0 \<longrightarrow> 16 \<le> b" "a = 4 \<longrightarrow> b < 16"
  shows "utf8_string [char_of (0xF0 + a), char_of (0x80 + b), char_of (0x80 + c), char_of (0x80 + d)]"
proof -
  have "utf8_encode (((a * 64 + b) * 64 + c) * 64 + d) =
      [char_of (0xF0 + a), char_of (0x80 + b), char_of (0x80 + c), char_of (0x80 + d)]"
    by (rule encode_4) (use assms in blast)+
  moreover have "scalar_value (((a * 64 + b) * 64 + c) * 64 + d)" by (rule encode_4) (use assms in blast)+
  ultimately show ?thesis using utf8_string_encode by metis
qed

lemma lead_ranges_utf8:
  assumes "lead_ranges (code c) = Some ranges" and "next_byte_in_range ranges s = Some (bs, r)"
  shows "utf8_string (c # bs)"
proof -
  let ?b = "code c"
  consider (two) "0xC2 \<le> ?b" "?b \<le> 0xDF" "ranges = [(0x80, 0xBF)]"
    | (three) lo hi where "0xE0 \<le> ?b" "?b \<le> 0xEF" "ranges = [(lo, hi), (0x80, 0xBF)]" "0x80 \<le> lo" "hi \<le> 0xBF"
        "?b = 0xE0 \<Longrightarrow> lo = 0xA0" "?b = 0xED \<Longrightarrow> hi = 0x9F"
    | (four) lo hi where "0xF0 \<le> ?b" "?b \<le> 0xF4" "ranges = [(lo, hi), (0x80, 0xBF), (0x80, 0xBF)]" "0x80 \<le> lo" "hi \<le> 0xBF"
        "?b = 0xF0 \<Longrightarrow> lo = 0x90" "?b = 0xF4 \<Longrightarrow> hi = 0x8F"
    using assms(1) by (auto simp: lead_ranges_def split: if_splits)
  then show ?thesis
  proof cases
    case two
    obtain c1 where bs: "bs = [c1]" "0x80 \<le> code c1" "code c1 \<le> 0xBF"
      using assms(2) unfolding two by (auto elim!: next_byte_Cons)
    have "2 \<le> ?b - 0xC0" "?b - 0xC0 < 32" "code c1 - 0x80 < 64" using two bs by auto
    from utf8_string_encode [OF encode_2(1) [OF this], unfolded encode_2(2) [OF this]] show ?thesis
      using two bs by simp
  next
    case three
    obtain c1 c2 where bs: "bs = [c1, c2]" "lo \<le> code c1" "code c1 \<le> hi" "0x80 \<le> code c2" "code c2 \<le> 0xBF"
      using assms(2) unfolding three by (auto elim!: next_byte_Cons)
    have "?b - 0xE0 < 16" "code c1 - 0x80 < 64" "code c2 - 0x80 < 64"
      "?b - 0xE0 = 0 \<longrightarrow> 32 \<le> code c1 - 0x80" "?b - 0xE0 = 13 \<longrightarrow> code c1 - 0x80 < 32"
      using three bs by auto
    from encode_3_utf8 [OF this] show ?thesis
      using three bs by simp
  next
    case four
    obtain c1 c2 c3 where bs: "bs = [c1, c2, c3]" "lo \<le> code c1" "code c1 \<le> hi" "0x80 \<le> code c2" "code c2 \<le> 0xBF"
        "0x80 \<le> code c3" "code c3 \<le> 0xBF"
      using assms(2) unfolding four by (auto elim!: next_byte_Cons)
    have "?b - 0xF0 < 5" "code c1 - 0x80 < 64" "code c2 - 0x80 < 64" "code c3 - 0x80 < 64"
      "?b - 0xF0 = 0 \<longrightarrow> 16 \<le> code c1 - 0x80" "?b - 0xF0 = 4 \<longrightarrow> code c1 - 0x80 < 16"
      using four bs by auto
    from encode_4_utf8 [OF this] show ?thesis
      using four bs by simp
  qed
qed

lemma scan_string_utf8:
  "scan_string buf s = Some (v, r) \<Longrightarrow> utf8_string buf \<Longrightarrow> utf8_string v"
proof (induction "length s" arbitrary: buf s rule: less_induct)
  case less
  from less.prems(1) obtain c cs where s: "s = c # cs" by (cases s) auto
  from less.prems(1) [unfolded s] show ?case
  proof (cases rule: scan_string_step)
    case (unicode s' bs r')
    then show ?thesis
      using less.hyps [of r' "buf @ bs"] less.prems(2) scan_unicode_shorter [of s' bs r'] scan_unicode_utf8 [of s' bs r']
      by (simp add: s utf8_string_append)
  next
    case (escape e s' d)
    from escape(2) have "code d < 0x80" by (rule unescape_ascii)
    then show ?thesis
      using escape less.hyps [of s' "buf @ [d]"] less.prems(2) by (simp add: s utf8_string_append utf8_string_ascii)
  next
    case ascii
    then show ?thesis
      using less.hyps [of cs "buf @ [c]"] less.prems(2) by (simp add: s utf8_string_append utf8_string_ascii)
  next
    case (utf8 ranges bs r')
    then show ?thesis
      using less.hyps [of r' "buf @ c # bs"] less.prems(2) next_byte_in_range_shorter [of ranges cs bs r'] lead_ranges_utf8 [of c ranges cs bs r']
      by (simp add: s utf8_string_append)
  qed (use less.prems in \<open>simp add: s\<close>)
qed

end
