(* ===== verification/Json_Roundtrip.thy ===== *)
theory Json_Roundtrip
  imports Json_Scan
begin

text \<open>
  The serializer and the parser of the JSON library against each other: the parser reads back
  the value that was written, up to the type of a non-negative integer and to floating-point
  numbers that have no text, and every value it accepts can be written.

  The conversions of floating-point numbers are arguments. What they promise each other is
  \<open>float_roundtrip\<close>: the text of a finite number has the form of a JSON floating-point number
  and converts back to it; a number that is not finite is written as null.
\<close>

section \<open>The parser reads back what the serializer writes\<close>

text \<open>
  The value that comes back: a number that is not negative comes back as unsigned, a
  floating-point number that is not finite was written as null.
\<close>

fun reread :: "('f \<Rightarrow> bool) \<Rightarrow> 'f json \<Rightarrow> 'f json" where
  "reread isfinite (Number_integer x) = (if sint x < 0 then Number_integer x else Number_unsigned x)"
| "reread isfinite (Number_float x) = (if isfinite x then Number_float x else Null)"
| "reread isfinite (Array xs) = Array (map (reread isfinite) xs)"
| "reread isfinite (Object ms) = Object (map (\<lambda>m. (fst m, reread isfinite (snd m))) ms)"
| "reread isfinite j = j"

text \<open>What the conversions of floating-point numbers promise each other.\<close>

definition float_roundtrip :: "('f \<Rightarrow> string) \<Rightarrow> (string \<Rightarrow> 'f) \<Rightarrow> ('f \<Rightarrow> bool) \<Rightarrow> bool" where
  "float_roundtrip to_chars strtof isfinite \<longleftrightarrow>
     (\<forall>x. if isfinite x then number_text Type_float (to_chars x) \<and> strtof (to_chars x) = x
          else to_chars x = ''null'')"

lemma float_roundtripD:
  assumes "float_roundtrip to_chars strtof isfinite"
  shows "isfinite x \<Longrightarrow> number_text Type_float (to_chars x)" "isfinite x \<Longrightarrow> strtof (to_chars x) = x"
    "\<not> isfinite x \<Longrightarrow> to_chars x = ''null''"
  using assms by (meson float_roundtrip_def)+

definition parse_next :: "(string \<Rightarrow> 'f) \<Rightarrow> ('f \<Rightarrow> bool) \<Rightarrow> string \<Rightarrow> 'f open_value list \<Rightarrow> json_error + ('f json \<times> string)" where
  "parse_next strtof isfinite s st = (case scan strtof s of (t, r) \<Rightarrow> parse_value strtof isfinite t r st)"

definition parse_member ::
  "(string \<Rightarrow> 'f) \<Rightarrow> ('f \<Rightarrow> bool) \<Rightarrow> string \<Rightarrow> (string \<times> 'f json) list \<Rightarrow> 'f open_value list \<Rightarrow> json_error + ('f json \<times> string)" where
  "parse_member strtof isfinite s ms st =
     (case scan strtof s of (t1, s1) \<Rightarrow>
        (case parse_key strtof t1 s1 of
           Inl e \<Rightarrow> Inl e
         | Inr (k, s2) \<Rightarrow> parse_next strtof isfinite s2 (In_object ms k # st)))"

subsection \<open>First bytes\<close>

lemma scan_punctuation [simp]:
  "scan strtof (CHR ''['' # s) = (Begin_array, s)" "scan strtof (CHR '']'' # s) = (End_array, s)"
  "scan strtof (CHR ''{'' # s) = (Begin_object, s)" "scan strtof (CHR ''}'' # s) = (End_object, s)"
  "scan strtof (CHR '':'' # s) = (Name_separator, s)" "scan strtof (CHR '','' # s) = (Value_separator, s)"
  by (simp_all add: scan_def is_blank_def)

lemma scan_literals [simp]:
  "scan strtof (CHR ''t'' # CHR ''r'' # CHR ''u'' # CHR ''e'' # s) = (Literal_true, s)"
  "scan strtof (CHR ''f'' # CHR ''a'' # CHR ''l'' # CHR ''s'' # CHR ''e'' # s) = (Literal_false, s)"
  "scan strtof (CHR ''n'' # CHR ''u'' # CHR ''l'' # CHR ''l'' # s) = (Literal_null, s)"
  by (simp_all add: scan_def is_blank_def)

lemma scan_dumped_string:
  "dump_escaped s = Inr t \<Longrightarrow> scan strtof (CHR 0x22 # t @ CHR 0x22 # r) = (Value_string s, r)"
  using scan_string_dumped [of s t r] by (simp add: scan_def is_blank_def)

definition starts_value :: "string \<Rightarrow> bool" where
  "starts_value t \<longleftrightarrow> t \<noteq> [] \<and> (hd t \<in> {CHR ''['', CHR ''{'', CHR ''t'', CHR ''f'', CHR ''n'', CHR 0x22, CHR ''-''} \<or> isdigit (hd t))"

lemma number_text_starts: "number_text ty t \<Longrightarrow> starts_value t"
  by (erule number_text_start) (auto simp: starts_value_def)

lemma dump_starts_value:
  assumes "float_roundtrip to_chars strtof isfinite" and "dump to_chars j = Inr t"
  shows "starts_value t"
proof (cases j)
  case (Number_integer x)
  have "starts_value (nat_dec n)" for n using number_text_unsigned by (rule number_text_starts)
  then show ?thesis
    using assms(2) Number_integer by (auto simp: dump_integer_signed starts_value_def split: if_splits)
next
  case (Number_unsigned x)
  then show ?thesis
    using assms(2) number_text_starts [OF number_text_unsigned] by (auto simp: dump_integer_unsigned)
next
  case (Number_float x)
  then show ?thesis
    using assms(2) float_roundtripD [OF assms(1), of x] number_text_starts
    by (cases "isfinite x") (auto simp: starts_value_def)
qed (use assms(2) in \<open>auto simp: starts_value_def bind_res_def split: if_splits sum.splits\<close>)

lemma scan_from_End_array:
  assumes "scan_from strtof c s = (End_array, r)"
  shows "c = CHR '']''"
proof (rule ccontr)
  have lit: "scan_literal ls t s \<noteq> (End_array, r)" if "t \<noteq> End_array" for ls s r and t :: "'a json_token"
    using that by (induction ls t s rule: scan_literal.induct) auto
  have num: "number_token strtof ty buf \<noteq> End_array" for ty buf
    by (cases ty) (auto simp: Let_def)
  assume "c \<noteq> CHR '']''"
  with assms show False
    by (auto simp: scan_number_def num lit split: if_splits option.splits)
qed

lemma starts_value_not_End_array:
  assumes "starts_value t" and "scan strtof (t @ r) = (tok, i)"
  shows "tok \<noteq> End_array"
proof -
  obtain c t' where t: "t = c # t'" and c: "c \<in> {CHR ''['', CHR ''{'', CHR ''t'', CHR ''f'', CHR ''n'', CHR 0x22, CHR ''-''} \<or> isdigit c"
    using assms(1) by (cases t) (auto simp: starts_value_def)
  have "\<not> is_blank c \<and> c \<noteq> CHR '']''" using c by (auto simp: is_blank_def isdigit_def)
  then show ?thesis using assms(2) scan_from_End_array by (fastforce simp: t scan_def)
qed

subsection \<open>Containers\<close>

lemma omap_set_last: "\<forall>k' \<in> set (map fst ms). k' < k \<Longrightarrow> omap_set k v ms = ms @ [(k, v)]"
  by (induction k v ms rule: omap_set.induct) auto

lemma parse_after_element:
  "parse_states strtof isfinite v (CHR '','' # s) (In_array xs # st) = parse_next strtof isfinite s (In_array (xs @ [v]) # st)"
  "parse_states strtof isfinite v (CHR '']'' # s) (In_array xs # st) = parse_states strtof isfinite (Array (xs @ [v])) s st"
  by (simp_all add: parse_next_def)

lemma parse_after_member:
  assumes "\<forall>k' \<in> set (map fst ms). k' < k"
  shows "parse_states strtof isfinite v (CHR '','' # s) (In_object ms k # st) = parse_member strtof isfinite s (ms @ [(k, v)]) st"
    "parse_states strtof isfinite v (CHR ''}'' # s) (In_object ms k # st) = parse_states strtof isfinite (Object (ms @ [(k, v)])) s st"
proof -
  have "omap_set k v ms = ms @ [(k, v)]" using assms by (rule omap_set_last)
  then show "parse_states strtof isfinite v (CHR '','' # s) (In_object ms k # st) = parse_member strtof isfinite s (ms @ [(k, v)]) st"
    "parse_states strtof isfinite v (CHR ''}'' # s) (In_object ms k # st) = parse_states strtof isfinite (Object (ms @ [(k, v)])) s st"
    by (simp_all add: parse_next_def parse_member_def split: prod.split sum.split)
qed

lemma parse_open_array:
  assumes "starts_value t"
  shows "parse_next strtof isfinite (CHR ''['' # t @ r) st = parse_next strtof isfinite (t @ r) (In_array [] # st)"
  using starts_value_not_End_array [OF assms, of strtof r]
  by (cases "scan strtof (t @ r)") (simp add: parse_next_def)

lemma parse_member_key:
  assumes "dump_escaped k = Inr kt"
  shows "parse_member strtof isfinite (CHR 0x22 # kt @ CHR 0x22 # CHR '':'' # s) ms st = parse_next strtof isfinite s (In_object ms k # st)"
  by (simp add: parse_member_def scan_dumped_string [OF assms] parse_key_def)

lemma parse_open_object:
  assumes "dump_escaped k = Inr kt"
  shows "parse_next strtof isfinite (CHR ''{'' # CHR 0x22 # kt @ CHR 0x22 # CHR '':'' # s) st
    = parse_member strtof isfinite (CHR 0x22 # kt @ CHR 0x22 # CHR '':'' # s) [] st"
  by (simp add: parse_member_def scan_dumped_string [OF assms] parse_key_def parse_next_def)

lemma dump_object_key:
  assumes "ms \<noteq> []" and "dump_object to_chars ms = Inr t"
  obtains k kt s where "dump_escaped k = Inr kt" "t = CHR 0x22 # kt @ CHR 0x22 # CHR '':'' # s"
  using assms by (induction ms rule: induct_list012) (auto simp: bind_res_Inr_iff)

lemma starts_value_append: "starts_value t \<Longrightarrow> starts_value (t @ r)"
  by (simp add: starts_value_def)

lemma dump_array_starts:
  assumes "float_roundtrip to_chars strtof isfinite" "xs \<noteq> []" "dump_array to_chars xs = Inr t"
  shows "starts_value t"
  using assms(2,3) dump_starts_value [OF assms(1)]
  by (induction xs rule: induct_list012) (auto simp: bind_res_Inr_iff starts_value_append)

lemma parse_whole_object:
  assumes "ms \<noteq> []" "dump_object to_chars ms = Inr u"
  shows "parse_next strtof isfinite (CHR ''{'' # u @ r) st = parse_member strtof isfinite (u @ r) [] st"
proof -
  obtain k kt s where k: "dump_escaped k = Inr kt" "u = CHR 0x22 # kt @ CHR 0x22 # CHR '':'' # s"
    using assms by (rule dump_object_key)
  show ?thesis by (simp add: k(2) parse_open_object [OF k(1)])
qed

subsection \<open>Values\<close>

text \<open>The parser, at the text \<open>t\<close> before a delimiter, comes to have read the value.\<close>

definition reads_back :: "(string \<Rightarrow> 'f) \<Rightarrow> ('f \<Rightarrow> bool) \<Rightarrow> string \<Rightarrow> 'f json \<Rightarrow> bool" where
  "reads_back strtof isfinite t j \<longleftrightarrow>
     (\<forall>r st. delimited r \<longrightarrow> parse_next strtof isfinite (t @ r) st = parse_states strtof isfinite (reread isfinite j) r st)"

lemma reads_backD:
  "reads_back strtof isfinite t j \<Longrightarrow> delimited r
    \<Longrightarrow> parse_next strtof isfinite (t @ r) st = parse_states strtof isfinite (reread isfinite j) r st"
  by (simp add: reads_back_def)

lemma elements_read_back:
  assumes "\<And>x t. x \<in> set xs \<Longrightarrow> dump to_chars x = Inr t \<Longrightarrow> reads_back strtof isfinite t x"
    and "xs \<noteq> []" and "dump_array to_chars xs = Inr t"
  shows "parse_next strtof isfinite (t @ CHR '']'' # r) (In_array acc # st)
    = parse_states strtof isfinite (Array (acc @ map (reread isfinite) xs)) r st"
  using assms
proof (induction xs arbitrary: t acc rule: induct_list012)
  case (2 x)
  then have "reads_back strtof isfinite t x" by simp
  then show ?case by (simp add: reads_backD)
next
  case (3 x y xs)
  obtain u v where t: "dump to_chars x = Inr u" "dump_array to_chars (y # xs) = Inr v" "t = u @ '','' @ v"
    using 3(5) by (auto simp: bind_res_Inr_iff)
  have "parse_next strtof isfinite (u @ CHR '','' # v @ CHR '']'' # r) (In_array acc # st)
      = parse_next strtof isfinite (v @ CHR '']'' # r) (In_array (acc @ [reread isfinite x]) # st)"
    using reads_backD [OF 3(3) [OF _ t(1)]] by (simp add: parse_next_def)
  also have "\<dots> = parse_states strtof isfinite (Array ((acc @ [reread isfinite x]) @ map (reread isfinite) (y # xs))) r st"
    using 3(3) by (intro 3(2) t(2)) simp_all
  finally show ?case by (simp add: t(3))
qed simp

lemma member_reads_back:
  assumes "dump_member to_chars m = Inr t" and "\<And>t. dump to_chars (snd m) = Inr t \<Longrightarrow> reads_back strtof isfinite t (snd m)"
    and "delimited r"
  shows "parse_member strtof isfinite (t @ r) acc st
    = parse_states strtof isfinite (reread isfinite (snd m)) r (In_object acc (fst m) # st)"
proof -
  obtain kt vt where t: "dump_escaped (fst m) = Inr kt" "dump to_chars (snd m) = Inr vt"
      "t = CHR 0x22 # kt @ CHR 0x22 # CHR '':'' # vt"
    using assms(1) by (cases m) (auto simp: bind_res_Inr_iff)
  show ?thesis
    using reads_backD [OF assms(2) [OF t(2)] assms(3)] by (simp add: t(3) parse_member_key [OF t(1)])
qed

lemma members_read_back:
  assumes "\<And>m t. m \<in> set ms \<Longrightarrow> dump to_chars (snd m) = Inr t \<Longrightarrow> reads_back strtof isfinite t (snd m)"
    and "ms \<noteq> []" and "dump_object to_chars ms = Inr t" and "sorted_wrt (<) (map fst (acc @ ms))"
  shows "parse_member strtof isfinite (t @ CHR ''}'' # r) acc st
    = parse_states strtof isfinite (Object (acc @ map (\<lambda>m. (fst m, reread isfinite (snd m))) ms)) r st"
  using assms
proof (induction ms arbitrary: t acc rule: induct_list012)
  case (2 m)
  have "\<forall>k' \<in> set (map fst acc). k' < fst m" using 2(4) by (simp add: sorted_wrt_append)
  then show ?case using 2(1,3) by (simp add: member_reads_back parse_after_member [simplified])
next
  case (3 m n ms)
  obtain u v where t: "dump_member to_chars m = Inr u" "dump_object to_chars (n # ms) = Inr v" "t = u @ '','' @ v"
    using 3(5) by (auto simp: bind_res_Inr_iff)
  have less: "\<forall>k' \<in> set (map fst acc). k' < fst m" using 3(6) by (simp add: sorted_wrt_append)
  have "parse_member strtof isfinite (u @ CHR '','' # v @ CHR ''}'' # r) acc st
      = parse_states strtof isfinite (reread isfinite (snd m)) (CHR '','' # v @ CHR ''}'' # r) (In_object acc (fst m) # st)"
    using 3(3) by (intro member_reads_back [OF t(1)]) simp_all
  also have "\<dots> = parse_member strtof isfinite (v @ CHR ''}'' # r) (acc @ [(fst m, reread isfinite (snd m))]) st"
    by (rule parse_after_member [OF less])
  also have "\<dots> = parse_states strtof isfinite (Object ((acc @ [(fst m, reread isfinite (snd m))])
      @ map (\<lambda>m. (fst m, reread isfinite (snd m))) (n # ms))) r st"
    using 3(3,6) by (intro 3(2) t(2)) (simp_all add: sorted_wrt_append)
  finally show ?case by (simp add: t(3))
qed simp

lemma array_reads_back:
  assumes "\<And>x t. x \<in> set xs \<Longrightarrow> dump to_chars x = Inr t \<Longrightarrow> reads_back strtof isfinite t x"
    and "dump to_chars (Array xs) = Inr t" and "float_roundtrip to_chars strtof isfinite"
  shows "reads_back strtof isfinite t (Array xs)"
proof (cases "xs = []")
  case True
  then show ?thesis using assms(2) by (auto simp: reads_back_def parse_next_def)
next
  case False
  then obtain u where u: "dump_array to_chars xs = Inr u" "t = CHR ''['' # u @ '']''"
    using assms(2) by (auto simp: bind_res_Inr_iff)
  have "starts_value u" using assms(3) False u(1) by (rule dump_array_starts)
  then show ?thesis
    using elements_read_back [OF assms(1) False u(1)] by (simp add: reads_back_def u(2) parse_open_array)
qed

lemma object_reads_back:
  assumes "\<And>m t. m \<in> set ms \<Longrightarrow> dump to_chars (snd m) = Inr t \<Longrightarrow> reads_back strtof isfinite t (snd m)"
    and "dump to_chars (Object ms) = Inr t" and "omap_ok ms"
  shows "reads_back strtof isfinite t (Object ms)"
proof (cases "ms = []")
  case True
  then show ?thesis using assms(2) by (auto simp: reads_back_def parse_next_def)
next
  case False
  then obtain u where u: "dump_object to_chars ms = Inr u" "t = CHR ''{'' # u @ ''}''"
    using assms(2) by (auto simp: bind_res_Inr_iff)
  have "sorted_wrt (<) (map fst ([] @ ms))" using assms(3) by (simp add: omap_ok_def)
  from members_read_back [OF assms(1) False u(1) this] show ?thesis
    by (simp add: reads_back_def u(2) parse_whole_object [OF False u(1)])
qed

lemma dumped_reads_back:
  assumes "float_roundtrip to_chars strtof isfinite"
  shows "dump to_chars j = Inr t \<Longrightarrow> json_ok j \<Longrightarrow> reads_back strtof isfinite t j"
proof (induction j arbitrary: t)
  case (Number_float x)
  then show ?case
    using float_roundtripD [OF assms, of x]
    by (cases "isfinite x") (auto simp: reads_back_def parse_next_def scan_float)
next
  case (Array xs)
  then show ?case using assms by (intro array_reads_back) auto
next
  case (Object ms)
  have "reads_back strtof isfinite t (snd m)" if "m \<in> set ms" "dump to_chars (snd m) = Inr t" for m t
    using that Object.prems(2) by (intro Object.IH) (auto intro: snds.intros)
  then show ?case using Object.prems by (intro object_reads_back) auto
qed (auto simp: reads_back_def parse_next_def bind_res_Inr_iff scan_dumped_string scan_signed scan_unsigned)

lemma reread_dump:
  assumes "float_roundtrip to_chars strtof isfinite"
  shows "dump to_chars (reread isfinite j) = dump to_chars j"
    and "dump_array to_chars (map (reread isfinite) xs) = dump_array to_chars xs"
    and "dump_object to_chars (map (\<lambda>m. (fst m, reread isfinite (snd m))) ms) = dump_object to_chars ms"
    and "dump_member to_chars (fst m, reread isfinite (snd m)) = dump_member to_chars m"
  using assms
proof (induction to_chars j and to_chars xs and to_chars ms and to_chars m
    rule: dump_dump_array_dump_object_dump_member.induct)
  case (5 to_chars x)
  then show ?case by (simp add: dump_integer_signed dump_integer_unsigned unat_sint_pos)
next
  case (7 to_chars x)
  then show ?case by (simp add: float_roundtripD)
qed (simp_all cong: bind_res_cong)

lemma starts_value_no_bom: "starts_value t \<Longrightarrow> skip_bom (t @ r) = Some (t @ r)"
  by (cases t) (auto simp: starts_value_def skip_bom_def isdigit_def)

lemma parse_dump:
  assumes "float_roundtrip to_chars strtof isfinite" and "json_ok j" and "dump to_chars j = Inr t"
  shows "parse strtof isfinite t = Inr (reread isfinite j)"
proof -
  have "parse_next strtof isfinite (t @ []) [] = Inr (reread isfinite j, [])"
    using reads_backD [OF dumped_reads_back [OF assms(1,3,2)], of "[]" "[]"] by simp
  moreover have "skip_bom (t @ []) = Some (t @ [])"
    using dump_starts_value [OF assms(1,3)] by (rule starts_value_no_bom)
  ultimately show ?thesis
    by (auto simp: parse_def scan_first_def parse_next_def scan_def split: prod.splits)
qed

lemma reread_ok: "json_ok j \<Longrightarrow> json_ok (reread isfinite j)"
  by (induction j rule: json_ok.induct) (auto simp: omap_ok_def comp_def)

text \<open>
  The texts of JSON values are a codec, where the conversions of floating-point numbers keep
  their promise.
\<close>

interpretation json_text: text_codec "dump to_chars" "parse strtof isfinite"
  "\<lambda>j. float_roundtrip to_chars strtof isfinite \<and> json_ok j" "reread isfinite" for to_chars strtof isfinite
  by unfold_locales (auto simp: parse_dump reread_dump(1) reread_ok)

text \<open>Values with the same text differ at most in the type of a number and in what is not finite.\<close>

lemma dump_inject:
  assumes "float_roundtrip to_chars strtof isfinite" "json_ok i" "json_ok j"
    and "dump to_chars i = Inr t" "dump to_chars j = Inr t"
  shows "reread isfinite i = reread isfinite j"
  using json_text.write_inject [of to_chars strtof isfinite i j t] assms by blast

section \<open>What the parser accepts is well-formed\<close>

fun wf_json :: "'f json \<Rightarrow> bool" where
  "wf_json (String s) = utf8_string s"
| "wf_json (Array xs) = (\<forall>x \<in> set xs. wf_json x)"
| "wf_json (Object ms) = (omap_ok ms \<and> (\<forall>m \<in> set ms. utf8_string (fst m) \<and> wf_json (snd m)))"
| "wf_json _ = True"

fun wf_open :: "'f open_value \<Rightarrow> bool" where
  "wf_open (In_array xs) = wf_json (Array xs)"
| "wf_open (In_object ms k) = (wf_json (Object ms) \<and> utf8_string k)"

fun wf_token :: "'f json_token \<Rightarrow> bool" where
  "wf_token (Value_string s) = utf8_string s"
| "wf_token _ = True"

lemma wf_json_ok: "wf_json j \<Longrightarrow> json_ok j"
  by (induction j rule: json_ok.induct) auto

lemma utf8_string_dumped: "utf8_string s \<Longrightarrow> \<exists>t. dump_escaped s = Inr t"
  unfolding dump_escaped_scalars utf8_string_def by blast

lemma wf_json_dumped:
  shows "wf_json j \<Longrightarrow> \<exists>t. dump to_chars j = Inr t"
    and "list_all wf_json xs \<Longrightarrow> \<exists>t. dump_array to_chars xs = Inr t"
    and "list_all (\<lambda>m. utf8_string (fst m) \<and> wf_json (snd m)) ms \<Longrightarrow> \<exists>t. dump_object to_chars ms = Inr t"
    and "utf8_string (fst m) \<Longrightarrow> wf_json (snd m) \<Longrightarrow> \<exists>t. dump_member to_chars m = Inr t"
  by (induction to_chars j and to_chars xs and to_chars ms and to_chars m
      rule: dump_dump_array_dump_object_dump_member.induct)
    (auto simp: list_all_iff bind_res_Inr_iff dest!: utf8_string_dumped)

lemma wf_omap_set:
  assumes "wf_json (Object ms)" "utf8_string k" "wf_json v"
  shows "wf_json (Object (omap_set k v ms))"
proof -
  have "set (omap_set k v ms) \<subseteq> insert (k, v) (set ms)" by (induction k v ms rule: omap_set.induct) auto
  then show ?thesis using assms omap_ok_set [of ms k v] by fastforce
qed

lemma wf_end_container: "wf_open c \<Longrightarrow> wf_json v \<Longrightarrow> wf_json (end_container (handle_value v c)) \<and> wf_open (handle_value v c)"
proof (cases c)
  case (In_object ms k)
  assume "wf_open c" "wf_json v"
  then have "wf_json (Object (omap_set k v ms))" "utf8_string k" using In_object wf_omap_set by auto
  then show ?thesis by (simp add: In_object)
qed auto

lemma scan_literal_wf: "wf_token t \<Longrightarrow> scan_literal ls t s = (t', r) \<Longrightarrow> wf_token t'"
  by (induction ls t s rule: scan_literal.induct) (auto split: if_splits)

lemma number_token_wf: "wf_token (number_token strtof ty buf)"
  by (cases ty) (simp_all add: Let_def)

lemma scan_wf: "scan strtof s = (t, r) \<Longrightarrow> wf_token t"
proof (cases "dropWhile is_blank s")
  case Nil
  then show "scan strtof s = (t, r) \<Longrightarrow> wf_token t" by (auto simp: scan_def)
next
  case (Cons c u)
  assume "scan strtof s = (t, r)"
  then have "scan_from strtof c u = (t, r)" by (simp add: scan_def Cons)
  then show ?thesis
    by (auto simp: scan_number_def number_token_wf scan_string_utf8 [OF _ utf8_string_Nil]
        dest: scan_literal_wf [rotated] split: if_splits option.splits)
qed

lemma parse_key_wf: "parse_key strtof t s = Inr (k, s') \<Longrightarrow> scan strtof s0 = (t, s) \<Longrightarrow> utf8_string k"
  by (drule scan_wf, cases t) (auto simp: parse_key_def split: prod.splits if_splits)

lemma parse_wf:
  shows "parse_value strtof isfinite t s st = Inr (v, r) \<Longrightarrow> wf_token t \<Longrightarrow> list_all wf_open st \<Longrightarrow> wf_json v"
    and "parse_states strtof isfinite j s st = Inr (v, r) \<Longrightarrow> wf_json j \<Longrightarrow> list_all wf_open st \<Longrightarrow> wf_json v"
proof (induction strtof isfinite t s st and strtof isfinite j s st rule: parse_value_parse_states.induct)
  case (1 strtof isfinite s st)
  then show ?case
    by (auto simp: omap_ok_def split: prod.splits sum.splits if_splits) (metis scan_wf parse_key_wf)
next
  case (12 strtof isfinite v s xs st)
  then show ?case
    using wf_end_container [of "In_array xs" v]
    by (auto split: prod.splits if_splits intro: scan_wf)
next
  case (13 strtof isfinite v s ms k st)
  then show ?case
    using wf_end_container [of "In_object ms k" v]
    by (auto split: prod.splits sum.splits if_splits) (metis scan_wf parse_key_wf)+
qed (auto split: prod.splits if_splits intro: scan_wf)

lemma parse_key_errors: "parse_key strtof t s = Inl e \<Longrightarrow> e = Parse_error 101"
  by (cases t) (auto simp: parse_key_def split: prod.splits if_splits)

lemma parse_errors:
  shows "parse_value strtof isfinite t s st = Inl e \<Longrightarrow> e = Parse_error 101 \<or> e = Json_out_of_range 406"
    and "parse_states strtof isfinite j s st = Inl e \<Longrightarrow> e = Parse_error 101 \<or> e = Json_out_of_range 406"
proof (induction strtof isfinite t s st and strtof isfinite j s st rule: parse_value_parse_states.induct)
  case (1 strtof isfinite s st)
  then show ?case by (auto split: prod.splits sum.splits if_splits dest: parse_key_errors)
next
  case (13 strtof isfinite v s ms k st)
  then show ?case by (auto split: prod.splits sum.splits if_splits dest: parse_key_errors)
qed (auto split: prod.splits if_splits)

section \<open>Texts and values\<close>

text \<open>
  C11: The text of a JSON value, whatever its nesting, is accepted by the parser, which consumes
  all of it and returns the value that was written: strings and keys byte for byte, integers
  of both types over their whole range, members in order. A non-negative signed integer comes
  back as unsigned, and a floating-point number that is not finite as null; writing what was
  read gives the same text again.
\<close>

theorem json_text_roundtrip:
  assumes "float_roundtrip to_chars strtof isfinite" and "json_ok j" and "dump to_chars j = Inr t"
  shows "parse strtof isfinite t = Inr (reread isfinite j) \<and> dump to_chars (reread isfinite j) = Inr t"
  using json_text.read_write [of to_chars strtof isfinite j t] json_text.write_normal [of to_chars strtof isfinite j] assms by simp

theorem json_text_roundtrip_witness:
  "dump (\<lambda>b. if b then ''1.5'' else ''null'')
      (Object [(''a'', Array [Number_integer 5, Number_integer (- 3), Number_float True, Number_float False]), (''b'', String [CHR 0x22])])
     = Inr ([CHR ''{'', CHR 0x22, CHR ''a'', CHR 0x22, CHR '':''] @ ''[5,-3,1.5,null],''
         @ [CHR 0x22, CHR ''b'', CHR 0x22, CHR '':'', CHR 0x22, CHR 0x5C, CHR 0x22, CHR 0x22, CHR ''}'']) \<and>
   parse (\<lambda>s. True) (\<lambda>b. b)
      ([CHR ''{'', CHR 0x22, CHR ''a'', CHR 0x22, CHR '':''] @ ''[5,-3,1.5,null],''
         @ [CHR 0x22, CHR ''b'', CHR 0x22, CHR '':'', CHR 0x22, CHR 0x5C, CHR 0x22, CHR 0x22, CHR ''}''])
     = Inr (Object [(''a'', Array [Number_unsigned 5, Number_integer (- 3), Number_float True, Null]), (''b'', String [CHR 0x22])])"
  (is "dump ?f ?j = Inr ?t \<and> _ = Inr ?v")
proof -
  have "dump ?f ?j = Inr ?t" by code_simp
  moreover have "float_roundtrip ?f (\<lambda>s. True) (\<lambda>b. b)"
    by (simp add: float_roundtrip_def number_text_def isdigit_def number_accepts_def)
  moreover have "json_ok ?j" "reread (\<lambda>b. b) ?j = ?v" by code_simp+
  ultimately show ?thesis using json_text_roundtrip [of ?f "\<lambda>s. True" "\<lambda>b. b" ?j ?t] by simp
qed

text \<open>
  C12: Whatever bytes a column holds, the parser ends with a value or with one of two exceptions,
  \<open>parse_error\<close> 101 and \<open>out_of_range\<close> 406 for a number that is too large. A value that it accepts
  is well-formed: every string and key is UTF-8, also where it was given by escapes or surrogate
  pairs, and the members of every object are in the order of the keys without duplicates. So
  the serializer writes it without an exception, and the text is accepted again.
\<close>

theorem parse_accepts_writable:
  assumes "float_roundtrip to_chars strtof isfinite"
  shows "case parse strtof isfinite s of
      Inl e \<Rightarrow> e = Parse_error 101 \<or> e = Json_out_of_range 406
    | Inr v \<Rightarrow> json_ok v \<and> (\<exists>t. dump to_chars v = Inr t \<and> parse strtof isfinite t = Inr (reread isfinite v))"
proof (cases "parse strtof isfinite s")
  case (Inl e)
  then show ?thesis
    by (auto simp: parse_def scan_first_def split: prod.splits sum.splits if_splits option.splits dest: parse_errors(1))
next
  case (Inr v)
  then have "wf_json v"
    by (auto simp: parse_def scan_first_def split: prod.splits sum.splits if_splits option.splits
        intro: parse_wf(1) scan_wf)
  then show ?thesis using Inr wf_json_ok wf_json_dumped(1) parse_dump [OF assms] by fastforce
qed

theorem parse_accepts_writable_witness:
  "\<exists>t. parse (\<lambda>s. True) (\<lambda>b. b) ('' [-0, '' @ [CHR 0x22, CHR 0x5C] @ ''ud83d'' @ [CHR 0x5C] @ ''ude00'' @ [CHR 0x22] @ ''] '')
       = Inr (Array [Number_integer 0, String [CHR 0xF0, CHR 0x9F, CHR 0x98, CHR 0x80]])
     \<and> dump (\<lambda>b. if b then ''1.5'' else ''null'') (Array [Number_integer 0, String [CHR 0xF0, CHR 0x9F, CHR 0x98, CHR 0x80]]) = Inr t"
  (is "\<exists>t. parse ?s ?i ?text = Inr ?v \<and> dump ?f ?v = Inr t")
proof -
  have "parse ?s ?i ?text = Inr ?v"
    by (simp add: parse_def scan_first_def skip_bom_def scan_def is_blank_def scan_number_def number_accepts_def isdigit_def
        is_e_def scan_unicode_def get_codepoint_def hex_value_def codepoint_bytes_def push_bit_eq_mult drop_bit_eq_div)
      code_simp
  moreover have "float_roundtrip ?f ?s ?i"
    by (simp add: float_roundtrip_def number_text_def isdigit_def number_accepts_def)
  ultimately show ?thesis using parse_accepts_writable [of ?f ?s ?i ?text] by auto
qed

end
