(* ===== verification/Json_Sql.thy ===== *)
theory Json_Sql
  imports Json_Value
begin

text \<open>
  The SQL text generator \<open>db/json2sql.h\<close> and \<open>db/json2sql.cpp\<close>: SQL literals of JSON values,
  lists for \<open>in\<close>, and the update, insert and upsert statements of a JSON object. A function
  that can throw, or that steps outside a container, returns \<^const>\<open>Inl\<close>.

  The lemmas show the exact text of each statement and when each exception is thrown, that
  the overloads agree, that a quote-free string becomes exactly one SQL literal (and one with
  a quote does not), and what the array and assignment helpers compute.
\<close>

section \<open>Values and lists\<close>

definition value_to_sql_str :: "('f \<Rightarrow> string) \<Rightarrow> 'f json \<Rightarrow> json_error + string" where
  "value_to_sql_str to_chars v =
     (if is_null v then Inr ''null''
      else if is_number v \<or> is_boolean v \<or> is_null v then dump to_chars v
      else if is_string v then bind_res (get_string v) (\<lambda>s. Inr ([CHR 0x27] @ s @ [CHR 0x27]))
      else if is_array v then
        bind_res (dump to_chars v) (\<lambda>tmp.
          let tmp = tmp[0 := CHR ''{'']; tmp = tmp[length tmp - 1 := CHR ''}'']
          in Inr ([CHR 0x27] @ tmp @ [CHR 0x27]))
      else if is_structured v then bind_res (dump to_chars v) (\<lambda>t. Inr ([CHR 0x27] @ t @ [CHR 0x27]))
      else dump to_chars v)"

definition replace_all :: "char \<Rightarrow> char \<Rightarrow> string \<Rightarrow> string" where
  "replace_all a b s = map (\<lambda>c. if c = a then b else c) s"

definition arr_to_sql_in_arr :: "('f \<Rightarrow> string) \<Rightarrow> 'f json \<Rightarrow> json_error + string" where
  "arr_to_sql_in_arr to_chars arr =
     bind_res (dump to_chars arr) (\<lambda>str.
       let str = str[0 := CHR ''('']; str = str[length str - 1 := CHR '')'']
       in Inr (replace_all (CHR 0x22) (CHR 0x27) str))"

text \<open>
  \<open>boost::split\<close> with \<open>token_compress_on\<close>: the token finder returns the first run of
  delimiters; the iterator yields what lies before it and goes on after it, and yields a last
  token at the end of the input.
\<close>

definition is_any_of :: "string \<Rightarrow> char \<Rightarrow> bool" where
  "is_any_of ds c \<longleftrightarrow> c \<in> set ds"

definition token_finder :: "(char \<Rightarrow> bool) \<Rightarrow> string \<Rightarrow> string \<times> string" where
  "token_finder P s = (let it = scan_until P s; it2 = dropWhile P it in (it, it2))"

function split_tokens :: "(char \<Rightarrow> bool) \<Rightarrow> string \<Rightarrow> string list" where
  "split_tokens P s =
     (let (it, it2) = token_finder P s
      in if it = [] then [s] else ptr_range s it # split_tokens P it2)"
  by pat_completeness auto
termination
proof (relation "measure (length \<circ> snd)")
  fix P :: "char \<Rightarrow> bool" and s :: string and x xa y
  assume x: "x = token_finder P s" and xa: "(xa, y) = x" and ne: "xa \<noteq> []"
  have e: "xa = dropWhile (\<lambda>c. \<not> P c) s" "y = dropWhile P xa"
    using x xa by (simp_all add: token_finder_def Let_def scan_until_dropWhile)
  then obtain c cs where c: "xa = c # cs" "P c" using ne by (metis dropWhile_head list.exhaust)
  have "length y \<le> length cs" using e(2) c by (simp add: length_dropWhile_le)
  moreover have "length xa \<le> length s" using e(1) by (simp add: length_dropWhile_le)
  ultimately show "((P, y), (P, s)) \<in> measure (length \<circ> snd)" using c by simp
qed simp

declare split_tokens.simps [simp del]

definition comma_arr_to_sql_in_arr :: "string \<Rightarrow> bool \<Rightarrow> string" where
  "comma_arr_to_sql_in_arr str is_text =
     (let arr = split_tokens (is_any_of '' ,'') str;
          arr = (if is_text then map (\<lambda>s. [CHR 0x27] @ s @ [CHR 0x27]) arr else arr)
      in ''('' @ join '','' arr @ '')'')"

section \<open>Statements\<close>

text \<open>
  The loop over a range that writes a separator after every element but the last.
\<close>

fun emit_loop :: "string \<Rightarrow> ('a \<Rightarrow> json_error + string) \<Rightarrow> 'a list \<Rightarrow> json_error + string" where
  "emit_loop sep f [] = Inr []"
| "emit_loop sep f [x] = f x"
| "emit_loop sep f (x # y # zs) =
     bind_res (f x) (\<lambda>t. bind_res (emit_loop sep f (y # zs)) (\<lambda>u. Inr (t @ sep @ u)))"

definition emit_assignment :: "('f \<Rightarrow> string) \<Rightarrow> string option \<times> 'f json \<Rightarrow> json_error + string" where
  "emit_assignment to_chars it =
     bind_res (iter_key it) (\<lambda>k. bind_res (value_to_sql_str to_chars (iter_value it)) (\<lambda>v. Inr (k @ ''='' @ v)))"

definition emit_excluded :: "string option \<times> 'f json \<Rightarrow> json_error + string" where
  "emit_excluded it =
     bind_res (iter_key it) (\<lambda>k. bind_res (iter_key it) (\<lambda>k'. Inr (k @ ''=EXCLUDED.'' @ k')))"

text \<open>\<open>--last\<close> on the end of a \<open>std::vector\<close> or a \<open>std::map\<close>.\<close>

definition last_of :: "'a list \<Rightarrow> json_error + unit" where
  "last_of xs = (if xs = [] then Inl Undefined_behaviour else Inr ())"

definition obj_to_update_sql_str :: "('f \<Rightarrow> string) \<Rightarrow> 'f json \<Rightarrow> string \<Rightarrow> string \<Rightarrow> string \<Rightarrow> json_error + string" where
  "obj_to_update_sql_str to_chars obj key_where value_where tbl_name =
     (if empty obj then Inr []
      else bind_res (end_minus_one obj) (\<lambda>_.
           bind_res (emit_loop '','' (emit_assignment to_chars) (items obj)) (\<lambda>sets.
           Inr (''update '' @ tbl_name @ '' set '' @ sets @ '' where '' @ key_where @ ''='' @ [CHR 0x27] @ value_where @ [CHR 0x27]))))"

definition obj_to_update_map_sql_str :: "('f \<Rightarrow> string) \<Rightarrow> 'f json \<Rightarrow> (string \<times> string) list \<Rightarrow> string \<Rightarrow> json_error + string" where
  "obj_to_update_map_sql_str to_chars obj key_value_wheres tbl_name =
     (if empty obj then Inr []
      else bind_res (end_minus_one obj) (\<lambda>_.
           bind_res (emit_loop '','' (emit_assignment to_chars) (items obj)) (\<lambda>sets.
           bind_res (last_of key_value_wheres) (\<lambda>_.
           bind_res (emit_loop '' and '' (\<lambda>(k, v). Inr (k @ ''='' @ [CHR 0x27] @ v @ [CHR 0x27])) key_value_wheres) (\<lambda>wheres.
           Inr (''update '' @ tbl_name @ '' set '' @ sets @ '' where '' @ wheres))))))"

definition obj_to_update_json_sql_str :: "('f \<Rightarrow> string) \<Rightarrow> 'f json \<Rightarrow> 'f json \<Rightarrow> string \<Rightarrow> json_error + string" where
  "obj_to_update_json_sql_str to_chars obj key_value_wheres tbl_name =
     (if empty obj then Inr []
      else bind_res (end_minus_one obj) (\<lambda>_.
           bind_res (emit_loop '','' (emit_assignment to_chars) (items obj)) (\<lambda>sets.
           bind_res (end_minus_one key_value_wheres) (\<lambda>_.
           bind_res (emit_loop '' and '' (emit_assignment to_chars) (items key_value_wheres)) (\<lambda>wheres.
           Inr (''update '' @ tbl_name @ '' set '' @ sets @ '' where '' @ wheres))))))"

text \<open>The common beginning of the insert and upsert statements, up to the last value.\<close>

definition insert_prefix :: "('f \<Rightarrow> string) \<Rightarrow> 'f json \<Rightarrow> string \<Rightarrow> json_error + string" where
  "insert_prefix to_chars obj tbl_name =
     bind_res (end_minus_one obj) (\<lambda>_.
     bind_res (emit_loop '','' iter_key (items obj)) (\<lambda>cols.
     bind_res (emit_loop '','' (\<lambda>it. value_to_sql_str to_chars (iter_value it)) (items obj)) (\<lambda>vals.
     Inr (''insert into '' @ tbl_name @ ''('' @ cols @ '') values('' @ vals))))"

definition obj_to_insert_sql_str :: "('f \<Rightarrow> string) \<Rightarrow> 'f json \<Rightarrow> string \<Rightarrow> json_error + string" where
  "obj_to_insert_sql_str to_chars obj tbl_name =
     (if empty obj then Inr []
      else bind_res (insert_prefix to_chars obj tbl_name) (\<lambda>p. Inr (p @ '')'')))"

definition obj_to_upsert_update2_sql_str ::
  "('f \<Rightarrow> string) \<Rightarrow> 'f json \<Rightarrow> string \<Rightarrow> string \<Rightarrow> string \<Rightarrow> string \<Rightarrow> json_error + string" where
  "obj_to_upsert_update2_sql_str to_chars obj key_where1 key_where2 except_key tbl_name =
     (if empty obj then Inr []
      else bind_res (insert_prefix to_chars obj tbl_name) (\<lambda>p.
           bind_res (erase_key except_key obj) (\<lambda>obj_cp.
           bind_res (end_minus_one obj_cp) (\<lambda>_.
           bind_res (emit_loop '','' emit_excluded (items obj_cp)) (\<lambda>sets.
           Inr (p @ '') on conflict('' @ key_where1 @ '','' @ key_where2 @ '') do update  set '' @ sets))))))"

definition obj_to_upsert_update3_sql_str ::
  "('f \<Rightarrow> string) \<Rightarrow> 'f json \<Rightarrow> string \<Rightarrow> string \<Rightarrow> string \<Rightarrow> string \<Rightarrow> string \<Rightarrow> json_error + string" where
  "obj_to_upsert_update3_sql_str to_chars obj key_where1 key_where2 key_where3 except_key tbl_name =
     (if empty obj then Inr []
      else bind_res (insert_prefix to_chars obj tbl_name) (\<lambda>p.
           bind_res (erase_key except_key obj) (\<lambda>obj_cp.
           bind_res (end_minus_one obj_cp) (\<lambda>_.
           bind_res (emit_loop '','' emit_excluded (items obj_cp)) (\<lambda>sets.
           Inr (p @ '') on conflict('' @ key_where1 @ '','' @ key_where2 @ '','' @ key_where3 @ '') do update  set '' @ sets))))))"

definition obj_to_upsert_update_sql_str ::
  "('f \<Rightarrow> string) \<Rightarrow> 'f json \<Rightarrow> string list \<Rightarrow> string \<Rightarrow> string \<Rightarrow> json_error + string" where
  "obj_to_upsert_update_sql_str to_chars obj key_wheres except_key tbl_name =
     (if empty obj then Inr []
      else bind_res (insert_prefix to_chars obj tbl_name) (\<lambda>p.
           bind_res (erase_key except_key obj) (\<lambda>obj_cp.
           bind_res (end_minus_one obj_cp) (\<lambda>_.
           bind_res (last_of key_wheres) (\<lambda>_.
           bind_res (emit_loop '','' Inr key_wheres) (\<lambda>key_arr.
           bind_res (emit_loop '','' emit_excluded (items obj_cp)) (\<lambda>sets.
           Inr (p @ '') on conflict('' @ key_arr @ '') do update set '' @ sets))))))))"

definition obj_to_upsert_nothing_sql_str ::
  "('f \<Rightarrow> string) \<Rightarrow> 'f json \<Rightarrow> string list \<Rightarrow> string \<Rightarrow> json_error + string" where
  "obj_to_upsert_nothing_sql_str to_chars obj key_wheres tbl_name =
     (if empty obj then Inr []
      else bind_res (insert_prefix to_chars obj tbl_name) (\<lambda>p.
           bind_res (last_of key_wheres) (\<lambda>_.
           bind_res (emit_loop '','' Inr key_wheres) (\<lambda>key_arr.
           Inr (p @ '') on conflict('' @ key_arr @ '') do nothing '')))))"

section \<open>Array difference and assignment\<close>

text \<open>
  The template parameter \<open>T\<close> of \<open>select_not_in_array\<close> appears as the conversion \<open>get\<close> of a
  JSON value to \<open>T\<close>, which may throw, and the conversion \<open>to_json\<close> back.
\<close>

fun find_in_array :: "('f json \<Rightarrow> json_error + 't) \<Rightarrow> string \<Rightarrow> 't \<Rightarrow> 'f json list \<Rightarrow> json_error + bool" where
  "find_in_array get key from_v [] = Inr False"
| "find_in_array get key from_v (in_value # rest) =
     bind_res (at_key in_value key) (\<lambda>x. bind_res (get x) (\<lambda>in_v.
       if from_v = in_v then Inr True else find_in_array get key from_v rest))"

fun select_loop ::
  "('f json \<Rightarrow> json_error + 't) \<Rightarrow> ('t \<Rightarrow> 'f json) \<Rightarrow> string \<Rightarrow> 'f json list \<Rightarrow> 'f json list \<Rightarrow> 'f json \<Rightarrow> json_error + 'f json"
where
  "select_loop get to_json key in_values [] res = Inr res"
| "select_loop get to_json key in_values (from_value # rest) res =
     bind_res (at_key from_value key) (\<lambda>x. bind_res (get x) (\<lambda>from_v.
     bind_res (find_in_array get key from_v in_values) (\<lambda>found.
     bind_res (if found then Inr res else push_back res (to_json from_v)) (\<lambda>res'.
       select_loop get to_json key in_values rest res'))))"

definition select_not_in_array ::
  "('f json \<Rightarrow> json_error + 't) \<Rightarrow> ('t \<Rightarrow> 'f json) \<Rightarrow> 'f json \<Rightarrow> 'f json \<Rightarrow> string \<Rightarrow> json_error + 'f json" where
  "select_not_in_array get to_json from_arr in_arr key =
     select_loop get to_json key (map iter_value (items in_arr)) (map iter_value (items from_arr)) (Array [])"

fun assign_json_value :: "'f json \<Rightarrow> 'f json \<Rightarrow> string list \<Rightarrow> json_error + 'f json" where
  "assign_json_value assgin_json obj [] = Inr assgin_json"
| "assign_json_value assgin_json obj (key # keys) =
     (case find_key obj key of
        None \<Rightarrow> assign_json_value assgin_json obj keys
      | Some v \<Rightarrow> bind_res (assign_key assgin_json key v) (\<lambda>j. assign_json_value j obj keys))"

section \<open>The text of the statements\<close>

text \<open>Every element converted in order, stopping at the first exception.\<close>

fun map_res :: "('a \<Rightarrow> 'e + 'b) \<Rightarrow> 'a list \<Rightarrow> 'e + 'b list" where
  "map_res f [] = Inr []"
| "map_res f (x # xs) = bind_res (f x) (\<lambda>y. bind_res (map_res f xs) (\<lambda>ys. Inr (y # ys)))"

lemma map_res_Inr_iff: "map_res f xs = Inr ys \<longleftrightarrow> list_all2 (\<lambda>x y. f x = Inr y) xs ys"
  by (induction xs arbitrary: ys) (auto simp: exn_simps list_all2_Cons1)

lemma map_res_map: "map_res f (map g xs) = map_res (\<lambda>x. f (g x)) xs"
  by (induction xs) auto

lemma map_res_total: "map_res (\<lambda>x. Inr (g x)) xs = Inr (map g xs)"
  by (induction xs) auto

lemma emit_loop_join: "emit_loop sep f xs = bind_res (map_res f xs) (\<lambda>ts. Inr (join sep ts))"
proof (induction sep f xs rule: emit_loop.induct)
  case (2 sep f x)
  then show ?case by (cases "f x") auto
next
  case (3 sep f x y zs)
  show ?case
  proof (cases "map_res f (y # zs)")
    case (Inr ts)
    then have "ts \<noteq> []" by (auto simp: exn_simps)
    with 3 Inr show ?thesis by (cases "f x") (simp_all add: join_Cons)
  qed (use 3 in \<open>cases "f x"; simp\<close>)
qed simp

lemma emit_loop_total: "emit_loop sep (\<lambda>x. Inr (g x)) xs = Inr (join sep (map g xs))"
  by (simp add: emit_loop_join map_res_total)

lemma emit_assignments_object:
  "emit_loop sep (emit_assignment to_chars) (items (Object ms)) =
   bind_res (map_res (\<lambda>(k, v). bind_res (value_to_sql_str to_chars v) (\<lambda>t. Inr (k @ ''='' @ t))) ms) (\<lambda>ts. Inr (join sep ts))"
  by (simp add: emit_loop_join map_res_map emit_assignment_def iter_key_def iter_value_def case_prod_unfold)

lemma keyed_loop_throws:
  assumes "\<not> empty obj" and "\<not> is_object obj" and "\<And>it. fst it = None \<Longrightarrow> f it = Inl (Invalid_iterator 207)"
  shows "emit_loop sep f (items obj) = Inl (Invalid_iterator 207)"
proof -
  obtain v rest where "items obj = (None, v) # rest"
    using assms(1,2) by (cases obj) (auto simp: neq_Nil_conv)
  then show ?thesis using assms(3) by (simp add: emit_loop_join)
qed

lemma emit_key_none [simp]:
  "fst it = None \<Longrightarrow> emit_assignment to_chars it = Inl (Invalid_iterator 207)"
  "fst it = None \<Longrightarrow> iter_key it = Inl (Invalid_iterator 207)"
  by (simp_all add: emit_assignment_def iter_key_def)

lemma loops_throw:
  assumes "\<not> empty obj" and "\<not> is_object obj"
  shows "emit_loop sep (emit_assignment to_chars) (items obj) = Inl (Invalid_iterator 207)"
    and "emit_loop sep iter_key (items obj) = Inl (Invalid_iterator 207)"
  using assms by (auto intro: keyed_loop_throws)

lemma end_minus_one_nonempty [simp]: "\<not> empty obj \<Longrightarrow> end_minus_one obj = Inr ()"
  by (simp add: end_minus_one_def)

text \<open>
  C29: The update statement with a map of conditions. An empty value gives the empty text; a
  value that is not an object throws invalid_iterator 207; the first member whose literal
  cannot be written throws its exception; an empty map of conditions decrements the end of
  an empty map; otherwise the text is the list of assignments and the conjunction of the
  conditions, in key order, none lost and no separator at the end.
\<close>

theorem obj_to_update_map_text:
  "obj_to_update_map_sql_str to_chars obj wheres tbl =
   (if empty obj then Inr []
    else case obj of
      Object ms \<Rightarrow>
        bind_res (map_res (\<lambda>(k, v). value_to_sql_str to_chars v) ms) (\<lambda>vs.
          if wheres = [] then Inl Undefined_behaviour
          else Inr (''update '' @ tbl @ '' set '' @ join '','' (map2 (\<lambda>(k, _) v. k @ ''='' @ v) ms vs) @ '' where '' @
                    join '' and '' (map (\<lambda>(k, w). k @ ''='' @ [CHR 0x27] @ w @ [CHR 0x27]) wheres)))
    | _ \<Rightarrow> Inl (Invalid_iterator 207))"
proof (cases "is_object obj")
  case False
  then have "obj_to_update_map_sql_str to_chars obj wheres tbl = (if empty obj then Inr [] else Inl (Invalid_iterator 207))"
    by (simp add: obj_to_update_map_sql_str_def loops_throw)
  then show ?thesis using False by (cases obj) simp_all
next
  case True
  then obtain ms where obj: "obj = Object ms" by (cases obj) auto
  have set_loop: "map_res (\<lambda>(k, v). bind_res (value_to_sql_str to_chars v) (\<lambda>t. Inr (k @ ''='' @ t))) ms =
      bind_res (map_res (\<lambda>(k, v). value_to_sql_str to_chars v) ms) (\<lambda>vs. Inr (map2 (\<lambda>(k, _) v. k @ ''='' @ v) ms vs))"
  proof (induction ms)
    case (Cons m ms)
    then show ?case
      by (cases "value_to_sql_str to_chars (snd m)"; cases "map_res (\<lambda>(k, v). value_to_sql_str to_chars v) ms")
        (auto simp: case_prod_unfold)
  qed simp
  have wheres_loop: "emit_loop '' and '' (\<lambda>(k, v). Inr (k @ ''='' @ [CHR 0x27] @ v @ [CHR 0x27])) wheres =
      Inr (join '' and '' (map (\<lambda>(k, w). k @ ''='' @ [CHR 0x27] @ w @ [CHR 0x27]) wheres))"
    by (simp add: case_prod_unfold emit_loop_total)
  show ?thesis
    unfolding obj obj_to_update_map_sql_str_def emit_assignments_object set_loop wheres_loop
    by (cases "map_res (\<lambda>(k, v). value_to_sql_str to_chars v) ms") (simp_all add: last_of_def)
qed

text \<open>
  The three overloads of the update statement agree: the overload with one condition is
  the map overload with that one condition, and the overload whose conditions are a JSON
  object of strings is the map overload with those strings, also in what they throw.
\<close>

theorem update_overloads_agree:
  "obj_to_update_sql_str to_chars obj k w tbl = obj_to_update_map_sql_str to_chars obj [(k, w)] tbl \<and>
   obj_to_update_json_sql_str to_chars obj (Object (map (\<lambda>(k, w). (k, String w)) wheres)) tbl =
     obj_to_update_map_sql_str to_chars obj wheres tbl"
proof
  show "obj_to_update_sql_str to_chars obj k w tbl = obj_to_update_map_sql_str to_chars obj [(k, w)] tbl"
    by (simp add: obj_to_update_sql_str_def obj_to_update_map_sql_str_def last_of_def)
  have "value_to_sql_str to_chars (String w) = Inr ([CHR 0x27] @ w @ [CHR 0x27])" for w
    by (simp add: value_to_sql_str_def)
  then have "emit_loop '' and '' (emit_assignment to_chars) (items (Object (map (\<lambda>(k, w). (k, String w)) wheres))) =
      emit_loop '' and '' (\<lambda>(k, v). Inr (k @ ''='' @ [CHR 0x27] @ v @ [CHR 0x27])) wheres"
    by (simp add: emit_loop_join map_res_map emit_assignment_def iter_key_def iter_value_def case_prod_unfold)
  then show "obj_to_update_json_sql_str to_chars obj (Object (map (\<lambda>(k, w). (k, String w)) wheres)) tbl =
     obj_to_update_map_sql_str to_chars obj wheres tbl"
    by (simp add: obj_to_update_json_sql_str_def obj_to_update_map_sql_str_def end_minus_one_def
        is_structured_def last_of_def)
qed

lemma insert_prefix_text:
  "\<not> empty obj \<Longrightarrow> insert_prefix to_chars obj tbl =
   (case obj of
      Object ms \<Rightarrow>
        bind_res (map_res (\<lambda>(k, v). value_to_sql_str to_chars v) ms) (\<lambda>vs.
          Inr (''insert into '' @ tbl @ ''('' @ join '','' (map fst ms) @ '') values('' @ join '','' vs))
    | _ \<Rightarrow> Inl (Invalid_iterator 207))"
proof (cases "is_object obj")
  case False
  assume "\<not> empty obj"
  then have "insert_prefix to_chars obj tbl = Inl (Invalid_iterator 207)"
    using False by (simp add: insert_prefix_def loops_throw)
  then show ?thesis using False by (cases obj) simp_all
next
  case True
  assume ne: "\<not> empty obj"
  obtain ms where obj: "obj = Object ms" using True by (cases obj) auto
  have k: "emit_loop '','' iter_key (items (Object ms)) = Inr (join '','' (map fst ms))"
    by (simp add: emit_loop_join map_res_map iter_key_def case_prod_unfold map_res_total)
  have v: "emit_loop '','' (\<lambda>it. value_to_sql_str to_chars (iter_value it)) (items (Object ms)) =
      bind_res (map_res (\<lambda>(k, v). value_to_sql_str to_chars v) ms) (\<lambda>vs. Inr (join '','' vs))"
    by (simp add: emit_loop_join map_res_map iter_value_def case_prod_unfold)
  show ?thesis
    using ne unfolding obj insert_prefix_def k v by (simp add: bind_res_assoc)
qed

text \<open>
  The text of the upsert statements: \<open>tail\<close> is the text after the conflict columns, \<open>skip\<close> is
  the key left out of the assignments.
\<close>

definition upsert_spec :: "('f \<Rightarrow> string) \<Rightarrow> 'f json \<Rightarrow> string list \<Rightarrow> string \<Rightarrow> string \<Rightarrow> string \<Rightarrow> json_error + string" where
  "upsert_spec to_chars obj keys tail skip tbl =
   (if empty obj then Inr []
    else case obj of
      Object ms \<Rightarrow>
        bind_res (map_res (\<lambda>(k, v). value_to_sql_str to_chars v) ms) (\<lambda>vs.
          if set (map fst ms) \<subseteq> {skip} \<or> keys = [] then Inl Undefined_behaviour
          else Inr (''insert into '' @ tbl @ ''('' @ join '','' (map fst ms) @ '') values('' @ join '','' vs @
                    '') on conflict('' @ join '','' keys @ tail @
                    join '','' (map (\<lambda>k. k @ ''=EXCLUDED.'' @ k) (filter (\<lambda>k. k \<noteq> skip) (map fst ms)))))
    | _ \<Rightarrow> Inl (Invalid_iterator 207))"

lemma upsert_sets_loop:
  "emit_loop '','' emit_excluded (items (Object (omap_erase skip ms))) =
   Inr (join '','' (map (\<lambda>k. k @ ''=EXCLUDED.'' @ k) (filter (\<lambda>k. k \<noteq> skip) (map fst ms))))"
  by (simp add: emit_loop_join map_res_map emit_excluded_def iter_key_def case_prod_unfold map_res_total
      omap_erase_def filter_map comp_def)

lemma omap_erase_empty: "omap_erase skip ms = [] \<longleftrightarrow> set (map fst ms) \<subseteq> {skip}"
  by (auto simp: omap_erase_def filter_empty_conv)

lemma upsert_common:
  assumes "\<not> empty obj"
  shows "bind_res (insert_prefix to_chars obj tbl) (\<lambda>p. bind_res (erase_key skip obj) (\<lambda>obj_cp.
           bind_res (end_minus_one obj_cp) (\<lambda>_. bind_res (last_of keys) (\<lambda>_. bind_res (emit_loop '','' emit_excluded (items obj_cp)) (\<lambda>sets.
           Inr (p @ '') on conflict('' @ join '','' keys @ tail @ sets)))))) = upsert_spec to_chars obj keys tail skip tbl"
proof (cases "is_object obj")
  case False
  then show ?thesis
    using assms by (cases obj) (simp_all add: upsert_spec_def insert_prefix_text)
next
  case True
  then obtain ms where obj: "obj = Object ms" by (cases obj) auto
  have e: "end_minus_one (Object (omap_erase skip ms)) = (if set (map fst ms) \<subseteq> {skip} then Inl Undefined_behaviour else Inr ())"
    by (simp only: end_minus_one_def omap_erase_empty is_structured_def is_object.simps empty.simps) simp
  show ?thesis
    using assms unfolding obj erase_key.simps bind_res.simps e upsert_sets_loop
    by (cases "map_res (\<lambda>(k, v). value_to_sql_str to_chars v) ms")
      (simp_all add: insert_prefix_text upsert_spec_def last_of_def)
qed

text \<open>
  C16: The upsert statements. All three overloads write the insert statement, then the
  conflict columns, then an assignment from EXCLUDED for every column but the excepted one;
  they differ only in a space. A value that is not an object throws invalid_iterator 207, and
  when the excepted key is the only key (or the list of conflict columns is empty) the code
  decrements the end of an empty container.
\<close>

theorem upsert_update_text:
  "obj_to_upsert_update_sql_str to_chars obj keys skip tbl =
     upsert_spec to_chars obj keys '') do update set '' skip tbl \<and>
   obj_to_upsert_update2_sql_str to_chars obj k1 k2 skip tbl =
     upsert_spec to_chars obj [k1, k2] '') do update  set '' skip tbl \<and>
   obj_to_upsert_update3_sql_str to_chars obj k1 k2 k3 skip tbl =
     upsert_spec to_chars obj [k1, k2, k3] '') do update  set '' skip tbl"
proof (cases "empty obj")
  case True
  then show ?thesis
    by (simp add: upsert_spec_def obj_to_upsert_update_sql_str_def obj_to_upsert_update2_sql_str_def
        obj_to_upsert_update3_sql_str_def)
next
  case False
  have keys: "emit_loop '','' Inr keys = Inr (join '','' keys)"
    using emit_loop_total [of _ "\<lambda>x. x" keys] by simp
  show ?thesis
    unfolding upsert_common [OF False, symmetric]
    using False by (simp add: obj_to_upsert_update_sql_str_def obj_to_upsert_update2_sql_str_def
        obj_to_upsert_update3_sql_str_def keys last_of_def)
qed

section \<open>Reading the inserted values back\<close>

text \<open>
  A reader of the value list of an SQL statement: it splits at the commas outside quotes. A
  piece of text is one literal when the reader, started outside quotes, meets no such comma
  in it and ends outside quotes.
\<close>

fun split_values :: "bool \<Rightarrow> string \<Rightarrow> string list" where
  "split_values quoted [] = [[]]"
| "split_values quoted (c # cs) =
     (if c = CHR '','' \<and> \<not> quoted then [] # split_values quoted cs
      else case split_values (if c = CHR 0x27 then \<not> quoted else quoted) cs of
             [] \<Rightarrow> [] | t # ts \<Rightarrow> (c # t) # ts)"

fun sql_scan :: "bool \<Rightarrow> string \<Rightarrow> bool option" where
  "sql_scan quoted [] = Some quoted"
| "sql_scan quoted (c # cs) =
     (if c = CHR '','' \<and> \<not> quoted then None else sql_scan (if c = CHR 0x27 then \<not> quoted else quoted) cs)"

definition one_literal :: "string \<Rightarrow> bool" where
  "one_literal t \<longleftrightarrow> sql_scan False t = Some False"

fun quote_free :: "'f json \<Rightarrow> bool" where
  "quote_free (String s) = (CHR 0x27 \<notin> set s)"
| "quote_free (Array xs) = (\<forall>x \<in> set xs. quote_free x)"
| "quote_free (Object ms) = (\<forall>m \<in> set ms. CHR 0x27 \<notin> set (fst m) \<and> quote_free (snd m))"
| "quote_free _ = True"

lemma sql_scan_append: "sql_scan q (t @ u) = (case sql_scan q t of None \<Rightarrow> None | Some q' \<Rightarrow> sql_scan q' u)"
  by (induction q t rule: sql_scan.induct) auto

lemma split_values_nonempty [simp]: "split_values q t \<noteq> []"
  by (induction t arbitrary: q) (auto split: list.splits)

lemma split_values_scan:
  "sql_scan q t = Some q' \<Longrightarrow>
   split_values q (t @ u) = (t @ hd (split_values q' u)) # tl (split_values q' u)"
  by (induction q t rule: sql_scan.induct) (auto split: if_splits list.splits)

lemma split_values_join:
  "ts \<noteq> [] \<Longrightarrow> list_all one_literal ts \<Longrightarrow> split_values False (join '','' ts) = ts"
proof (induction ts rule: induct_list012)
  case (2 t)
  then show ?case using split_values_scan [of False t False "[]"] by (simp add: one_literal_def)
next
  case (3 t u ts)
  then show ?case
    using split_values_scan [of False t False "'','' @ join '','' (u # ts)"] by (simp add: one_literal_def)
qed simp

lemma one_literal_plain: "CHR 0x27 \<notin> set t \<Longrightarrow> CHR '','' \<notin> set t \<Longrightarrow> one_literal t"
proof -
  have "CHR 0x27 \<notin> set t \<Longrightarrow> CHR '','' \<notin> set t \<Longrightarrow> sql_scan q t = Some q" for q
    by (induction q t rule: sql_scan.induct) auto
  then show "CHR 0x27 \<notin> set t \<Longrightarrow> CHR '','' \<notin> set t \<Longrightarrow> one_literal t"
    by (simp add: one_literal_def)
qed

lemma one_literal_quoted: "CHR 0x27 \<notin> set t \<Longrightarrow> one_literal ([CHR 0x27] @ t @ [CHR 0x27])"
proof -
  assume "CHR 0x27 \<notin> set t"
  then have "sql_scan True t = Some True"
    by (induction "True" t rule: sql_scan.induct) auto
  then show ?thesis by (simp add: one_literal_def sql_scan_append)
qed

lemma quote_notin_hex_digit: "n < 16 \<Longrightarrow> hex_digit n \<noteq> CHR 0x27"
proof
  assume "n < 16" and "hex_digit n = CHR 0x27"
  then have "code (hex_digit n) = 0x27" by simp
  with \<open>n < 16\<close> show False by (simp add: hex_digit_def split: if_splits)
qed

lemma esc_run_quote_free: "esc_run st cp s = Some t \<Longrightarrow> CHR 0x27 \<notin> set s \<Longrightarrow> CHR 0x27 \<notin> set t"
proof (induction st cp s arbitrary: t rule: esc_run.induct)
  case (2 st cp c cs)
  define st' cp' where "st' = next_state st c" and "cp' = next_cp st cp c"
  obtain u where u: "esc_run st' cp' cs = Some u" "t = (if st' = 0 then escaped cp' [c] else [c]) @ u" "st' \<noteq> 1"
    using "2.prems"(1) by (auto simp: Let_def st'_def cp'_def split: if_splits)
  have "CHR 0x27 \<notin> set u"
    using "2.IH" [OF st'_def cp'_def u(3,1)] "2.prems"(2) by simp
  moreover have "CHR 0x27 \<notin> set (escaped cp' [c])"
  proof -
    have "cp' div 16 < 16" if "cp' \<le> 0x1F" using that by (simp add: div_less_iff_less_mult)
    then show ?thesis
      using "2.prems"(2) quote_notin_hex_digit [of "cp' div 16"] quote_notin_hex_digit [of "cp' mod 16"]
      by (auto simp: escaped_def)
  qed
  ultimately show ?case using u(2) "2.prems"(2) by (auto split: if_splits)
qed (auto split: if_splits)

lemma dump_escaped_quote_free: "dump_escaped s = Inr t \<Longrightarrow> CHR 0x27 \<notin> set s \<Longrightarrow> CHR 0x27 \<notin> set t"
  by (auto simp: dump_escaped_run dest: esc_run_quote_free split: option.splits)

lemma digit_not_punct: "isdigit c \<Longrightarrow> c \<noteq> CHR 0x27 \<and> c \<noteq> CHR '','' \<and> c \<noteq> CHR 0x22"
  by (auto simp: isdigit_def)

lemma nat_dec_plain [simp]: "CHR 0x27 \<notin> set (nat_dec n)" "CHR '','' \<notin> set (nat_dec n)" "CHR 0x22 \<notin> set (nat_dec n)"
  using nat_dec_digits [of _ n] digit_not_punct by blast+

lemma dump_integer_plain [simp]:
  "CHR 0x27 \<notin> set (dump_integer sg x)" "CHR '','' \<notin> set (dump_integer sg x)" "CHR 0x22 \<notin> set (dump_integer sg x)"
  by (cases sg; simp add: dump_integer_unsigned dump_integer_signed)+

lemma dump_quote_free:
  "\<forall>x. CHR 0x27 \<notin> set (to_chars x) \<Longrightarrow> dump to_chars v = Inr t \<Longrightarrow> quote_free v \<Longrightarrow> CHR 0x27 \<notin> set t"
  "\<forall>x. CHR 0x27 \<notin> set (to_chars x) \<Longrightarrow> dump_array to_chars vs = Inr t \<Longrightarrow> \<forall>v \<in> set vs. quote_free v \<Longrightarrow> CHR 0x27 \<notin> set t"
  "\<forall>x. CHR 0x27 \<notin> set (to_chars x) \<Longrightarrow> dump_object to_chars ms = Inr t \<Longrightarrow>
     \<forall>m \<in> set ms. CHR 0x27 \<notin> set (fst m) \<and> quote_free (snd m) \<Longrightarrow> CHR 0x27 \<notin> set t"
  "\<forall>x. CHR 0x27 \<notin> set (to_chars x) \<Longrightarrow> dump_member to_chars m = Inr t \<Longrightarrow>
     CHR 0x27 \<notin> set (fst m) \<and> quote_free (snd m) \<Longrightarrow> CHR 0x27 \<notin> set t"
  by (induction to_chars v and to_chars vs and to_chars ms and to_chars m arbitrary: t and t and t and t
      rule: dump_dump_array_dump_object_dump_member.induct)
    (auto simp: exn_simps dest: dump_escaped_quote_free split: if_splits)

lemma value_one_literal:
  assumes "\<And>x. CHR 0x27 \<notin> set (to_chars x) \<and> CHR '','' \<notin> set (to_chars x)"
    and "value_to_sql_str to_chars v = Inr t" and "quote_free v"
  shows "one_literal t"
proof -
  note free = dump_quote_free(1) [of to_chars v, OF _ _ assms(3)]
  have upd: "CHR 0x27 \<notin> set (xs[i := c])" if "CHR 0x27 \<notin> set xs" "c \<noteq> CHR 0x27" for xs i c
    using that by (metis insert_iff set_update_subset_insert subset_iff)
  show ?thesis
  proof (cases v)
    case (Array xs)
    then obtain tmp where tmp: "dump to_chars v = Inr tmp"
        and t: "t = [CHR 0x27] @ (tmp[0 := CHR ''{''])[length tmp - 1 := CHR ''}''] @ [CHR 0x27]"
      using assms(2) by (auto simp: value_to_sql_str_def exn_simps Let_def split: if_splits)
    have "CHR 0x27 \<notin> set ((tmp[0 := CHR ''{''])[length tmp - 1 := CHR ''}''])"
      using free [OF _ tmp] assms(1) by (intro upd) simp_all
    then show ?thesis unfolding t by (rule one_literal_quoted)
  next
    case (Object ms)
    then obtain tmp where tmp: "dump to_chars v = Inr tmp" and t: "t = [CHR 0x27] @ tmp @ [CHR 0x27]"
      using assms(2) by (auto simp: value_to_sql_str_def is_structured_def exn_simps)
    show ?thesis unfolding t using free [OF _ tmp] assms(1) by (intro one_literal_quoted) simp
  next
    case (String s)
    then show ?thesis
      using assms(2,3) one_literal_quoted [of s] by (auto simp: value_to_sql_str_def)
  qed (use assms in \<open>auto simp: value_to_sql_str_def intro!: one_literal_plain split: if_splits\<close>)
qed

text \<open>
  C30: The insert statement of an object names every key once as a column, in key order, and
  its value list, read back by splitting at the commas outside quotes, has exactly one entry
  per column: the literal of that column's value. This needs values without single quotes
  (and a float text without quote or comma).
\<close>

theorem insert_reads_back:
  assumes "\<And>x. CHR 0x27 \<notin> set (to_chars x) \<and> CHR '','' \<notin> set (to_chars x)"
    and "ms \<noteq> []" and "quote_free (Object ms)"
    and "obj_to_insert_sql_str to_chars (Object ms) tbl = Inr t"
  shows "\<exists>vals. t = ''insert into '' @ tbl @ ''('' @ join '','' (map fst ms) @ '') values('' @ vals @ '')'' \<and>
     list_all2 (\<lambda>(k, v) lit. value_to_sql_str to_chars v = Inr lit) ms (split_values False vals)"
proof -
  obtain vs where vs: "map_res (\<lambda>(k, v). value_to_sql_str to_chars v) ms = Inr vs"
      and t: "t = ''insert into '' @ tbl @ ''('' @ join '','' (map fst ms) @ '') values('' @ join '','' vs @ '')''"
    using assms(2,4) by (auto simp: obj_to_insert_sql_str_def insert_prefix_text exn_simps)
  have all: "list_all2 (\<lambda>(k, v) lit. value_to_sql_str to_chars v = Inr lit) ms vs"
    using vs by (simp add: map_res_Inr_iff case_prod_unfold)
  then have "vs \<noteq> []" using assms(2) by auto
  moreover have "list_all one_literal vs"
    using all assms(3) value_one_literal [OF assms(1)]
    by (fastforce simp: list_all2_conv_all_nth list_all_length in_set_conv_nth case_prod_unfold)
  ultimately have "split_values False (join '','' vs) = vs" by (rule split_values_join)
  then show ?thesis using t all by auto
qed

theorem insert_reads_back_witness:
  "\<exists>vals. ''insert into t(a,b) values(-3,'x,y')'' = ''insert into '' @ ''t'' @ ''('' @ join '','' [''a'', ''b''] @ '') values('' @ vals @ '')'' \<and>
     list_all2 (\<lambda>(k, v) lit. value_to_sql_str (\<lambda>_ :: unit. ''0.5'') v = Inr lit)
       [(''a'', Number_integer (- 3)), (''b'', String ''x,y'')] (split_values False vals)"
proof -
  have "obj_to_insert_sql_str (\<lambda>_ :: unit. ''0.5'') (Object [(''a'', Number_integer (- 3)), (''b'', String ''x,y'')]) ''t''
      = Inr ''insert into t(a,b) values(-3,'x,y')''"
    by code_simp
  from insert_reads_back [OF _ _ _ this] show ?thesis by simp
qed

text \<open>
  A string value with a single quote is not escaped: the statement generated for one
  column reads as a list of two values, so the text of a value can leave its literal.
\<close>

lemma insert_not_escaped:
  "obj_to_insert_sql_str to_chars (Object [(''a'', String ''1','2'')]) ''t'' = Inr ''insert into t(a) values('1','2')'' \<and>
   split_values False ([CHR 0x27] @ ''1','2'' @ [CHR 0x27]) =
     [[CHR 0x27, CHR ''1'', CHR 0x27], [CHR 0x27, CHR ''2'', CHR 0x27]]"
  by (simp add: obj_to_insert_sql_str_def insert_prefix_text value_to_sql_str_def)

section \<open>Lists for the in operator\<close>

lemma split_tokens_last: "\<forall>c \<in> set s. \<not> P c \<Longrightarrow> split_tokens P s = [s]"
  by (subst split_tokens.simps) (simp add: token_finder_def scan_until_dropWhile dropWhile_eq_Nil_conv Let_def)

lemma split_tokens_step:
  assumes "\<forall>c \<in> set t. \<not> P c" and "sep \<noteq> []" and "\<forall>c \<in> set sep. P c" and "s = [] \<or> \<not> P (hd s)"
  shows "split_tokens P (t @ sep @ s) = t # split_tokens P s"
proof -
  have "dropWhile (\<lambda>c. \<not> P c) (t @ sep @ s) = sep @ s"
    using assms(1-3) by (cases sep) simp_all
  moreover have "dropWhile P (sep @ s) = s"
    using assms(3,4) by (cases s) (simp_all add: dropWhile_append2)
  ultimately have "token_finder P (t @ sep @ s) = (sep @ s, s)"
    by (simp add: token_finder_def scan_until_dropWhile)
  then show ?thesis
    using assms(2) by (subst split_tokens.simps) simp
qed

lemma split_tokens_join:
  assumes "ts \<noteq> []" and "\<forall>t \<in> set ts. t \<noteq> [] \<and> (\<forall>c \<in> set t. \<not> P c)" and "sep \<noteq> []" and "\<forall>c \<in> set sep. P c"
  shows "split_tokens P (join sep ts) = ts"
  using assms(1,2)
proof (induction ts rule: induct_list012)
  case (2 t)
  then show ?case by (simp add: split_tokens_last)
next
  case (3 t u ts)
  have "\<not> P (hd (join sep (u # ts)))" using "3.prems" by (cases u) (auto simp: join_Cons)
  then have "split_tokens P (t @ sep @ join sep (u # ts)) = t # split_tokens P (join sep (u # ts))"
    using "3.prems" by (intro split_tokens_step) (use assms in auto)
  then show ?case using "3.IH"(2) "3.prems" by simp
qed simp

text \<open>
  A text of non-empty entries separated by commas and blanks becomes the parenthesized
  list of exactly these entries, each in quotes when they are text.
\<close>

lemma comma_arr_entries:
  assumes "ts \<noteq> []" and "\<forall>t \<in> set ts. t \<noteq> [] \<and> CHR '' '' \<notin> set t \<and> CHR '','' \<notin> set t"
    and "sep \<noteq> []" and "set sep \<subseteq> {CHR '' '', CHR '',''}"
  shows "comma_arr_to_sql_in_arr (join sep ts) is_text =
    ''('' @ join '','' (map (\<lambda>t. if is_text then [CHR 0x27] @ t @ [CHR 0x27] else t) ts) @ '')''"
proof -
  have "split_tokens (is_any_of '' ,'') (join sep ts) = ts"
    using assms by (intro split_tokens_join) (auto simp: is_any_of_def)
  then show ?thesis by (simp add: comma_arr_to_sql_in_arr_def Let_def)
qed

lemma comma_arr_entries_example:
  "comma_arr_to_sql_in_arr ''aa, bb, c'' True = ''('aa','bb','c')''"
  using comma_arr_entries [of "[''aa'', ''bb'', ''c'']" "'', ''" True] by simp

text \<open>A blank at an end of the text becomes an empty entry of the list.\<close>

lemma comma_arr_blank_end: "comma_arr_to_sql_in_arr ''1,2 '' False = ''(1,2,)''"
proof -
  have "split_tokens (is_any_of '' ,'') ''1,2 '' = [''1'', ''2'', []]"
    using split_tokens_step [of "''1''" "is_any_of '' ,''" "'',''" "''2 ''"]
      split_tokens_step [of "''2''" "is_any_of '' ,''" "'' ''" "[]"] split_tokens_last [of "[]" "is_any_of '' ,''"]
    by (simp add: is_any_of_def)
  then show ?thesis by (simp add: comma_arr_to_sql_in_arr_def)
qed

text \<open>The entries of a JSON array whose text in the list is known: integers and plain strings.\<close>

definition plain_text :: "string \<Rightarrow> bool" where
  "plain_text s \<longleftrightarrow> (\<forall>c \<in> set s. 0x20 \<le> code c \<and> code c < 0x80 \<and> code c \<noteq> 0x22 \<and> code c \<noteq> 0x5C)"

fun entry_text :: "'f json \<Rightarrow> string option" where
  "entry_text (Number_integer x) = Some ((if sint x < 0 then ''-'' else []) @ nat_dec (nat \<bar>sint x\<bar>))"
| "entry_text (Number_unsigned x) = Some (nat_dec (unat x))"
| "entry_text (String s) = (if plain_text s then Some ([CHR 0x27] @ s @ [CHR 0x27]) else None)"
| "entry_text _ = None"

lemma dump_escaped_plain: "plain_text s \<Longrightarrow> dump_escaped s = Inr s"
proof -
  assume p: "plain_text s"
  have enc: "utf8_encode (code c) = [c]" if "code c < 0x80" for c
    using that by (simp add: utf8_encode_def)
  have "concat (map (\<lambda>c. utf8_encode (code c)) s) = s \<and> concat (map (\<lambda>c. escaped (code c) (utf8_encode (code c))) s) = s"
    using p by (induction s) (auto simp: plain_text_def enc escaped_def)
  then have "esc_run 0 0 s = Some s"
    unfolding esc_run_iff using p
    by (intro exI [of _ "map code s"]) (auto simp: comp_def list_all_iff plain_text_def scalar_value_def)
  then show ?thesis by (simp add: dump_escaped_run)
qed

lemma replace_all_simps [simp]:
  "replace_all a b [] = []" "replace_all a b (c # s) = (if c = a then b else c) # replace_all a b s"
  "replace_all a b (s @ t) = replace_all a b s @ replace_all a b t"
  by (simp_all add: replace_all_def)

lemma replace_all_id: "a \<notin> set s \<Longrightarrow> replace_all a b s = s"
  by (induction s) auto

lemma entry_dump:
  assumes "entry_text v = Some t"
  shows "\<exists>u. dump to_chars v = Inr u \<and> replace_all (CHR 0x22) (CHR 0x27) u = t"
proof (cases v)
  case (String s)
  then have "plain_text s" and t: "t = [CHR 0x27] @ s @ [CHR 0x27]" using assms by (auto split: if_splits)
  moreover have "CHR 0x22 \<notin> set s" using \<open>plain_text s\<close> by (auto simp: plain_text_def)
  ultimately show ?thesis using String by (simp add: dump_escaped_plain replace_all_id)
qed (use assms in \<open>auto simp: dump_integer_signed dump_integer_unsigned replace_all_id\<close>)

lemma dump_array_entries:
  "list_all2 (\<lambda>v t. entry_text v = Some t) vs ts \<Longrightarrow>
   \<exists>u. dump_array to_chars vs = Inr u \<and> replace_all (CHR 0x22) (CHR 0x27) u = join '','' ts"
proof (induction vs arbitrary: ts rule: induct_list012)
  case (2 v)
  then obtain t where "ts = [t]" "entry_text v = Some t" by (auto simp: list_all2_Cons1)
  then show ?case using entry_dump [of v t to_chars] by simp
next
  case (3 v w vs)
  then obtain t ts' where ts: "ts = t # ts'" and v: "entry_text v = Some t"
      and r: "list_all2 (\<lambda>v t. entry_text v = Some t) (w # vs) ts'"
    by (auto simp: list_all2_Cons1)
  then have "ts' \<noteq> []" by auto
  then show ?case
    using entry_dump [OF v, of to_chars] "3.IH"(2) [OF r] ts by (auto simp: join_Cons)
qed simp

text \<open>
  An array of integers and of plain strings becomes the parenthesized list of its
  entries, integers in decimal and strings in single quotes, separated by commas.
\<close>

theorem arr_to_sql_in_arr_entries:
  assumes "list_all2 (\<lambda>v t. entry_text v = Some t) vs ts"
  shows "arr_to_sql_in_arr to_chars (Array vs) = Inr (''('' @ join '','' ts @ '')'')"
proof (cases "vs = []")
  case True
  then show ?thesis using assms by (simp add: arr_to_sql_in_arr_def)
next
  case False
  obtain u where u: "dump_array to_chars vs = Inr u" "replace_all (CHR 0x22) (CHR 0x27) u = join '','' ts"
    using dump_array_entries [OF assms] by blast
  have "((''['' @ u @ '']'')[0 := CHR ''(''])[length ((''['' @ u @ '']'')[0 := CHR ''('']) - 1 := CHR '')''] = ''('' @ u @ '')''"
    by (simp add: list_update_append)
  then show ?thesis using False u by (simp add: arr_to_sql_in_arr_def Let_def)
qed

theorem arr_to_sql_in_arr_entries_witness:
  "arr_to_sql_in_arr (\<lambda>_ :: unit. []) (Array [Number_integer (- 5), String ''ab'']) = Inr ''(-5,'ab')''"
proof -
  have "entry_text (Number_integer (- 5) :: unit json) = Some ''-5''"
    "entry_text (String ''ab'' :: unit json) = Some ([CHR 0x27] @ ''ab'' @ [CHR 0x27])"
    by code_simp+
  then show ?thesis
    using arr_to_sql_in_arr_entries [of "[Number_integer (- 5), String ''ab'']" "[''-5'', [CHR 0x27] @ ''ab'' @ [CHR 0x27]]" "\<lambda>_ :: unit. []"]
    by simp
qed

section \<open>Array difference and assignment\<close>

lemma find_in_array_correct:
  "map_res (\<lambda>j. bind_res (at_key j key) get) js = Inr ws \<Longrightarrow> find_in_array get key v js = Inr (v \<in> set ws)"
  by (induction js arbitrary: ws) (auto simp: exn_simps)

lemma select_loop_correct:
  assumes "map_res (\<lambda>j. bind_res (at_key j key) get) ins = Inr ws"
  shows "map_res (\<lambda>j. bind_res (at_key j key) get) froms = Inr vs \<Longrightarrow>
    select_loop get to_json key ins froms (Array acc) =
      Inr (Array (acc @ map to_json (filter (\<lambda>v. v \<notin> set ws) vs)))"
proof (induction froms arbitrary: vs acc)
  case (Cons j js)
  then obtain x v vs' where j: "at_key j key = Inr x" "get x = Inr v" and vs: "vs = v # vs'"
      and js: "map_res (\<lambda>j. bind_res (at_key j key) get) js = Inr vs'"
    by (auto simp: exn_simps)
  show ?case
    using j Cons.IH [OF js] find_in_array_correct [OF assms, of v] by (simp add: vs)
qed simp

text \<open>
  When every element of both arrays has the key and converts to the element type, the
  result is the array of the first array's values that do not occur in the second one, in
  order and with their repetitions.
\<close>

theorem select_not_in_array_difference:
  assumes "map_res (\<lambda>j. bind_res (at_key j key) get) froms = Inr vs"
    and "map_res (\<lambda>j. bind_res (at_key j key) get) ins = Inr ws"
  shows "select_not_in_array get to_json (Array froms) (Array ins) key =
    Inr (Array (map to_json (filter (\<lambda>v. v \<notin> set ws) vs)))"
  using select_loop_correct [OF assms(2,1), of to_json "[]"]
  by (simp add: select_not_in_array_def comp_def iter_value_def)

theorem select_not_in_array_difference_witness:
  "select_not_in_array get_string String
     (Array [Object [(''id'', String ''a'')], Object [(''id'', String ''b'')]]) (Array [Object [(''id'', String ''b'')]]) ''id''
   = Inr (Array [String ''a'' :: unit json])"
  using select_not_in_array_difference [of "''id''" get_string
      "[Object [(''id'', String ''a'')], Object [(''id'', String ''b'')]] :: unit json list" "[''a'', ''b'']"
      "[Object [(''id'', String ''b'')]]" "[''b'']" String]
  by simp

lemma assign_loop_object:
  assumes "omap_ok ms"
  shows "assign_json_value (Object ms) obj keys =
    Inr (Object (fold (\<lambda>(k, v). omap_set k v) (List.map_filter (\<lambda>k. map_option (Pair k) (find_key obj k)) keys) ms))"
  using assms
  by (induction keys arbitrary: ms) (auto simp: List.map_filter_simps omap_ok_set split: option.splits)

lemma map_of_found: "map_of (rev (List.map_filter (\<lambda>k. map_option (Pair k) (f k)) keys)) k = (if k \<in> set keys then f k else None)"
proof -
  have *: "set (List.map_filter (\<lambda>k. map_option (Pair k) (f k)) keys) = {(k, v). k \<in> set keys \<and> f k = Some v}"
    by (induction keys) (auto simp: List.map_filter_simps split: option.splits)
  show ?thesis
  proof (cases "k \<in> set keys \<and> f k \<noteq> None")
    case True
    then obtain v where v: "f k = Some v" by auto
    then have "k \<in> fst ` set (rev (List.map_filter (\<lambda>k. map_option (Pair k) (f k)) keys))"
      using True * by (force simp: image_iff)
    then obtain w where w: "map_of (rev (List.map_filter (\<lambda>k. map_option (Pair k) (f k)) keys)) k = Some w"
      by (metis map_of_eq_None_iff not_None_eq)
    then have "(k, w) \<in> set (List.map_filter (\<lambda>k. map_option (Pair k) (f k)) keys)"
      by (metis map_of_SomeD set_rev)
    then show ?thesis using * v w True by simp
  next
    case False
    then have "k \<notin> fst ` set (rev (List.map_filter (\<lambda>k. map_option (Pair k) (f k)) keys))"
      using * by (auto simp: image_iff)
    then show ?thesis using False by (auto simp: map_of_eq_None_iff)
  qed
qed

text \<open>
  Assign_json_value on an object: the result is an ordered object that maps every listed
  key that the source object has to the value there, and every other key to what it had.
\<close>

theorem assign_json_value_lookup:
  assumes "omap_ok ms"
  shows "\<exists>ms'. assign_json_value (Object ms) obj keys = Inr (Object ms') \<and> omap_ok ms' \<and>
    (\<forall>k. map_of ms' k = (if k \<in> set keys \<and> find_key obj k \<noteq> None then find_key obj k else map_of ms k))"
  using assms
  by (auto simp: assign_loop_object omap.ok_updates omap.lookup_updates map_of_found split: option.splits)

theorem assign_json_value_lookup_witness:
  "\<exists>ms'. assign_json_value (Object [(''a'', Null :: unit json)]) (Object [(''b'', Boolean True)]) [''b'', ''c''] = Inr (Object ms') \<and> omap_ok ms' \<and>
    (\<forall>k. map_of ms' k = (if k \<in> set [''b'', ''c''] \<and> find_key (Object [(''b'', Boolean True)] :: unit json) k \<noteq> None
       then find_key (Object [(''b'', Boolean True)] :: unit json) k else map_of [(''a'', Null :: unit json)] k))"
  by (rule assign_json_value_lookup) (simp add: omap_ok_def)

end
