(* ===== verification/Http_Server.thy ===== *)
theory Http_Server
  imports Web_Utility
begin

text \<open>
  Request handling of \<open>http/http_api_server.h\<close> and \<open>http/http_api_server.cpp\<close>: the dispatch to
  resource functions, the checks on the target, the error responses, and the session loop of one
  connection. The header operations of the HTTP library that decide whether a connection stays
  open (\<open>keep_alive\<close>, \<open>content_length\<close>, \<open>need_eof\<close>) are those of
  \<open>third_party/include/boost/beast/http\<close>, on token lists.

  Resource functions, \<open>first_process\<close>, \<open>last_process\<close> and the regular-expression matcher are
  supplied by the application and by a library: they are arguments. A session runs against a
  script of what the socket operations return.
\<close>

section \<open>Messages\<close>

text \<open>
  A header field that is a token list is the list of its tokens; the other fields are kept
  by name.
\<close>

record http_fields =
  connection :: "string list"
  transfer_encoding :: "string list"
  content_length_field :: "nat option"
  other_fields :: "(string \<times> string) list"

definition no_fields :: http_fields where
  "no_fields = \<lparr>connection = [], transfer_encoding = [], content_length_field = None, other_fields = []\<rparr>"

record request =
  req_method :: string
  req_target :: string
  req_version :: nat
  req_fields :: http_fields
  req_expect :: string
  req_body :: string

record response =
  res_result :: nat
  res_version :: nat
  res_fields :: http_fields
  res_body :: string

definition token_exists :: "string list \<Rightarrow> string \<Rightarrow> bool" where
  "token_exists ts t \<longleftrightarrow> (\<exists>x \<in> set ts. iequals x t)"

definition filter_token_list :: "string list \<Rightarrow> string list \<Rightarrow> string list" where
  "filter_token_list ts bad = filter (\<lambda>t. \<not> (\<exists>b \<in> set bad. iequals t b)) ts"

definition filter_token_list_last :: "string list \<Rightarrow> string list \<Rightarrow> string list" where
  "filter_token_list_last ts bad =
     (if ts \<noteq> [] \<and> (\<exists>b \<in> set bad. iequals (last ts) b) then butlast ts else ts)"

definition keep_alive_impl :: "string list \<Rightarrow> nat \<Rightarrow> bool \<Rightarrow> string list" where
  "keep_alive_impl value version keep_alive =
     (if version < 11 then
        if keep_alive then
          let s = filter_token_list value [''close''] in
          if s = [] then [''keep-alive'']
          else if \<not> token_exists value ''keep-alive'' then s @ [''keep-alive''] else s
        else filter_token_list value [''close'', ''keep-alive'']
      else
        if keep_alive then filter_token_list value [''close'', ''keep-alive'']
        else
          let s = filter_token_list value [''keep-alive''] in
          if s = [] then [''close'']
          else if \<not> token_exists value ''close'' then s @ [''close''] else s)"

definition get_keep_alive_impl :: "nat \<Rightarrow> http_fields \<Rightarrow> bool" where
  "get_keep_alive_impl version f =
     (if version < 11 then token_exists (connection f) ''keep-alive'' else \<not> token_exists (connection f) ''close'')"

definition get_chunked_impl :: "http_fields \<Rightarrow> bool" where
  "get_chunked_impl f \<longleftrightarrow> transfer_encoding f \<noteq> [] \<and> iequals (last (transfer_encoding f)) ''chunked''"

definition content_length :: "nat \<Rightarrow> response \<Rightarrow> response" where
  "content_length n r =
     (let f = res_fields r
      in r\<lparr>res_fields := f\<lparr>content_length_field := Some n,
                              transfer_encoding := filter_token_list_last (transfer_encoding f) [''chunked'']\<rparr>\<rparr>)"

definition res_keep_alive :: "response \<Rightarrow> bool" where
  "res_keep_alive r = get_keep_alive_impl (res_version r) (res_fields r)"

definition req_keep_alive :: "request \<Rightarrow> bool" where
  "req_keep_alive r = get_keep_alive_impl (req_version r) (req_fields r)"

definition set_keep_alive :: "bool \<Rightarrow> response \<Rightarrow> response" where
  "set_keep_alive v r =
     r\<lparr>res_fields := (res_fields r)\<lparr>connection := keep_alive_impl (connection (res_fields r)) (res_version r) v\<rparr>\<rparr>"

definition set_field :: "string \<Rightarrow> string \<Rightarrow> response \<Rightarrow> response" where
  "set_field name v r =
     (let f = res_fields r
      in r\<lparr>res_fields := f\<lparr>other_fields := filter (\<lambda>(n, _). \<not> iequals n name) (other_fields f) @ [(name, v)]\<rparr>\<rparr>)"

definition need_eof :: "response \<Rightarrow> bool" where
  "need_eof r =
     (if res_result r = 204 \<or> res_result r = 304 \<or> res_result r div 100 = 1 \<or>
         content_length_field (res_fields r) \<noteq> None \<or> get_chunked_impl (res_fields r)
      then \<not> res_keep_alive r else True)"

text \<open>\<open>prepare_payload\<close> of a response with a string body; it throws when a body is not allowed.\<close>

definition prepare_payload :: "response \<Rightarrow> string + response" where
  "prepare_payload r =
     (if length (res_body r) > 0 \<and> (res_result r = 1 \<or> res_result r = 204 \<or> res_result r = 304)
      then Inl ''invalid response body'' else Inr (content_length (length (res_body r)) r))"

definition empty_response :: response where
  "empty_response = \<lparr>res_result = 200, res_version = 11, res_fields = no_fields, res_body = []\<rparr>"

section \<open>Context and resource functions\<close>

record http_context =
  remote_endpoint :: string
  path :: string
  path_params :: "string list"
  query_params :: multimap
  req :: request
  res :: response

text \<open>
  A resource function changes the context and may throw a \<open>std::exception\<close> (with its text) or
  something else; what it changed before is kept.
\<close>

datatype outcome =
    Normal http_context
  | Std_exception string http_context
  | Other_exception http_context

type_synonym resource_call = "http_context \<Rightarrow> outcome"

record api_server =
  m_resource :: "(string \<times> (string \<times> resource_call) list) list"
  m_default_resource :: resource_call
  m_bad_resource :: "string \<Rightarrow> resource_call"

definition beast_version :: string where
  "beast_version = ''Boost.Beast''"

definition error_response :: "nat \<Rightarrow> string \<Rightarrow> http_context \<Rightarrow> outcome" where
  "error_response status body cxt =
     (let r = (res cxt)\<lparr>res_result := status, res_version := req_version (req cxt)\<rparr>;
          r = set_field ''Server'' beast_version r;
          r = set_field ''Content-Type'' ''text/html'' r;
          r = set_keep_alive False r;
          r = r\<lparr>res_body := body\<rparr>
      in case prepare_payload r of
           Inl what \<Rightarrow> Std_exception what (cxt\<lparr>res := r\<rparr>)
         | Inr r' \<Rightarrow> Normal (cxt\<lparr>res := r'\<rparr>))"

definition default_resource :: resource_call where
  "default_resource cxt =
     error_response 404
       ([CHR ''T'', CHR ''h'', CHR ''e'', CHR '' '', CHR 0x27] @ req_method (req cxt) @
        [CHR 0x27] @ '' resource '' @ [CHR 0x27] @ path cxt @ [CHR 0x27] @ '' was not found.'') cxt"

definition bad_resource :: "string \<Rightarrow> resource_call" where
  "bad_resource why cxt = error_response 400 why cxt"

text \<open>The server as its constructor leaves it, with the resources registered later.\<close>

definition HttpApiServer :: "(string \<times> (string \<times> resource_call) list) list \<Rightarrow> api_server" where
  "HttpApiServer resources =
     \<lparr>m_resource = resources, m_default_resource = default_resource, m_bad_resource = bad_resource\<rparr>"

section \<open>Dispatch\<close>

text \<open>
  \<open>call_resource\<close> walks the map of regular expressions in its order. \<open>regex_match\<close> gives the
  matched groups of a path. \<^const>\<open>None\<close> means that no resource function was found.
\<close>

fun call_resource_loop ::
  "(string \<Rightarrow> string \<Rightarrow> string list option) \<Rightarrow> (string \<times> (string \<times> resource_call) list) list \<Rightarrow> http_context \<Rightarrow> outcome option"
where
  "call_resource_loop regex_match [] cxt = None"
| "call_resource_loop regex_match ((regex, methods) # rest) cxt =
     (case map_of methods (req_method (req cxt)) of
        None \<Rightarrow> call_resource_loop regex_match rest cxt
      | Some fn \<Rightarrow>
          (case regex_match (path cxt) regex of
             None \<Rightarrow> call_resource_loop regex_match rest cxt
           | Some sm_res \<Rightarrow> Some (fn (cxt\<lparr>path_params := sm_res\<rparr>))))"

definition call_resource ::
  "(string \<Rightarrow> string \<Rightarrow> string list option) \<Rightarrow> api_server \<Rightarrow> http_context \<Rightarrow> outcome option" where
  "call_resource regex_match srv cxt = call_resource_loop regex_match (m_resource srv) cxt"

fun find_dotdot :: "string \<Rightarrow> bool" where
  "find_dotdot (a # b # s) = (a = CHR ''.'' \<and> b = CHR ''.'' \<or> find_dotdot (b # s))"
| "find_dotdot _ = False"

definition bad_target :: "string \<Rightarrow> bool" where
  "bad_target target \<longleftrightarrow> target = [] \<or> target ! 0 \<noteq> CHR ''/'' \<or> find_dotdot target"

definition finish_response :: "http_context \<Rightarrow> http_context" where
  "finish_response cxt =
     (let r = (res cxt)\<lparr>res_version := req_version (req cxt)\<rparr>;
          r = set_field ''Server'' beast_version r;
          r = content_length (length (res_body r)) r;
          r = set_keep_alive (req_keep_alive (req cxt)) r
      in cxt\<lparr>res := r\<rparr>)"

definition handle_request ::
  "(string \<Rightarrow> string \<Rightarrow> string list option) \<Rightarrow> api_server \<Rightarrow> http_context \<Rightarrow> outcome" where
  "handle_request regex_match srv cxt0 =
     (let cxt = cxt0\<lparr>res := empty_response\<rparr>;
          target = req_target (req cxt)
      in if bad_target target
         then m_bad_resource srv (''path must be absolute and not contain '' @ [CHR 0x22] @ ''..'' @ [CHR 0x22]) cxt
         else case parse_target target (path cxt) [] of (ok, p, query_string) \<Rightarrow>
           let cxt = cxt\<lparr>path := p\<rparr>
           in if \<not> ok then m_bad_resource srv ''parse target failed'' cxt
              else case parse_query_string query_string of
                Inl _ \<Rightarrow> Std_exception ''basic_string::substr'' cxt
              | Inr q \<Rightarrow>
                  let cxt = cxt\<lparr>query_params := mset q\<rparr>
                  in (case (case call_resource regex_match srv cxt of
                              None \<Rightarrow> (False, m_default_resource srv cxt)
                            | Some out \<Rightarrow> (True, out)) of
                        (found, Normal cxt') \<Rightarrow> if found then Normal (finish_response cxt') else Normal cxt'
                      | (found, Std_exception what cxt') \<Rightarrow> m_bad_resource srv what cxt'
                      | (found, Other_exception cxt') \<Rightarrow> Other_exception cxt'))"

section \<open>Sessions\<close>

text \<open>
  One turn of the session loop as the socket sees it: whether the server is still running when
  the loop tests it, the results of the reads and writes, and the request that was read.
\<close>

datatype ec = No_error | End_of_stream | Other_error

record round =
  r_running :: bool
  r_read_header :: ec
  r_request :: request
  r_write_continue :: ec
  r_read :: ec
  r_write :: ec

datatype event = Continue_100 | Response response

datatype session_end = Closed | Returned_early | Threw | Waiting

fun session_loop ::
  "(http_context \<Rightarrow> http_context) \<Rightarrow> (http_context \<Rightarrow> outcome) \<Rightarrow> (http_context \<Rightarrow> http_context) \<Rightarrow>
   http_context \<Rightarrow> round list \<Rightarrow> event list \<times> session_end" where
  "session_loop first_process handle last_process cxt [] = ([], Waiting)"
| "session_loop first_process handle last_process cxt (r # rs) =
     (if \<not> r_running r then ([], Closed)
      else if r_read_header r = End_of_stream then ([], Closed)
      else if r_read_header r \<noteq> No_error then ([], Returned_early)
      else let continued = (req_expect (r_request r) = ''100-continue'');
               pre = (if continued then [Continue_100] else [])
      in if continued \<and> r_write_continue r \<noteq> No_error then ([], Returned_early)
         else if r_read r \<noteq> No_error then (pre, Returned_early)
         else case handle (first_process (cxt\<lparr>req := r_request r\<rparr>)) of
           Normal cxt1 \<Rightarrow>
             let cxt2 = last_process cxt1; close = need_eof (res cxt2)
             in if r_write r \<noteq> No_error then (pre, Returned_early)
                else if close then (pre @ [Response (res cxt2)], Closed)
                else (case session_loop first_process handle last_process cxt2 rs of
                        (evs, e) \<Rightarrow> (pre @ Response (res cxt2) # evs, e))
         | _ \<Rightarrow> (pre, Threw))"

definition empty_request :: request where
  "empty_request = \<lparr>req_method = ''<unknown>'', req_target = [], req_version = 11, req_fields = no_fields,
                    req_expect = [], req_body = []\<rparr>"

definition session ::
  "(string \<Rightarrow> string \<Rightarrow> string list option) \<Rightarrow> api_server \<Rightarrow> (http_context \<Rightarrow> http_context) \<Rightarrow> (http_context \<Rightarrow> http_context) \<Rightarrow>
   string option \<Rightarrow> round list \<Rightarrow> event list \<times> session_end" where
  "session regex_match srv first_process last_process endpoint rounds =
     (case endpoint of
        None \<Rightarrow> ([], Returned_early)
      | Some ep \<Rightarrow>
          session_loop first_process (handle_request regex_match srv) last_process
            \<lparr>remote_endpoint = ep, path = [], path_params = [], query_params = {#}, req = empty_request, res = empty_response\<rparr>
            rounds)"

section \<open>Which resource function is called\<close>

definition skips :: "(string \<Rightarrow> string \<Rightarrow> string list option) \<Rightarrow> http_context \<Rightarrow> string \<times> (string \<times> resource_call) list \<Rightarrow> bool" where
  "skips regex_match cxt e \<longleftrightarrow> map_of (snd e) (req_method (req cxt)) = None \<or> regex_match (path cxt) (fst e) = None"

lemma call_resource_loop_dropWhile:
  "call_resource_loop regex_match rs cxt =
   (case dropWhile (skips regex_match cxt) rs of [] \<Rightarrow> None
    | (regex, methods) # _ \<Rightarrow>
        Some (the (map_of methods (req_method (req cxt))) (cxt\<lparr>path_params := the (regex_match (path cxt) regex)\<rparr>)))"
  by (induction rs) (auto simp: skips_def split: option.splits)

text \<open>
  C31: Dispatch. A resource function is called exactly when some registered expression has an
  entry for the method and matches the path; it is the one of the first such expression in
  the order of the map, called on the context with the matched groups stored.
\<close>

theorem call_resource_first_match:
  "(call_resource regex_match srv cxt = Some out \<longleftrightarrow>
     (\<exists>before regex methods after fn groups.
        m_resource srv = before @ (regex, methods) # after \<and> list_all (skips regex_match cxt) before \<and>
        map_of methods (req_method (req cxt)) = Some fn \<and> regex_match (path cxt) regex = Some groups \<and>
        out = fn (cxt\<lparr>path_params := groups\<rparr>))) \<and>
   (call_resource regex_match srv cxt = None \<longleftrightarrow> list_all (skips regex_match cxt) (m_resource srv))"
proof (intro conjI iffI)
  let ?P = "skips regex_match cxt"
  assume "call_resource regex_match srv cxt = Some out"
  then obtain regex methods after where d: "dropWhile ?P (m_resource srv) = (regex, methods) # after"
      and out: "out = the (map_of methods (req_method (req cxt))) (cxt\<lparr>path_params := the (regex_match (path cxt) regex)\<rparr>)"
    by (auto simp: call_resource_def call_resource_loop_dropWhile split: list.splits)
  have m: "m_resource srv = takeWhile ?P (m_resource srv) @ (regex, methods) # after" and n: "\<not> ?P (regex, methods)"
    using dropWhile_split [OF d] by auto
  have "list_all ?P (takeWhile ?P (m_resource srv))"
    by (auto simp: list_all_iff dest: set_takeWhileD)
  then show "\<exists>before regex methods after fn groups.
        m_resource srv = before @ (regex, methods) # after \<and> list_all ?P before \<and>
        map_of methods (req_method (req cxt)) = Some fn \<and> regex_match (path cxt) regex = Some groups \<and>
        out = fn (cxt\<lparr>path_params := groups\<rparr>)"
    using m n out by (fastforce simp: skips_def)
next
  let ?P = "skips regex_match cxt"
  assume "\<exists>before regex methods after fn groups.
        m_resource srv = before @ (regex, methods) # after \<and> list_all ?P before \<and>
        map_of methods (req_method (req cxt)) = Some fn \<and> regex_match (path cxt) regex = Some groups \<and>
        out = fn (cxt\<lparr>path_params := groups\<rparr>)"
  then show "call_resource regex_match srv cxt = Some out"
    by (auto simp: call_resource_def call_resource_loop_dropWhile list_all_iff dropWhile_append2 skips_def)
next
  have "call_resource regex_match srv cxt = None \<longleftrightarrow> dropWhile (skips regex_match cxt) (m_resource srv) = []"
    unfolding call_resource_def call_resource_loop_dropWhile
    by (cases "dropWhile (skips regex_match cxt) (m_resource srv)")
      (simp_all add: case_prod_unfold del: dropWhile_eq_Nil_conv)
  then have *: "call_resource regex_match srv cxt = None \<longleftrightarrow> list_all (skips regex_match cxt) (m_resource srv)"
    by (simp only: dropWhile_eq_Nil_conv list_all_iff)
  show "call_resource regex_match srv cxt = None \<Longrightarrow> list_all (skips regex_match cxt) (m_resource srv)"
    by (simp only: *)
  show "list_all (skips regex_match cxt) (m_resource srv) \<Longrightarrow> call_resource regex_match srv cxt = None"
    by (simp only: *)
qed

section \<open>Resource functions see only absolute paths without dots\<close>

lemma find_dotdot_iff: "find_dotdot s \<longleftrightarrow> (\<exists>u v. s = u @ ''..'' @ v)"
proof (induction s rule: find_dotdot.induct)
  case (1 a b s)
  show ?case
  proof
    assume "find_dotdot (a # b # s)"
    then consider "a = CHR ''.''" "b = CHR ''.''" | "find_dotdot (b # s)" by auto
    then show "\<exists>u v. a # b # s = u @ ''..'' @ v"
    proof cases
      case 1
      then have "a # b # s = [] @ ''..'' @ s" by simp
      then show ?thesis by blast
    next
      case 2
      then obtain u v where "b # s = u @ ''..'' @ v" using "1.IH" by blast
      then have "a # b # s = (a # u) @ ''..'' @ v" by simp
      then show ?thesis by blast
    qed
  next
    assume "\<exists>u v. a # b # s = u @ ''..'' @ v"
    then obtain u v where uv: "a # b # s = u @ ''..'' @ v" by blast
    show "find_dotdot (a # b # s)"
    proof (cases u)
      case Nil
      then show ?thesis using uv by simp
    next
      case (Cons c u')
      then have "b # s = u' @ ''..'' @ v" using uv by simp
      then have "find_dotdot (b # s)" using "1.IH" by blast
      then show ?thesis by simp
    qed
  qed
qed (auto simp: append_eq_Cons_conv)

definition safe_path :: "string \<Rightarrow> bool" where
  "safe_path p \<longleftrightarrow> p \<noteq> [] \<and> hd p = CHR ''/'' \<and> CHR ''?'' \<notin> set p \<and> (\<nexists>u v. p = u @ ''..'' @ v)"

definition guard_resource :: "resource_call \<Rightarrow> resource_call" where
  "guard_resource fn cxt = (if safe_path (path cxt) then fn cxt else Other_exception cxt)"

definition guard_server :: "api_server \<Rightarrow> api_server" where
  "guard_server srv = srv\<lparr>m_resource := map (\<lambda>(r, ms). (r, map (\<lambda>(m, fn). (m, guard_resource fn)) ms)) (m_resource srv)\<rparr>"

lemma parse_target_path: "fst (snd (parse_target target p0 q0)) = takeWhile (\<lambda>c. c \<noteq> CHR ''?'') target"
proof (cases "CHR ''?'' \<in> set target")
  case True
  then obtain a b where "target = a @ CHR ''?'' # b" "CHR ''?'' \<notin> set a" by (meson split_list_first)
  moreover from this have "takeWhile (\<lambda>c. c \<noteq> CHR ''?'') (a @ CHR ''?'' # b) = a"
    by (subst takeWhile_append2) auto
  ultimately show ?thesis by (simp add: parse_target_query)
next
  case False
  then have "takeWhile (\<lambda>c. c \<noteq> CHR ''?'') target = target" by (subst takeWhile_eq_all_conv) metis
  then show ?thesis using parse_target_no_query [OF False, of p0 q0] by (simp only: fst_conv snd_conv)
qed

lemma parse_target_safe:
  assumes "\<not> bad_target target" and "parse_target target p0 q0 = (ok, p, q)"
  shows "safe_path p"
proof -
  have t: "target \<noteq> []" "hd target = CHR ''/''" "\<not> find_dotdot target"
    using assms(1) by (auto simp: bad_target_def hd_conv_nth)
  have p: "p = takeWhile (\<lambda>c. c \<noteq> CHR ''?'') target"
    using parse_target_path [of target p0 q0] assms(2) by simp
  have "\<exists>w. target = p @ w" using p by (metis takeWhile_dropWhile_id)
  then have "\<nexists>u v. p = u @ ''..'' @ v" using t(3) find_dotdot_iff [of target] by (metis append.assoc)
  moreover have "p \<noteq> []" "hd p = CHR ''/''" using p t(1,2) by (cases target; auto)+
  moreover have "CHR ''?'' \<notin> set p" using p by (auto dest: set_takeWhileD)
  ultimately show ?thesis by (simp add: safe_path_def)
qed

lemma call_resource_guarded:
  "safe_path (path cxt) \<Longrightarrow> call_resource regex_match (guard_server srv) cxt = call_resource regex_match srv cxt"
proof -
  assume safe: "safe_path (path cxt)"
  have m: "map_of (map (\<lambda>(m, fn). (m, guard_resource fn)) ms) k = map_option guard_resource (map_of ms k)" for ms k
    by (induction ms) auto
  have "call_resource_loop regex_match (map (\<lambda>(r, ms). (r, map (\<lambda>(m, fn). (m, guard_resource fn)) ms)) rs) cxt =
      call_resource_loop regex_match rs cxt" for rs
    using safe by (induction rs) (auto simp: m guard_resource_def split: option.splits)
  then show ?thesis by (simp add: call_resource_def guard_server_def)
qed

text \<open>
  C4: A resource function is only ever called on a path that is absolute, has no two dots in a
  row and no question mark: putting a guard that refuses any other path in front of every
  resource function changes nothing, for any request and any server.
\<close>

theorem handle_request_guarded:
  "handle_request regex_match (guard_server srv) cxt = handle_request regex_match srv cxt"
proof -
  have d: "m_default_resource (guard_server srv) = m_default_resource srv" "m_bad_resource (guard_server srv) = m_bad_resource srv"
    by (simp_all add: guard_server_def)
  obtain ok p q where pt: "parse_target (req_target (req cxt)) (path cxt) [] = (ok, p, q)" by (metis prod_cases3)
  show ?thesis
  proof (cases "bad_target (req_target (req cxt))")
    case True
    then show ?thesis by (simp add: handle_request_def d Let_def)
  next
    case False
    have "safe_path p" using parse_target_safe [OF False pt] .
    then have "call_resource regex_match (guard_server srv) (c\<lparr>path := p, query_params := qp\<rparr>) =
        call_resource regex_match srv (c\<lparr>path := p, query_params := qp\<rparr>)" for c qp
      by (simp add: call_resource_guarded)
    then show ?thesis using False pt unfolding handle_request_def Let_def d by (simp split: sum.splits)
  qed
qed

section \<open>Responses are framed and connections closed when they must be\<close>

lemma token_exists_append [simp]: "token_exists (xs @ ys) t \<longleftrightarrow> token_exists xs t \<or> token_exists ys t"
  by (auto simp: token_exists_def)

lemma token_exists_filter:
  "token_exists (filter_token_list ts bad) t \<longleftrightarrow> (\<exists>x \<in> set ts. iequals x t \<and> \<not> (\<exists>b \<in> set bad. iequals x b))"
  by (auto simp: token_exists_def filter_token_list_def)

lemma iequals_tokens [simp]:
  "iequals ''close'' ''close''" "iequals ''keep-alive'' ''keep-alive''"
  "\<not> iequals ''close'' ''keep-alive''" "\<not> iequals ''keep-alive'' ''close''"
  by code_simp+

lemma close_not_keep: "iequals x ''close'' \<Longrightarrow> \<not> iequals x ''keep-alive''"
  by (auto simp: iequals_def split: if_splits)

text \<open>What \<open>keep_alive(v)\<close> sets is what \<open>keep_alive()\<close> returns, in both versions of the protocol.\<close>

lemma keep_alive_set: "res_keep_alive (set_keep_alive v r) = v"
proof -
  define ts where "ts = connection (res_fields r)"
  have "(res_version r < 11 \<longrightarrow> token_exists (keep_alive_impl ts (res_version r) v) ''keep-alive'' = v) \<and>
    (\<not> res_version r < 11 \<longrightarrow> token_exists (keep_alive_impl ts (res_version r) v) ''close'' = (\<not> v))"
    using close_not_keep
    by (auto simp: keep_alive_impl_def Let_def token_exists_filter)
      (auto simp: token_exists_def filter_token_list_def)
  then show ?thesis
    by (simp add: res_keep_alive_def set_keep_alive_def get_keep_alive_impl_def ts_def)
qed

lemma response_simps [simp]:
  "res_result (set_field n v r) = res_result r" "res_version (set_field n v r) = res_version r"
  "res_body (set_field n v r) = res_body r" "res_result (set_keep_alive k r) = res_result r"
  "res_version (set_keep_alive k r) = res_version r" "res_body (set_keep_alive k r) = res_body r"
  "res_result (content_length m r) = res_result r" "res_version (content_length m r) = res_version r"
  "res_body (content_length m r) = res_body r"
  "content_length_field (res_fields (content_length m r)) = Some m"
  "content_length_field (res_fields (set_keep_alive k r)) = content_length_field (res_fields r)"
  "res_keep_alive (content_length m r) = res_keep_alive r"
  "res_keep_alive (r\<lparr>res_body := b\<rparr>) = res_keep_alive r"
  by (simp_all add: set_field_def set_keep_alive_def content_length_def res_keep_alive_def get_keep_alive_impl_def Let_def)

definition framed :: "response \<Rightarrow> bool" where
  "framed r \<longleftrightarrow> content_length_field (res_fields r) = Some (length (res_body r))"

lemma need_eof_framed: "framed r \<Longrightarrow> need_eof r \<longleftrightarrow> \<not> res_keep_alive r"
  by (simp add: need_eof_def framed_def)

lemma error_response_shape:
  assumes "status \<notin> {1, 204, 304}"
  shows "\<exists>r. error_response status body cxt = Normal (cxt\<lparr>res := r\<rparr>) \<and> res_result r = status \<and> res_body r = body \<and>
    res_version r = req_version (req cxt) \<and> framed r \<and> need_eof r"
proof -
  have "framed r \<Longrightarrow> \<not> res_keep_alive r \<Longrightarrow> need_eof r" for r by (simp add: need_eof_framed)
  then show ?thesis
    using assms unfolding error_response_def prepare_payload_def Let_def
    by (simp add: framed_def) (rule exI, rule conjI, rule refl, simp add: keep_alive_set)
qed

lemma finish_response_shape:
  "framed (res (finish_response cxt)) \<and> res_version (res (finish_response cxt)) = req_version (req cxt) \<and>
   res_result (res (finish_response cxt)) = res_result (res cxt) \<and> res_body (res (finish_response cxt)) = res_body (res cxt) \<and>
   (need_eof (res (finish_response cxt)) \<longleftrightarrow> \<not> req_keep_alive (req cxt)) \<and> req (finish_response cxt) = req cxt"
proof -
  have f: "framed (res (finish_response cxt))"
    by (simp add: finish_response_def Let_def framed_def)
  have "res_keep_alive (res (finish_response cxt)) = req_keep_alive (req cxt)"
    by (simp add: finish_response_def Let_def keep_alive_set)
  then show ?thesis
    using f need_eof_framed [OF f] by (simp add: finish_response_def Let_def)
qed

lemma default_server_simps [simp]:
  "m_default_resource (HttpApiServer rs) = default_resource" "m_bad_resource (HttpApiServer rs) = bad_resource"
  by (simp_all add: HttpApiServer_def)

text \<open>The context that \<open>handle_request\<close> passes to the resource functions.\<close>

definition routed :: "http_context \<Rightarrow> http_context" where
  "routed cxt = (case parse_target (req_target (req cxt)) (path cxt) [] of (ok, p, q) \<Rightarrow>
     cxt\<lparr>res := empty_response, path := p, query_params := mset (query_spec q)\<rparr>)"

lemma req_routed: "req (routed cxt) = req cxt"
  by (simp add: routed_def split: prod.splits)

lemma parse_target_ok: "\<exists>p q. parse_target t p0 [] = (True, p, q) \<and> length q \<le> length t"
  by (auto simp: parse_target_def Let_def)

lemma handle_request_cases:
  assumes "length (req_target (req cxt)) < npos"
  shows "handle_request regex_match (HttpApiServer rs) cxt =
   (if bad_target (req_target (req cxt))
    then bad_resource (''path must be absolute and not contain '' @ [CHR 0x22] @ ''..'' @ [CHR 0x22]) (cxt\<lparr>res := empty_response\<rparr>)
    else case call_resource regex_match (HttpApiServer rs) (routed cxt) of
        None \<Rightarrow> default_resource (routed cxt)
      | Some (Normal c) \<Rightarrow> Normal (finish_response c)
      | Some (Std_exception what c) \<Rightarrow> bad_resource what c
      | Some (Other_exception c) \<Rightarrow> Other_exception c)"
proof (cases "bad_target (req_target (req cxt))")
  case True
  then show ?thesis by (simp add: handle_request_def Let_def)
next
  case False
  obtain p q where pt: "parse_target (req_target (req cxt)) (path cxt) [] = (True, p, q)"
      and "length q \<le> length (req_target (req cxt))"
    using parse_target_ok by blast
  then have "parse_query_string q = Inr (query_spec q)" using assms by (intro parse_query_string_eq) simp
  moreover obtain r where "default_resource (routed cxt) = Normal ((routed cxt)\<lparr>res := r\<rparr>)"
    using error_response_shape [of 404 _ "routed cxt"] by (auto simp: default_resource_def)
  ultimately show ?thesis
    using False pt by (simp add: handle_request_def routed_def Let_def split: option.splits outcome.splits)
qed

lemma bad_resource_shape:
  "\<exists>r. bad_resource why c = Normal (c\<lparr>res := r\<rparr>) \<and> res_result r = 400 \<and> res_body r = why \<and>
     res_version r = req_version (req c) \<and> framed r \<and> need_eof r"
  using error_response_shape [of 400 why c] by (simp add: bad_resource_def)

lemma default_resource_shape:
  "\<exists>r. default_resource c = Normal (c\<lparr>res := r\<rparr>) \<and> res_result r = 404 \<and>
     res_body r = [CHR ''T'', CHR ''h'', CHR ''e'', CHR '' '', CHR 0x27] @ req_method (req c) @
       [CHR 0x27] @ '' resource '' @ [CHR 0x27] @ path c @ [CHR 0x27] @ '' was not found.'' \<and>
     res_version r = req_version (req c) \<and> framed r \<and> need_eof r"
  using error_response_shape [of 404 _ c] unfolding default_resource_def by fastforce

lemma handle_request_framed:
  assumes "length (req_target (req cxt)) < npos" and "handle_request regex_match (HttpApiServer rs) cxt = Normal c"
  shows "framed (res c)"
proof -
  have "bad_resource why d = Normal c \<Longrightarrow> framed (res c)" for why d
    using bad_resource_shape [of why d] by auto
  moreover have "default_resource d = Normal c \<Longrightarrow> framed (res c)" for d
    using default_resource_shape [of d] by auto
  ultimately show ?thesis
    using assms(2) finish_response_shape unfolding handle_request_cases [OF assms(1)]
    by (auto split: if_splits option.splits outcome.splits)
qed

text \<open>
  C32: Every response of the server as constructed carries the length of its body and the
  version of the request. A refused target gives status 400 with the fixed reason as body, an
  exception of a resource function status 400 with its text as body, an unknown resource gives 404
  with a body that names the method and the path, and these responses end the connection; the
  response of a resource function keeps its status and body and leaves the
  connection open exactly when the request asks for that. No standard exception escapes.
\<close>

theorem handle_request_response:
  assumes "length (req_target (req cxt)) < npos"
  shows "case handle_request regex_match (HttpApiServer rs) cxt of
      Normal c \<Rightarrow>
        framed (res c) \<and> res_version (res c) = req_version (req c) \<and>
        (if bad_target (req_target (req cxt)) then res_result (res c) = 400 \<and> need_eof (res c) \<and>
           res_body (res c) = ''path must be absolute and not contain '' @ [CHR 0x22] @ ''..'' @ [CHR 0x22]
         else case call_resource regex_match (HttpApiServer rs) (routed cxt) of
             None \<Rightarrow> res_result (res c) = 404 \<and> need_eof (res c) \<and>
               res_body (res c) = [CHR ''T'', CHR ''h'', CHR ''e'', CHR '' '', CHR 0x27] @ req_method (req cxt) @
                 [CHR 0x27] @ '' resource '' @ [CHR 0x27] @ path (routed cxt) @ [CHR 0x27] @ '' was not found.''
           | Some (Normal d) \<Rightarrow> res_result (res c) = res_result (res d) \<and> res_body (res c) = res_body (res d) \<and>
               (need_eof (res c) \<longleftrightarrow> \<not> req_keep_alive (req d))
           | Some (Std_exception what d) \<Rightarrow> res_result (res c) = 400 \<and> res_body (res c) = what \<and> need_eof (res c)
           | Some (Other_exception d) \<Rightarrow> False)
    | Std_exception what c \<Rightarrow> False
    | Other_exception c \<Rightarrow> call_resource regex_match (HttpApiServer rs) (routed cxt) = Some (Other_exception c)"
proof -
  note bad = bad_resource_shape and def = default_resource_shape
  show ?thesis
  proof (cases "bad_target (req_target (req cxt))")
    case True
    then show ?thesis
      using bad [of "''path must be absolute and not contain '' @ [CHR 0x22] @ ''..'' @ [CHR 0x22]" "cxt\<lparr>res := empty_response\<rparr>"]
      by (auto simp: handle_request_cases [OF assms])
  next
    case False
    show ?thesis
    proof (cases "call_resource regex_match (HttpApiServer rs) (routed cxt)")
      case None
      then show ?thesis using False def [of "routed cxt"] by (auto simp: handle_request_cases [OF assms] req_routed)
    next
      case (Some out)
      show ?thesis
      proof (cases out)
        case (Normal c)
        then show ?thesis
          using False Some finish_response_shape [of c] by (simp add: handle_request_cases [OF assms])
      next
        case (Std_exception what c)
        then show ?thesis
          using False Some bad [of what c] by (auto simp: handle_request_cases [OF assms])
      next
        case (Other_exception c)
        then show ?thesis using False Some by (simp add: handle_request_cases [OF assms])
      qed
    qed
  qed
qed

theorem handle_request_response_witness:
  "case handle_request (\<lambda>p r. if p = r then Some [p] else None)
       (HttpApiServer [(''/a'', [(''GET'', \<lambda>c. Std_exception ''boom'' c)])])
       \<lparr>remote_endpoint = [], path = [], path_params = [], query_params = {#},
        req = \<lparr>req_method = ''GET'', req_target = ''/a?x=1'', req_version = 11, req_fields = no_fields, req_expect = [], req_body = []\<rparr>,
        res = empty_response\<rparr> of
      Normal c \<Rightarrow> framed (res c) \<and> res_result (res c) = 400 \<and> res_body (res c) = ''boom'' \<and> need_eof (res c)
    | _ \<Rightarrow> False"
proof -
  let ?rm = "\<lambda>p r. if p = r then Some [p] else (None :: string list option)"
  let ?rs = "[(''/a'', [(''GET'', \<lambda>c. Std_exception ''boom'' c)])]"
  let ?cxt = "\<lparr>remote_endpoint = [], path = [], path_params = [], query_params = {#},
        req = \<lparr>req_method = ''GET'', req_target = ''/a?x=1'', req_version = 11, req_fields = no_fields, req_expect = [], req_body = []\<rparr>,
        res = empty_response\<rparr>"
  have "\<not> bad_target ''/a?x=1''" by (simp add: bad_target_def)
  moreover have "\<exists>c. call_resource ?rm (HttpApiServer ?rs) (routed ?cxt) = Some (Std_exception ''boom'' c)"
    using parse_target_query [of "''/a''" "''x=1''" "[]" "[]"]
    by (simp add: call_resource_def HttpApiServer_def routed_def)
  ultimately show ?thesis
    using handle_request_response [of ?cxt ?rm ?rs] by (auto simp: npos_def split: outcome.splits)
qed

section \<open>Sessions\<close>

definition responses :: "event list \<Rightarrow> response list" where
  "responses evs = List.map_filter (\<lambda>e. case e of Response r \<Rightarrow> Some r | Continue_100 \<Rightarrow> None) evs"

lemma responses_simps [simp]:
  "responses [] = []" "responses (Response r # evs) = r # responses evs" "responses (Continue_100 # evs) = responses evs"
  "responses (xs @ ys) = responses xs @ responses ys"
  by (simp_all add: responses_def List.map_filter_simps List.map_filter_def)

text \<open>
  One turn of the loop: it ends the session, with at most one response, or it writes one response
  that leaves the connection open and goes on with the rest of the script.
\<close>

lemma session_loop_turn:
  assumes "session_loop fp handle lp cxt (r # rs) = (evs, e)"
  obtains (stop) "responses evs = []"
  | (last) pre c where "evs = pre @ [Response (res (lp c))]" "responses pre = []" "e = Closed"
      "handle (fp (cxt\<lparr>req := r_request r\<rparr>)) = Normal c"
  | (more) pre c evs' where "evs = pre @ Response (res (lp c)) # evs'" "responses pre = []"
      "\<not> need_eof (res (lp c))" "session_loop fp handle lp (lp c) rs = (evs', e)"
      "handle (fp (cxt\<lparr>req := r_request r\<rparr>)) = Normal c"
proof (cases "responses evs = []")
  case True
  then show thesis by (rule stop)
next
  case False
  define pre where "pre = (if req_expect (r_request r) = ''100-continue'' then [Continue_100] else [])"
  have p: "responses pre = []" by (simp add: pre_def)
  obtain c where c: "handle (fp (cxt\<lparr>req := r_request r\<rparr>)) = Normal c" "r_write r = No_error"
      and l: "session_loop fp handle lp cxt (r # rs) =
        (if need_eof (res (lp c)) then (pre @ [Response (res (lp c))], Closed)
         else case session_loop fp handle lp (lp c) rs of (evs, e) \<Rightarrow> (pre @ Response (res (lp c)) # evs, e))"
    using assms False unfolding pre_def by (auto simp: Let_def split: if_splits outcome.splits)
  obtain evs' e' where s: "session_loop fp handle lp (lp c) rs = (evs', e')" by (cases "session_loop fp handle lp (lp c) rs")
  show thesis
    using assms l s c p last [of pre c] more [of pre c evs'] by (simp split: if_splits)
qed

lemma session_loop_responses:
  assumes "session_loop fp handle lp cxt rounds = (evs, e)"
    and "\<And>c c' r. r \<in> set rounds \<Longrightarrow> handle (fp (c\<lparr>req := r_request r\<rparr>)) = Normal c' \<Longrightarrow> P (res (lp c'))"
  shows "length (responses evs) \<le> length rounds \<and> list_all P (responses evs) \<and>
    list_all (\<lambda>r. \<not> need_eof r) (butlast (responses evs)) \<and>
    (responses evs \<noteq> [] \<and> need_eof (last (responses evs)) \<longrightarrow> e = Closed)"
  using assms
proof (induction rounds arbitrary: cxt evs)
  case (Cons r rs)
  from Cons.prems(1) show ?case
  proof (cases rule: session_loop_turn)
    case (last pre c)
    then show ?thesis using Cons.prems(2) [of r cxt c] by simp
  next
    case (more pre c evs')
    have "P (res (lp c))" using Cons.prems(2) [of r cxt c] more(5) by simp
    moreover have "length (responses evs') \<le> length rs \<and> list_all P (responses evs') \<and>
      list_all (\<lambda>r. \<not> need_eof r) (butlast (responses evs')) \<and>
      (responses evs' \<noteq> [] \<and> need_eof (last (responses evs')) \<longrightarrow> e = Closed)"
      by (rule Cons.IH [OF more(4)]) (rule Cons.prems(2), simp_all)
    ultimately show ?thesis using more by (simp split: if_splits)
  qed simp
qed simp

text \<open>
  C3: A session of the server as constructed, with any resource functions, any pre-processing
  and any post-processing that keeps the body length right: it writes at most one response
  per request, every response carries its length, no response is written on the connection
  after one that needs the connection to end, and after such a response the connection is closed.
\<close>

theorem session_persistence:
  assumes "session regex_match (HttpApiServer rs) first_process last_process endpoint rounds = (evs, e)"
    and "\<And>c r. r \<in> set rounds \<Longrightarrow> length (req_target (req (first_process (c\<lparr>req := r_request r\<rparr>)))) < npos"
    and "\<And>c. framed (res c) \<Longrightarrow> framed (res (last_process c))"
  shows "length (responses evs) \<le> length rounds \<and> list_all framed (responses evs) \<and>
    list_all (\<lambda>r. \<not> need_eof r) (butlast (responses evs)) \<and>
    (responses evs \<noteq> [] \<and> need_eof (last (responses evs)) \<longrightarrow> e = Closed)"
proof (cases endpoint)
  case None
  then show ?thesis using assms(1) by (auto simp: session_def)
next
  case (Some ep)
  have "framed (res (last_process c'))"
    if "r \<in> set rounds" and "handle_request regex_match (HttpApiServer rs) (first_process (c\<lparr>req := r_request r\<rparr>)) = Normal c'" for c c' r
    using handle_request_framed [OF assms(2) [OF that(1)] that(2)] assms(3) by blast
  then show ?thesis
    using assms(1) Some session_loop_responses [of first_process _ last_process _ rounds evs e framed]
    by (simp add: session_def)
qed

theorem session_persistence_witness:
  "length (responses (fst (session (\<lambda>p r. None) (HttpApiServer []) (\<lambda>c. c) (\<lambda>c. c) (Some ''peer'')
     [\<lparr>r_running = True, r_read_header = No_error, r_request = empty_request\<lparr>req_target := ''/x''\<rparr>, r_write_continue = No_error,
       r_read = No_error, r_write = No_error\<rparr>]))) \<le> 1"
proof -
  let ?rounds = "[\<lparr>r_running = True, r_read_header = No_error, r_request = empty_request\<lparr>req_target := ''/x''\<rparr>, r_write_continue = No_error,
       r_read = No_error, r_write = No_error\<rparr>]"
  obtain evs e where s: "session (\<lambda>p r. None) (HttpApiServer []) (\<lambda>c. c) (\<lambda>c. c) (Some ''peer'') ?rounds = (evs, e)"
    by (metis surj_pair)
  from session_persistence [OF this] have "length (responses evs) \<le> 1"
    by (simp add: npos_def)
  with s show ?thesis by simp
qed

end
