(* ===== verification/Server_Lifecycle.thy ===== *)
theory Server_Lifecycle
  imports Prelude
begin

text \<open>
  Starting and stopping the server of \<open>http/http_api_server.cpp\<close>: the accept loop, the
  counter of live sessions, and \<open>stop()\<close>, which closes the acceptor, joins the accept fiber,
  waits for the counter to reach zero and joins the threads. The fibers and the completion
  of socket operations interleave at the points where a fiber can be suspended; every
  interleaving is a sequence of steps of the relation below. A critical section under
  \<open>m_session_mutex\<close> is one step.

  The lemmas show that \<open>stop()\<close> never gets past its wait while a session is alive and that no
  wake-up is lost, and two interleavings in which \<open>stop()\<close> does not end well: the accept
  loop restarted on a closed acceptor, and \<open>stop()\<close> before the acceptor is opened.
\<close>

section \<open>State\<close>

datatype accept_result = Accepted | No_descriptors | Operation_aborted | Other_failure

text \<open>Where the accept fiber is; \<open>Spawned\<close> is between the start of a session and the count of it.\<close>

datatype accept_pc =
    Not_started
  | Calling
  | Pending
  | Completed accept_result
  | Spawned
  | Accept_done
  | Accept_threw

text \<open>Where \<open>stop()\<close> is; \<open>Blocked\<close> is asleep on \<open>m_session_cnd\<close>.\<close>

datatype stop_pc =
    Idle
  | Flag_cleared
  | Acceptor_closed
  | Accept_joined
  | Blocked
  | Sessions_done
  | Stopped

record server =
  m_running :: bool
  acceptor_open :: bool
  accept_at :: accept_pc
  sessions :: nat
  m_session_number :: int
  stop_at :: stop_pc

section \<open>Operations\<close>

text \<open>\<open>start()\<close>: the flag is set, the counter reset and the accept fiber created.\<close>

definition started :: server where
  "started = \<lparr>m_running = True, acceptor_open = False, accept_at = Not_started, sessions = 0,
              m_session_number = 0, stop_at = Idle\<rparr>"

text \<open>\<open>async_accept\<close> on a closed acceptor completes at once with the error \<open>bad_descriptor\<close>.\<close>

definition call_async_accept :: "server \<Rightarrow> server" where
  "call_async_accept s = s\<lparr>accept_at := (if acceptor_open s then Pending else Completed Other_failure)\<rparr>"

definition resume_accept :: "accept_result \<Rightarrow> server \<Rightarrow> server" where
  "resume_accept r s =
     (case r of
        Accepted \<Rightarrow> s\<lparr>accept_at := Spawned, sessions := sessions s + 1\<rparr>
      | No_descriptors \<Rightarrow> s\<lparr>accept_at := Calling\<rparr>
      | Operation_aborted \<Rightarrow> s\<lparr>accept_at := Accept_done\<rparr>
      | Other_failure \<Rightarrow> s\<lparr>accept_at := Accept_threw\<rparr>)"

definition count_session :: "server \<Rightarrow> server" where
  "count_session s = s\<lparr>accept_at := Calling, m_session_number := m_session_number s + 1\<rparr>"

text \<open>The end of a session fiber: it decrements the counter and notifies a waiting \<open>stop()\<close>.\<close>

definition end_session :: "server \<Rightarrow> server" where
  "end_session s =
     (let n = m_session_number s - 1
      in s\<lparr>sessions := sessions s - 1, m_session_number := n,
            stop_at := (if \<not> m_running s \<and> n = 0 \<and> stop_at s = Blocked then Accept_joined else stop_at s)\<rparr>)"

definition close_acceptor :: "server \<Rightarrow> server" where
  "close_acceptor s =
     s\<lparr>acceptor_open := False, stop_at := Acceptor_closed,
        accept_at := (if accept_at s = Pending then Completed Operation_aborted else accept_at s)\<rparr>"

definition check_sessions :: "server \<Rightarrow> server" where
  "check_sessions s = s\<lparr>stop_at := (if m_session_number s = 0 then Sessions_done else Blocked)\<rparr>"

text \<open>An exception that leaves the accept fiber ends the program: no step follows it.\<close>

inductive step :: "server \<Rightarrow> server \<Rightarrow> bool" where
  open_acceptor: "accept_at s = Not_started \<Longrightarrow> step s (s\<lparr>acceptor_open := True, accept_at := Calling\<rparr>)"
| open_fails: "accept_at s = Not_started \<Longrightarrow> step s (s\<lparr>accept_at := Accept_threw\<rparr>)"
| call: "accept_at s = Calling \<Longrightarrow> step s (call_async_accept s)"
| complete: "accept_at s = Pending \<Longrightarrow> r \<noteq> Operation_aborted \<Longrightarrow> step s (s\<lparr>accept_at := Completed r\<rparr>)"
| resume: "accept_at s = Completed r \<Longrightarrow> step s (resume_accept r s)"
| count: "accept_at s = Spawned \<Longrightarrow> step s (count_session s)"
| session_end: "accept_at s \<noteq> Accept_threw \<Longrightarrow> sessions s > 0 \<Longrightarrow> step s (end_session s)"
| stop_flag: "accept_at s \<noteq> Accept_threw \<Longrightarrow> stop_at s = Idle \<Longrightarrow> step s (s\<lparr>m_running := False, stop_at := Flag_cleared\<rparr>)"
| stop_close: "accept_at s \<noteq> Accept_threw \<Longrightarrow> stop_at s = Flag_cleared \<Longrightarrow> step s (close_acceptor s)"
| stop_join: "accept_at s = Accept_done \<Longrightarrow> stop_at s = Acceptor_closed \<Longrightarrow> step s (s\<lparr>stop_at := Accept_joined\<rparr>)"
| stop_wait: "accept_at s \<noteq> Accept_threw \<Longrightarrow> stop_at s = Accept_joined \<Longrightarrow> step s (check_sessions s)"
| stop_threads: "accept_at s \<noteq> Accept_threw \<Longrightarrow> stop_at s = Sessions_done \<Longrightarrow> step s (s\<lparr>stop_at := Stopped\<rparr>)"

inductive_cases stepE: "step s s'"

section \<open>The counter and the wait\<close>

definition past_join :: "stop_pc \<Rightarrow> bool" where
  "past_join p \<longleftrightarrow> p \<in> {Accept_joined, Blocked, Sessions_done, Stopped}"

definition counted :: "server \<Rightarrow> bool" where
  "counted s \<longleftrightarrow> int (sessions s) = m_session_number s + (if accept_at s = Spawned then 1 else 0)"

definition lifecycle_inv :: "server \<Rightarrow> bool" where
  "lifecycle_inv s \<longleftrightarrow> counted s \<and>
     (past_join (stop_at s) \<longrightarrow> accept_at s = Accept_done) \<and>
     (stop_at s \<noteq> Idle \<longrightarrow> \<not> m_running s) \<and>
     (stop_at s = Blocked \<longrightarrow> m_session_number s \<noteq> 0) \<and>
     (stop_at s \<in> {Sessions_done, Stopped} \<longrightarrow> m_session_number s = 0)"

lemmas lifecycle_defs = lifecycle_inv_def counted_def past_join_def

interpretation lifecycle: inductive_invariant "\<lambda>s. s = started" step lifecycle_inv
proof unfold_locales
  show "s = started \<Longrightarrow> lifecycle_inv s" for s
    by (simp add: lifecycle_defs started_def)
  fix s s'
  assume inv: "lifecycle_inv s" and "step s s'"
  from this(2) show "lifecycle_inv s'"
  proof cases
    case (resume r)
    then show ?thesis using inv by (cases r) (auto simp: lifecycle_defs resume_accept_def)
  qed (use inv in \<open>auto simp: lifecycle_defs call_async_accept_def count_session_def end_session_def Let_def
        close_acceptor_def check_sessions_def of_nat_diff split: if_splits\<close>)
qed

text \<open>
  C6: When stop() has passed its wait, the accept fiber has ended and no session fiber is alive,
  in every interleaving: the session counter, which may be decremented before it is
  incremented, is exact once the accept fiber has been joined.
\<close>

theorem stop_waits_for_sessions:
  assumes "step\<^sup>*\<^sup>* started s" and "stop_at s \<in> {Sessions_done, Stopped}"
  shows "sessions s = 0 \<and> accept_at s = Accept_done \<and> m_session_number s = 0"
  using lifecycle.reachable_inv [OF refl assms(1)] assms(2) by (auto simp: lifecycle_defs)

text \<open>A run that serves one connection and stops.\<close>

definition served :: server where
  "served = call_async_accept (count_session (resume_accept Accepted
     (call_async_accept (started\<lparr>acceptor_open := True, accept_at := Calling\<rparr>)\<lparr>accept_at := Completed Accepted\<rparr>)))"

definition joined :: server where
  "joined = (resume_accept Operation_aborted (close_acceptor (served\<lparr>m_running := False, stop_at := Flag_cleared\<rparr>)))\<lparr>stop_at := Accept_joined\<rparr>"

lemmas run_defs = started_def call_async_accept_def count_session_def resume_accept_def close_acceptor_def

lemmas then_step = rtranclp.rtrancl_into_rtrancl [where r = step]

lemma steps_served: "step\<^sup>*\<^sup>* started served"
proof -
  have "step\<^sup>*\<^sup>* started (started\<lparr>acceptor_open := True, accept_at := Calling\<rparr>)"
    by (rule r_into_rtranclp, rule open_acceptor) (simp add: started_def)
  from then_step [OF this call] have "step\<^sup>*\<^sup>* started (call_async_accept (started\<lparr>acceptor_open := True, accept_at := Calling\<rparr>))"
    by simp
  from then_step [OF this complete, of Accepted] have "step\<^sup>*\<^sup>* started
      ((call_async_accept (started\<lparr>acceptor_open := True, accept_at := Calling\<rparr>))\<lparr>accept_at := Completed Accepted\<rparr>)"
    by (simp add: run_defs)
  from then_step [OF then_step [OF then_step [OF this resume, of Accepted] count] call] show ?thesis
    by (simp add: served_def run_defs)
qed

lemma steps_joined: "step\<^sup>*\<^sup>* started joined"
proof -
  have "step\<^sup>*\<^sup>* started (close_acceptor (served\<lparr>m_running := False, stop_at := Flag_cleared\<rparr>))"
    using then_step [OF then_step [OF steps_served stop_flag] stop_close] by (simp add: served_def run_defs)
  from then_step [OF then_step [OF this resume, of Operation_aborted] stop_join] show ?thesis
    by (simp add: joined_def served_def run_defs)
qed

lemma end_session_fields [simp]:
  "sessions (end_session s) = sessions s - 1" "m_session_number (end_session s) = m_session_number s - 1"
  "accept_at (end_session s) = accept_at s" "m_running (end_session s) = m_running s"
  "stop_at (end_session s) =
     (if \<not> m_running s \<and> m_session_number s = 1 \<and> stop_at s = Blocked then Accept_joined else stop_at s)"
  by (auto simp: end_session_def Let_def)

theorem stop_waits_for_sessions_witness:
  "stop_at ((check_sessions (end_session joined))\<lparr>stop_at := Stopped\<rparr>) = Stopped \<and>
   sessions ((check_sessions (end_session joined))\<lparr>stop_at := Stopped\<rparr>) = 0"
proof -
  have "step\<^sup>*\<^sup>* started ((check_sessions (end_session joined))\<lparr>stop_at := Stopped\<rparr>)"
    using then_step [OF then_step [OF then_step [OF steps_joined session_end] stop_wait] stop_threads]
    by (simp add: joined_def served_def run_defs end_session_def check_sessions_def)
  from stop_waits_for_sessions [OF this] show ?thesis by simp
qed

text \<open>
  C33: No wake-up is lost. Whenever stop() sleeps on the condition variable there are live
  sessions, and when these sessions have ended, in whatever order, stop() is awake, finds the
  counter at zero and passes the wait.
\<close>

theorem stop_is_woken:
  assumes "step\<^sup>*\<^sup>* started s" and "stop_at s = Blocked"
  shows "sessions s > 0 \<and> step\<^sup>*\<^sup>* s ((end_session ^^ sessions s) s) \<and>
    stop_at ((end_session ^^ sessions s) s) = Accept_joined \<and>
    stop_at (check_sessions ((end_session ^^ sessions s) s)) = Sessions_done"
proof -
  have inv: "lifecycle_inv s" using lifecycle.reachable_inv [OF refl assms(1)] .
  have blocked: "accept_at s = Accept_done" "\<not> m_running s" "m_session_number s = int (sessions s)" "sessions s \<noteq> 0"
    using inv assms(2) by (auto simp: lifecycle_defs)
  have "k \<le> sessions s \<Longrightarrow> step\<^sup>*\<^sup>* s ((end_session ^^ k) s) \<and>
      sessions ((end_session ^^ k) s) = sessions s - k \<and> m_session_number ((end_session ^^ k) s) = int (sessions s - k) \<and>
      accept_at ((end_session ^^ k) s) = Accept_done \<and> \<not> m_running ((end_session ^^ k) s) \<and>
      stop_at ((end_session ^^ k) s) = (if k = sessions s then Accept_joined else Blocked)" for k
  proof (induction k)
    case 0
    then show ?case using blocked assms(2) by simp
  next
    case (Suc k)
    define t where "t = (end_session ^^ k) s"
    have t: "step\<^sup>*\<^sup>* s t" "sessions t = sessions s - k" "m_session_number t = int (sessions s - k)"
      "accept_at t = Accept_done" "\<not> m_running t" "stop_at t = Blocked"
      using Suc by (simp_all add: t_def)
    then have "step t (end_session t)" using Suc.prems by (intro session_end) simp_all
    then have "step\<^sup>*\<^sup>* s (end_session t)" using t(1) then_step by blast
    moreover have "(end_session ^^ Suc k) s = end_session t" by (simp add: t_def)
    ultimately show ?case using t Suc.prems by (auto simp: end_session_fields)
  qed
  from this [OF order_refl] show ?thesis using blocked by (simp add: check_sessions_def)
qed

theorem stop_is_woken_witness:
  "stop_at (check_sessions joined) = Blocked \<and>
   stop_at (check_sessions ((end_session ^^ sessions (check_sessions joined)) (check_sessions joined))) = Sessions_done"
proof -
  have b: "stop_at (check_sessions joined) = Blocked"
    by (simp add: joined_def served_def run_defs check_sessions_def)
  have "step\<^sup>*\<^sup>* started (check_sessions joined)"
    using then_step [OF steps_joined stop_wait] by (simp add: joined_def served_def run_defs)
  from stop_is_woken [OF this b] show ?thesis using b by blast
qed

section \<open>Interleavings in which stop() fails\<close>

text \<open>
  What stays true once stop() has closed the acceptor under a connection that was accepted and
  not yet served: the accept loop is on its way to the call on the closed acceptor.
\<close>

definition doomed :: "server \<Rightarrow> bool" where
  "doomed s \<longleftrightarrow> \<not> acceptor_open s \<and> stop_at s = Acceptor_closed \<and>
     accept_at s \<in> {Completed Accepted, Spawned, Calling, Completed Other_failure, Accept_threw}"

interpretation race: inductive_invariant doomed step doomed
proof unfold_locales
  fix s s'
  assume "doomed s" and "step s s'"
  from this(2,1) show "doomed s'"
  proof cases
    case (resume r)
    then show ?thesis using \<open>doomed s\<close> by (cases r) (auto simp: doomed_def resume_accept_def)
  qed (auto simp: doomed_def call_async_accept_def count_session_def end_session_def Let_def)
qed

lemma doomed_throws: "doomed s \<Longrightarrow> \<exists>u. step\<^sup>*\<^sup>* s u \<and> accept_at u = Accept_threw"
proof -
  have failed: "\<exists>u. step\<^sup>*\<^sup>* s u \<and> accept_at u = Accept_threw" if "accept_at s = Completed Other_failure" for s
    using resume [OF that]
    by (intro exI [of _ "resume_accept Other_failure s"]) (auto simp: resume_accept_def)
  have calling: "\<exists>u. step\<^sup>*\<^sup>* s u \<and> accept_at u = Accept_threw" if "accept_at s = Calling" "doomed s" for s
    using call [OF that(1)] failed [of "call_async_accept s"] that(2)
    by (auto simp: call_async_accept_def doomed_def intro: converse_rtranclp_into_rtranclp)
  have spawned: "\<exists>u. step\<^sup>*\<^sup>* s u \<and> accept_at u = Accept_threw" if "accept_at s = Spawned" "doomed s" for s
    using count [OF that(1)] calling [of "count_session s"] that(2)
    by (auto simp: count_session_def doomed_def intro: converse_rtranclp_into_rtranclp)
  have accepted: "\<exists>u. step\<^sup>*\<^sup>* s u \<and> accept_at u = Accept_threw" if "accept_at s = Completed Accepted" "doomed s" for s
    using resume [OF that(1)] spawned [of "resume_accept Accepted s"] that(2)
    by (auto simp: resume_accept_def doomed_def intro: converse_rtranclp_into_rtranclp)
  assume "doomed s"
  then show ?thesis
    using failed [of s] calling [of s] spawned [of s] accepted [of s] by (auto simp: doomed_def)
qed

text \<open>
  C34: stop() can end the program. Suppose stop() closes the acceptor when a connection has just
  been accepted and the accept loop has not yet gone on. No operation is pending that could be
  aborted: the loop starts and counts the new session, calls async_accept on the closed acceptor
  and gets an error other than operation_aborted. From then on, in every continuation, stop()
  never gets past the join of the accept fiber, the accept fiber never ends regularly, and the
  exception that leaves it remains within reach.
\<close>

theorem stop_race_terminates:
  assumes "step\<^sup>*\<^sup>* started s" and "stop_at s = Flag_cleared" and "accept_at s = Completed Accepted"
  shows "step\<^sup>*\<^sup>* started (close_acceptor s) \<and>
    (\<forall>t. step\<^sup>*\<^sup>* (close_acceptor s) t \<longrightarrow>
       stop_at t = Acceptor_closed \<and> accept_at t \<noteq> Accept_done \<and>
       (\<exists>u. step\<^sup>*\<^sup>* t u \<and> accept_at u = Accept_threw))"
proof
  show "step\<^sup>*\<^sup>* started (close_acceptor s)"
    using then_step [OF assms(1) stop_close] assms(2,3) by simp
  have "doomed (close_acceptor s)"
    using assms(3) by (simp add: doomed_def close_acceptor_def)
  then have doomed: "doomed t" if "step\<^sup>*\<^sup>* (close_acceptor s) t" for t
    using race.reachable_inv that by blast
  then show "\<forall>t. step\<^sup>*\<^sup>* (close_acceptor s) t \<longrightarrow>
       stop_at t = Acceptor_closed \<and> accept_at t \<noteq> Accept_done \<and>
       (\<exists>u. step\<^sup>*\<^sup>* t u \<and> accept_at u = Accept_threw)"
  proof (intro allI impI)
    fix t
    assume "step\<^sup>*\<^sup>* (close_acceptor s) t"
    then have "doomed t" by (rule doomed)
    then show "stop_at t = Acceptor_closed \<and> accept_at t \<noteq> Accept_done \<and>
       (\<exists>u. step\<^sup>*\<^sup>* t u \<and> accept_at u = Accept_threw)"
      using doomed_throws [of t] by (auto simp: doomed_def)
  qed
qed

theorem stop_race_terminates_witness:
  "\<exists>s u. step\<^sup>*\<^sup>* started s \<and> stop_at s = Flag_cleared \<and> accept_at s = Completed Accepted \<and>
     step\<^sup>*\<^sup>* (close_acceptor s) u \<and> accept_at u = Accept_threw"
proof -
  let ?s = "served\<lparr>accept_at := Completed Accepted, m_running := False, stop_at := Flag_cleared\<rparr>"
  have "step\<^sup>*\<^sup>* started ?s"
    using then_step [OF then_step [OF steps_served complete, of Accepted] stop_flag]
    by (simp add: served_def run_defs)
  moreover have "stop_at ?s = Flag_cleared" "accept_at ?s = Completed Accepted" by simp_all
  ultimately show ?thesis
    using stop_race_terminates [of ?s] by blast
qed

text \<open>What stays true when stop() has closed an acceptor that was not yet open.\<close>

definition stuck :: "server \<Rightarrow> bool" where
  "stuck s \<longleftrightarrow> stop_at s = Acceptor_closed \<and> (accept_at s \<in> {Not_started, Accept_threw} \<or> acceptor_open s) \<and>
     accept_at s \<notin> {Accept_done, Completed Operation_aborted}"

interpretation hang: inductive_invariant
  "\<lambda>s. s = close_acceptor (started\<lparr>m_running := False, stop_at := Flag_cleared\<rparr>)" step stuck
proof unfold_locales
  show "s = close_acceptor (started\<lparr>m_running := False, stop_at := Flag_cleared\<rparr>) \<Longrightarrow> stuck s" for s
    by (simp add: stuck_def run_defs)
  fix s s'
  assume "stuck s" and "step s s'"
  from this(2,1) show "stuck s'"
  proof cases
    case (resume r)
    then show ?thesis using \<open>stuck s\<close> by (cases r) (auto simp: stuck_def resume_accept_def)
  qed (auto simp: stuck_def call_async_accept_def count_session_def end_session_def Let_def)
qed

text \<open>
  C35: stop() called before the accept fiber has opened the acceptor never returns: closing has
  no effect, the accept loop then opens the acceptor and is never told to end, so in every
  continuation stop() is still waiting to join the accept fiber.
\<close>

theorem stop_before_open_hangs:
  "step\<^sup>*\<^sup>* started (close_acceptor (started\<lparr>m_running := False, stop_at := Flag_cleared\<rparr>)) \<and>
   {s. step\<^sup>*\<^sup>* (close_acceptor (started\<lparr>m_running := False, stop_at := Flag_cleared\<rparr>)) s} \<subseteq> {s. stop_at s = Acceptor_closed}"
proof
  have "step\<^sup>*\<^sup>* started started" by simp
  from then_step [OF then_step [OF this stop_flag] stop_close]
  show "step\<^sup>*\<^sup>* started (close_acceptor (started\<lparr>m_running := False, stop_at := Flag_cleared\<rparr>))"
    by (simp add: started_def)
  show "{s. step\<^sup>*\<^sup>* (close_acceptor (started\<lparr>m_running := False, stop_at := Flag_cleared\<rparr>)) s} \<subseteq> {s. stop_at s = Acceptor_closed}"
    using hang.reachable_inv [OF refl] by (auto simp: stuck_def)
qed

end
