(* ===== verification/Server_Threads.thy ===== *)
theory Server_Threads
  imports Prelude
begin

unbundle bit_operations_syntax

text \<open>
  The threads that run the event loops of the server (\<open>http/http_api_server.cpp\<close>) and of the
  client cache (\<open>http/multi_client_http.cpp\<close>), kept in a vector that is started, joined and
  destroyed; and the options the server sets on the sockets of its sessions.

  The event loop ends when it is stopped, so that joining a joinable thread returns.
\<close>

section \<open>Threads\<close>

datatype thread = Joinable | Joined

datatype thread_error = Not_joinable | Out_of_bounds

definition spawn_threads :: "int \<Rightarrow> thread list \<Rightarrow> thread list" where
  "spawn_threads thread_count ts = ts @ replicate (nat thread_count) Joinable"

definition join_at :: "nat \<Rightarrow> thread list \<Rightarrow> thread_error + thread list" where
  "join_at i ts =
     (if i \<ge> length ts then Inl Out_of_bounds
      else if ts ! i = Joined then Inl Not_joinable
      else Inr (ts[i := Joined]))"

fun join_loop :: "nat list \<Rightarrow> thread list \<Rightarrow> thread_error + thread list" where
  "join_loop [] ts = Inr ts"
| "join_loop (i # is) ts = bind_res (join_at i ts) (join_loop is)"

definition join_threads :: "int \<Rightarrow> thread list \<Rightarrow> thread_error + thread list" where
  "join_threads thread_count ts = join_loop [0..<nat thread_count] ts"

text \<open>The destructor of a vector with a joinable thread ends the program.\<close>

definition threads_terminate :: "thread list \<Rightarrow> bool" where
  "threads_terminate ts \<longleftrightarrow> Joinable \<in> set ts"

text \<open>
  The client cache starts its threads in the constructor and joins them in the destructor; the
  server starts them in \<open>start\<close>, joins them at the end of \<open>stop\<close>, and has an empty destructor.
\<close>

definition HttpCache_construct :: "int \<Rightarrow> thread list" where
  "HttpCache_construct thread_count = spawn_threads thread_count []"

definition HttpCache_destruct :: "int \<Rightarrow> thread list \<Rightarrow> thread_error + thread list" where
  "HttpCache_destruct thread_count ts = join_threads thread_count ts"

definition start_server_threads :: "int \<Rightarrow> thread list \<Rightarrow> thread list" where
  "start_server_threads thread_count ts = spawn_threads thread_count ts"

definition stop_server_threads :: "int \<Rightarrow> thread list \<Rightarrow> thread_error + thread list" where
  "stop_server_threads thread_count ts = join_threads thread_count ts"

lemma join_loop_prefix:
  "join_loop [k..<k + n] (replicate k Joined @ replicate n Joinable @ ts) = Inr (replicate (k + n) Joined @ ts)"
proof (induction n arbitrary: k)
  case (Suc n)
  have "join_at k (replicate k Joined @ replicate (Suc n) Joinable @ ts)
      = Inr (replicate (Suc k) Joined @ replicate n Joinable @ ts)"
    by (simp add: join_at_def nth_append list_update_append replicate_append_same flip: replicate_Suc)
      (simp add: replicate_append_same)
  moreover have "[k..<k + Suc n] = k # [Suc k..<Suc k + n]" by (simp add: upt_conv_Cons)
  ultimately show ?case using Suc.IH [of "Suc k"] by simp
qed simp

lemma join_spawned: "join_threads n (spawn_threads n []) = Inr (replicate (nat n) Joined)"
  using join_loop_prefix [of 0 "nat n" "[]"] by (simp add: join_threads_def spawn_threads_def)

lemma join_again:
  assumes "1 \<le> n"
  shows "join_threads n (replicate (nat n) Joined @ ts) = Inl Not_joinable"
proof -
  have "[0..<nat n] = 0 # [1..<nat n]" using assms by (simp add: upt_conv_Cons)
  then show ?thesis using assms by (simp add: join_threads_def join_at_def nth_append)
qed

text \<open>
  The client cache joins exactly the threads it started, whatever their number. The server
  does so the first time it is stopped; but its vector keeps the joined threads, so that after
  a restart \<open>stop\<close> joins a thread that is not joinable and throws, and the threads of the
  restart are left joinable, which ends the program when the server is destroyed.
\<close>

lemma server_threads_restart:
  assumes "1 \<le> n"
  shows "HttpCache_destruct n (HttpCache_construct n) = Inr (replicate (nat n) Joined)
    \<and> (\<exists>ts. stop_server_threads n (start_server_threads n []) = Inr ts \<and> \<not> threads_terminate ts
        \<and> stop_server_threads n (start_server_threads n ts) = Inl Not_joinable
        \<and> threads_terminate (start_server_threads n ts))"
  using assms
  by (simp add: HttpCache_destruct_def HttpCache_construct_def stop_server_threads_def start_server_threads_def
      join_spawned threads_terminate_def)
    (simp add: spawn_threads_def join_again)

lemma server_threads_restart_example:
  "\<exists>ts. stop_server_threads 3 (start_server_threads 3 []) = Inr ts
     \<and> stop_server_threads 3 (start_server_threads 3 ts) = Inl Not_joinable"
  using server_threads_restart [of 3] by auto

section \<open>Socket options\<close>

datatype sockopt = So_keepalive | Tcp_keepidle | Tcp_keepintvl | Tcp_keepcnt

text \<open>
  \<open>setsockopt\<close> is called for each option in turn; a failure is logged and the next option is
  tried. \<open>ok\<close> says which calls succeed; the result is the options in force and the log.
\<close>

definition try_sockopt :: "(sockopt \<Rightarrow> bool) \<Rightarrow> sockopt \<Rightarrow> int \<Rightarrow> string \<Rightarrow>
    (sockopt \<times> int) list \<times> string list \<Rightarrow> (sockopt \<times> int) list \<times> string list" where
  "try_sockopt ok opt v name s =
     (if ok opt then (fst s @ [(opt, v)], snd s)
      else (fst s, snd s @ [''setsockopt '' @ name @ '' failed'']))"

definition set_socket_opt :: "(sockopt \<Rightarrow> bool) \<Rightarrow> (sockopt \<times> int) list \<times> string list" where
  "set_socket_opt ok =
     try_sockopt ok Tcp_keepcnt 3 ''TCP_KEEPCNT''
      (try_sockopt ok Tcp_keepintvl 3 ''TCP_KEEPINTVL''
       (try_sockopt ok Tcp_keepidle 20 ''TCP_KEEPIDLE''
        (try_sockopt ok So_keepalive 1 ''SO_KEEPALIVE'' ([], []))))"

text \<open>The result of \<open>fcntl(F_GETFD)\<close> is not tested: the flags may be \<open>-1\<close>.\<close>

definition FD_CLOEXEC :: "32 word" where
  "FD_CLOEXEC = 1"

definition set_close_on_exec :: "32 word \<Rightarrow> 32 word" where
  "set_close_on_exec flags = flags OR FD_CLOEXEC"

lemma socket_opts:
  "map fst (fst (set_socket_opt ok)) = filter ok [So_keepalive, Tcp_keepidle, Tcp_keepintvl, Tcp_keepcnt]
     \<and> length (fst (set_socket_opt ok)) + length (snd (set_socket_opt ok)) = 4"
  by (simp add: set_socket_opt_def try_sockopt_def)

lemma close_on_exec_bits: "bit (set_close_on_exec f) i \<longleftrightarrow> i = 0 \<or> bit f i"
  by (auto simp: set_close_on_exec_def FD_CLOEXEC_def bit_or_iff bit_1_iff)

end
