(* ===== verification/Connection_Pool.thy ===== *)
theory Connection_Pool
  imports Prelude
begin

text \<open>
  The connection caches of \<open>http/multi_client_http.cpp\<close>: lists of connections for HTTP, HTTPS and
  HTTP/2 with their lookup, release, removal and idle timeout, each of which runs under the mutex
  of its list. The three lists have the same loops; they are written once here, over the
  arguments and the stream of a connection as type parameters.

  The lemmas show the contract of a cache (which connections are busy after each operation), that
  the HTTP and the HTTPS cache meet it, and, over all interleavings of fibers that take,
  use and give back connections, that no connection has two users and none is lost.
\<close>

section \<open>Connections\<close>

record HttpReqArgument =
  host :: string
  port :: string
  dns_timeout :: int
  conn_timeout :: int
  req_timeout :: int

record HttpsReqArgument = HttpReqArgument +
  handshake_timeout :: int
  ssl_cert :: string

text \<open>
  A connection is its address, the arguments it inherits from, the two fields of \<open>Connection\<close>
  and its stream. Of a TLS stream only the certificate its context was set up with matters here.
\<close>

record ('a, 's) connection =
  ptr :: nat
  args :: 'a
  in_use :: bool
  last_use :: int
  stream :: 's

record ssl_stream =
  ctx_cert :: string

type_synonym http_connection = "(HttpReqArgument, unit) connection"
type_synonym https_connection = "(HttpsReqArgument, ssl_stream) connection"

definition m_unuse_timeout :: int where
  "m_unuse_timeout = 55"

section \<open>The loops over a list of connections\<close>

definition same_peer :: "('z HttpReqArgument_scheme) \<Rightarrow> ('z HttpReqArgument_scheme, 's) connection \<Rightarrow> bool" where
  "same_peer a c \<longleftrightarrow> host (args c) = host a \<and> port (args c) = port a"

text \<open>The first free connection to the peer gets the new arguments and is marked as used.\<close>

fun take_loop ::
  "('z HttpReqArgument_scheme \<Rightarrow> 'z HttpReqArgument_scheme \<Rightarrow> 'z HttpReqArgument_scheme) \<Rightarrow> 'z HttpReqArgument_scheme \<Rightarrow> int \<Rightarrow>
   ('z HttpReqArgument_scheme, 's) connection list \<Rightarrow> (nat \<times> ('z HttpReqArgument_scheme, 's) connection list) option" where
  "take_loop assign a now [] = None"
| "take_loop assign a now (c # cs) =
     (if \<not> in_use c \<and> same_peer a c
      then Some (ptr c, c\<lparr>args := assign a (args c), in_use := True, last_use := now\<rparr> # cs)
      else map_option (\<lambda>(p, cs'). (p, c # cs')) (take_loop assign a now cs))"

fun release_loop :: "nat \<Rightarrow> int \<Rightarrow> ('a, 's) connection list \<Rightarrow> ('a, 's) connection list" where
  "release_loop p now [] = []"
| "release_loop p now (c # cs) =
     (if ptr c = p then c\<lparr>in_use := False, last_use := now\<rparr> # cs else c # release_loop p now cs)"

fun delete_invalid_loop :: "nat \<Rightarrow> ('a, 's) connection list \<Rightarrow> ('a, 's) connection list" where
  "delete_invalid_loop p [] = []"
| "delete_invalid_loop p (c # cs) = (if ptr c = p then cs else c # delete_invalid_loop p cs)"

fun delete_timeout_loop :: "int \<Rightarrow> ('a, 's) connection list \<Rightarrow> ('a, 's) connection list" where
  "delete_timeout_loop now [] = []"
| "delete_timeout_loop now (c # cs) =
     (if \<not> in_use c
      then if now - last_use c > m_unuse_timeout then delete_timeout_loop now cs
           else c # delete_timeout_loop now cs
      else c # delete_timeout_loop now cs)"

section \<open>The operations of the caches\<close>

definition assign_http :: "HttpReqArgument \<Rightarrow> HttpReqArgument \<Rightarrow> HttpReqArgument" where
  "assign_http a old = old\<lparr>dns_timeout := dns_timeout a, conn_timeout := conn_timeout a, req_timeout := req_timeout a\<rparr>"

definition assign_https :: "HttpsReqArgument \<Rightarrow> HttpsReqArgument \<Rightarrow> HttpsReqArgument" where
  "assign_https a old = old\<lparr>dns_timeout := dns_timeout a, conn_timeout := conn_timeout a, req_timeout := req_timeout a,
     handshake_timeout := handshake_timeout a, ssl_cert := ssl_cert a\<rparr>"

definition find_http_connect where
  "find_http_connect = (take_loop assign_http :: _ \<Rightarrow> _ \<Rightarrow> http_connection list \<Rightarrow> _)"

definition release_http_connect :: "nat \<Rightarrow> int \<Rightarrow> http_connection list \<Rightarrow> http_connection list" where
  "release_http_connect = release_loop"

definition delete_invalid_http_connect :: "nat \<Rightarrow> http_connection list \<Rightarrow> http_connection list" where
  "delete_invalid_http_connect = delete_invalid_loop"

definition delete_timeout_http_connect :: "int \<Rightarrow> http_connection list \<Rightarrow> http_connection list" where
  "delete_timeout_http_connect = delete_timeout_loop"

definition find_https_connect where
  "find_https_connect = (take_loop assign_https :: _ \<Rightarrow> _ \<Rightarrow> https_connection list \<Rightarrow> _)"

definition release_https_connect :: "nat \<Rightarrow> int \<Rightarrow> https_connection list \<Rightarrow> https_connection list" where
  "release_https_connect = release_loop"

definition delete_invalid_https_connect :: "nat \<Rightarrow> https_connection list \<Rightarrow> https_connection list" where
  "delete_invalid_https_connect = delete_invalid_loop"

definition delete_timeout_https_connect :: "int \<Rightarrow> https_connection list \<Rightarrow> https_connection list" where
  "delete_timeout_https_connect = delete_timeout_loop"

text \<open>
  HTTP/2 connections are shared: the lookup ignores \<open>in_use\<close> and so does the timeout.
\<close>

fun find_http2s_connect :: "HttpsReqArgument \<Rightarrow> int \<Rightarrow> https_connection list \<Rightarrow> (nat \<times> https_connection list) option" where
  "find_http2s_connect a now [] = None"
| "find_http2s_connect a now (c # cs) =
     (if same_peer a c then Some (ptr c, c\<lparr>args := assign_https a (args c), last_use := now\<rparr> # cs)
      else map_option (\<lambda>(p, cs'). (p, c # cs')) (find_http2s_connect a now cs))"

definition delete_invalid_http2s_connect :: "nat \<Rightarrow> https_connection list \<Rightarrow> https_connection list" where
  "delete_invalid_http2s_connect = delete_invalid_loop"

fun delete_timeout_http2s_connect :: "int \<Rightarrow> https_connection list \<Rightarrow> https_connection list" where
  "delete_timeout_http2s_connect now [] = []"
| "delete_timeout_http2s_connect now (c # cs) =
     (if now - last_use c > m_unuse_timeout then delete_timeout_http2s_connect now cs
      else c # delete_timeout_http2s_connect now cs)"

section \<open>The contract of a cache of exclusive connections\<close>

definition ptrs :: "('a, 's) connection list \<Rightarrow> nat set" where
  "ptrs pool = ptr ` set pool"

definition busy :: "('a, 's) connection list \<Rightarrow> nat set" where
  "busy pool = {ptr c | c. c \<in> set pool \<and> in_use c}"

definition pool_ok :: "('a, 's) connection list \<Rightarrow> bool" where
  "pool_ok pool \<longleftrightarrow> distinct (map ptr pool)"

lemma busy_simps [simp]:
  "busy [] = {}" "busy (c # cs) = (if in_use c then insert (ptr c) (busy cs) else busy cs)"
  "ptrs [] = {}" "ptrs (c # cs) = insert (ptr c) (ptrs cs)"
  "ptrs (xs @ ys) = ptrs xs \<union> ptrs ys" "busy (xs @ ys) = busy xs \<union> busy ys"
  by (auto simp: busy_def ptrs_def)

lemma busy_sub_ptrs: "busy pool \<subseteq> ptrs pool"
  by (auto simp: busy_def ptrs_def)

lemma pool_ok_Cons: "pool_ok (c # cs) \<longleftrightarrow> ptr c \<notin> ptrs cs \<and> pool_ok cs"
  by (simp add: pool_ok_def ptrs_def)

lemma pool_ok_snoc: "pool_ok (cs @ [c]) \<longleftrightarrow> ptr c \<notin> ptrs cs \<and> pool_ok cs"
  by (auto simp: pool_ok_def ptrs_def)

locale exclusive_cache =
  fixes take :: "'z HttpReqArgument_scheme \<Rightarrow> int \<Rightarrow> ('z HttpReqArgument_scheme, 's) connection list \<Rightarrow>
                 (nat \<times> ('z HttpReqArgument_scheme, 's) connection list) option"
    and release :: "nat \<Rightarrow> int \<Rightarrow> ('z HttpReqArgument_scheme, 's) connection list \<Rightarrow> ('z HttpReqArgument_scheme, 's) connection list"
    and discard :: "nat \<Rightarrow> ('z HttpReqArgument_scheme, 's) connection list \<Rightarrow> ('z HttpReqArgument_scheme, 's) connection list"
    and sweep :: "int \<Rightarrow> ('z HttpReqArgument_scheme, 's) connection list \<Rightarrow> ('z HttpReqArgument_scheme, 's) connection list"
  assumes take_contract: "pool_ok pool \<Longrightarrow> take a now pool = Some (p, pool') \<Longrightarrow>
      pool_ok pool' \<and> p \<in> ptrs pool \<and> p \<notin> busy pool \<and> ptrs pool' = ptrs pool \<and> busy pool' = insert p (busy pool)"
    and release_contract: "pool_ok pool \<Longrightarrow>
      pool_ok (release p now pool) \<and> ptrs (release p now pool) = ptrs pool \<and> busy (release p now pool) = busy pool - {p}"
    and discard_contract: "pool_ok pool \<Longrightarrow>
      pool_ok (discard p pool) \<and> ptrs (discard p pool) = ptrs pool - {p} \<and> busy (discard p pool) = busy pool - {p}"
    and sweep_contract: "pool_ok pool \<Longrightarrow>
      pool_ok (sweep now pool) \<and> ptrs (sweep now pool) \<subseteq> ptrs pool \<and> busy (sweep now pool) = busy pool"
begin

lemma take_then_release:
  "pool_ok pool \<Longrightarrow> take a now pool = Some (p, pool') \<Longrightarrow> busy (release p now' pool') = busy pool"
  using take_contract release_contract by fastforce

lemma take_then_discard:
  "pool_ok pool \<Longrightarrow> take a now pool = Some (p, pool') \<Longrightarrow> busy (discard p pool') = busy pool"
  using take_contract discard_contract by fastforce

lemma push_then_release:
  "pool_ok pool \<Longrightarrow> ptr c \<notin> ptrs pool \<Longrightarrow> busy (release (ptr c) now (pool @ [c])) = busy pool"
  using release_contract [of "pool @ [c]"] busy_sub_ptrs [of pool] by (auto simp: pool_ok_snoc)

lemma push_then_discard:
  "pool_ok pool \<Longrightarrow> ptr c \<notin> ptrs pool \<Longrightarrow> busy (discard (ptr c) (pool @ [c])) = busy pool"
  using discard_contract [of "pool @ [c]"] busy_sub_ptrs [of pool] by (auto simp: pool_ok_snoc)

end

lemma take_loop_contract:
  "pool_ok pool \<Longrightarrow> take_loop assign a now pool = Some (p, pool') \<Longrightarrow>
   pool_ok pool' \<and> p \<in> ptrs pool \<and> p \<notin> busy pool \<and> ptrs pool' = ptrs pool \<and> busy pool' = insert p (busy pool)"
proof (induction pool arbitrary: pool')
  case (Cons c cs)
  show ?case
  proof (cases "\<not> in_use c \<and> same_peer a c")
    case True
    then have "p = ptr c" "pool' = c\<lparr>args := assign a (args c), in_use := True, last_use := now\<rparr> # cs"
      using Cons.prems(2) by auto
    then show ?thesis using True Cons.prems(1) busy_sub_ptrs [of cs] by (auto simp: pool_ok_Cons)
  next
    case False
    then obtain cs' where "take_loop assign a now cs = Some (p, cs')" "pool' = c # cs'"
      using Cons.prems(2) by auto
    then show ?thesis using Cons.IH [of cs'] Cons.prems(1) by (auto simp: pool_ok_Cons)
  qed
qed simp

lemma release_loop_contract:
  "pool_ok pool \<Longrightarrow>
   pool_ok (release_loop p now pool) \<and> ptrs (release_loop p now pool) = ptrs pool \<and> busy (release_loop p now pool) = busy pool - {p}"
proof (induction pool)
  case (Cons c cs)
  then show ?case using busy_sub_ptrs [of cs] by (auto simp: pool_ok_Cons)
qed simp

lemma delete_invalid_loop_contract:
  "pool_ok pool \<Longrightarrow>
   pool_ok (delete_invalid_loop p pool) \<and> ptrs (delete_invalid_loop p pool) = ptrs pool - {p} \<and>
   busy (delete_invalid_loop p pool) = busy pool - {p}"
proof (induction pool)
  case (Cons c cs)
  then show ?case using busy_sub_ptrs [of cs] by (auto simp: pool_ok_Cons)
qed simp

lemma delete_timeout_loop_contract:
  "pool_ok pool \<Longrightarrow>
   pool_ok (delete_timeout_loop now pool) \<and> ptrs (delete_timeout_loop now pool) \<subseteq> ptrs pool \<and>
   busy (delete_timeout_loop now pool) = busy pool"
  by (induction pool) (auto simp: pool_ok_Cons)

interpretation http_cache: exclusive_cache
  find_http_connect release_http_connect delete_invalid_http_connect delete_timeout_http_connect
  by unfold_locales
    (simp_all add: find_http_connect_def release_http_connect_def delete_invalid_http_connect_def
      delete_timeout_http_connect_def take_loop_contract release_loop_contract delete_invalid_loop_contract
      delete_timeout_loop_contract)

interpretation https_cache: exclusive_cache
  find_https_connect release_https_connect delete_invalid_https_connect delete_timeout_https_connect
  by unfold_locales
    (simp_all add: find_https_connect_def release_https_connect_def delete_invalid_https_connect_def
      delete_timeout_https_connect_def take_loop_contract release_loop_contract delete_invalid_loop_contract
      delete_timeout_loop_contract)

section \<open>Fibers that share a cache\<close>

text \<open>
  What a fiber is doing: nothing, in the lookup, connecting, or using the connection at an
  address. Between two of these points other fibers run.
\<close>

datatype 'a fiber_at = Resting | Looking 'a | Connecting 'a | Holding 'a nat

record ('a, 's) world =
  pool :: "('a, 's) connection list"
  fibers :: "nat \<Rightarrow> 'a fiber_at"

definition held :: "('a, 's) world \<Rightarrow> nat set" where
  "held w = {p. \<exists>f a. fibers w f = Holding a p}"

text \<open>
  The steps of \<open>get_http_connect\<close> and of the end of a request. A new connection has an address
  that no connection in the cache or in use has.
\<close>

inductive pool_step ::
  "('z HttpReqArgument_scheme \<Rightarrow> 'z HttpReqArgument_scheme \<Rightarrow> 'z HttpReqArgument_scheme) \<Rightarrow>
   ('z HttpReqArgument_scheme, 's) world \<Rightarrow> ('z HttpReqArgument_scheme, 's) world \<Rightarrow> bool"
  for assign where
  sweep: "fibers w f = Resting \<Longrightarrow>
    pool_step assign w (w\<lparr>pool := delete_timeout_loop now (pool w), fibers := (fibers w)(f := Looking a)\<rparr>)"
| found: "fibers w f = Looking a \<Longrightarrow> take_loop assign a now (pool w) = Some (p, pool') \<Longrightarrow>
    pool_step assign w (w\<lparr>pool := pool', fibers := (fibers w)(f := Holding a p)\<rparr>)"
| missing: "fibers w f = Looking a \<Longrightarrow> take_loop assign a now (pool w) = None \<Longrightarrow>
    pool_step assign w (w\<lparr>fibers := (fibers w)(f := Connecting a)\<rparr>)"
| connect_failed: "fibers w f = Connecting a \<Longrightarrow> pool_step assign w (w\<lparr>fibers := (fibers w)(f := Resting)\<rparr>)"
| connected: "fibers w f = Connecting a \<Longrightarrow> ptr c \<notin> ptrs (pool w) \<union> held w \<Longrightarrow> in_use c \<Longrightarrow> args c = a \<Longrightarrow>
    pool_step assign w (w\<lparr>pool := pool w @ [c], fibers := (fibers w)(f := Holding a (ptr c))\<rparr>)"
| released: "fibers w f = Holding a p \<Longrightarrow>
    pool_step assign w (w\<lparr>pool := release_loop p now (pool w), fibers := (fibers w)(f := Resting)\<rparr>)"
| discarded: "fibers w f = Holding a p \<Longrightarrow>
    pool_step assign w (w\<lparr>pool := delete_invalid_loop p (pool w), fibers := (fibers w)(f := Resting)\<rparr>)"

definition connected_to :: "'z HttpReqArgument_scheme \<Rightarrow> nat \<Rightarrow> ('z HttpReqArgument_scheme, 's) connection list \<Rightarrow> bool" where
  "connected_to a p cs \<longleftrightarrow> (\<exists>c \<in> set cs. ptr c = p \<and> in_use c \<and> same_peer a c)"

definition pool_inv :: "('z HttpReqArgument_scheme, 's) world \<Rightarrow> bool" where
  "pool_inv w \<longleftrightarrow> pool_ok (pool w) \<and> busy (pool w) = held w \<and>
     (\<forall>f g a b p. fibers w f = Holding a p \<and> fibers w g = Holding b p \<longrightarrow> f = g) \<and>
     (\<forall>f a p. fibers w f = Holding a p \<longrightarrow> connected_to a p (pool w))"

definition pool_init :: "('a, 's) world \<Rightarrow> bool" where
  "pool_init w \<longleftrightarrow> pool w = [] \<and> fibers w = (\<lambda>_. Resting)"

definition keeps_peer :: "('z HttpReqArgument_scheme \<Rightarrow> 'z HttpReqArgument_scheme \<Rightarrow> 'z HttpReqArgument_scheme) \<Rightarrow> bool" where
  "keeps_peer assign \<longleftrightarrow> (\<forall>a b. host (assign a b) = host b \<and> port (assign a b) = port b)"

lemma connected_to_Cons [simp]:
  "connected_to a p (c # cs) \<longleftrightarrow> (ptr c = p \<and> in_use c \<and> same_peer a c) \<or> connected_to a p cs"
  "\<not> connected_to a p []" "connected_to a p (cs @ ds) \<longleftrightarrow> connected_to a p cs \<or> connected_to a p ds"
  by (auto simp: connected_to_def)

lemma take_loop_connected:
  assumes "keeps_peer assign"
  shows "take_loop assign a now cs = Some (p, cs') \<Longrightarrow>
    connected_to a p cs' \<and> (connected_to b q cs \<longrightarrow> connected_to b q cs')"
proof (induction cs arbitrary: cs')
  case (Cons c cs)
  then show ?case
    using assms by (fastforce simp: keeps_peer_def same_peer_def split: if_splits)
qed simp

lemma release_loop_connected: "q \<noteq> p \<Longrightarrow> connected_to b q cs \<Longrightarrow> connected_to b q (release_loop p now cs)"
  by (induction cs) auto

lemma delete_invalid_loop_connected: "q \<noteq> p \<Longrightarrow> connected_to b q cs \<Longrightarrow> connected_to b q (delete_invalid_loop p cs)"
  by (induction cs) auto

lemma delete_timeout_loop_connected: "connected_to b q cs \<Longrightarrow> connected_to b q (delete_timeout_loop now cs)"
  by (induction cs) auto

text \<open>How the set of held addresses changes with the state of one fiber.\<close>

lemma held_update:
  "held (w\<lparr>pool := cs, fibers := (fibers w)(f := x)\<rparr>) =
     {p. \<exists>g a. g \<noteq> f \<and> fibers w g = Holding a p} \<union> {p. \<exists>a. x = Holding a p}"
  "held (w\<lparr>fibers := (fibers w)(f := x)\<rparr>) =
     {p. \<exists>g a. g \<noteq> f \<and> fibers w g = Holding a p} \<union> {p. \<exists>a. x = Holding a p}"
  by (auto simp: held_def)

lemma pool_inv_update:
  assumes inv: "pool_inv w" and ok: "pool_ok cs"
    and b: "busy cs = {p. \<exists>g a. g \<noteq> f \<and> fibers w g = Holding a p} \<union> {p. \<exists>a. x = Holding a p}"
    and mine: "\<And>a p. x = Holding a p \<Longrightarrow> connected_to a p cs \<and> (\<forall>g b. g \<noteq> f \<longrightarrow> fibers w g \<noteq> Holding b p)"
    and others: "\<And>g b q. g \<noteq> f \<Longrightarrow> fibers w g = Holding b q \<Longrightarrow> connected_to b q (pool w) \<Longrightarrow> connected_to b q cs"
  shows "pool_inv (w\<lparr>pool := cs, fibers := (fibers w)(f := x)\<rparr>)"
proof -
  let ?w = "w\<lparr>pool := cs, fibers := (fibers w)(f := x)\<rparr>"
  have inj: "g = h" if "fibers ?w g = Holding a p" "fibers ?w h = Holding b p" for g h a b p
  proof (cases "g = f \<or> h = f")
    case True
    then show ?thesis using that mine by (auto split: if_splits)
  next
    case False
    then have "fibers w g = Holding a p" "fibers w h = Holding b p" using that by auto
    then show ?thesis using inv unfolding pool_inv_def by blast
  qed
  have conn: "connected_to a p cs" if "fibers ?w g = Holding a p" for g a p
  proof (cases "g = f")
    case True
    then show ?thesis using that mine by simp
  next
    case False
    then have g: "fibers w g = Holding a p" using that by simp
    then have "connected_to a p (pool w)" using inv unfolding pool_inv_def by blast
    then show ?thesis using others [OF False g] by simp
  qed
  have "held ?w = busy cs" using b by (simp only: held_update)
  moreover have "pool ?w = cs" by simp
  ultimately show ?thesis
    unfolding pool_inv_def using ok inj conn by metis
qed

lemma held_others:
  assumes "pool_inv w"
  shows "(\<And>a p. fibers w f \<noteq> Holding a p) \<Longrightarrow> {p. \<exists>g a. g \<noteq> f \<and> fibers w g = Holding a p} = busy (pool w)"
    and "fibers w f = Holding a p \<Longrightarrow> {p. \<exists>g a. g \<noteq> f \<and> fibers w g = Holding a p} = busy (pool w) - {p}"
proof -
  have h: "busy (pool w) = {p. \<exists>f a. fibers w f = Holding a p}"
    and i: "\<And>f g a b p. fibers w f = Holding a p \<Longrightarrow> fibers w g = Holding b p \<Longrightarrow> f = g"
    using assms by (auto simp: pool_inv_def held_def) 
  show "(\<And>a p. fibers w f \<noteq> Holding a p) \<Longrightarrow> {p. \<exists>g a. g \<noteq> f \<and> fibers w g = Holding a p} = busy (pool w)"
    unfolding h by (rule Collect_cong) metis
  show "{p. \<exists>g a. g \<noteq> f \<and> fibers w g = Holding a p} = busy (pool w) - {p}" if "fibers w f = Holding a p"
  proof (intro set_eqI iffI)
    fix q
    assume "q \<in> {p. \<exists>g a. g \<noteq> f \<and> fibers w g = Holding a p}"
    then obtain g b where g: "g \<noteq> f" "fibers w g = Holding b q" by blast
    then have "q \<noteq> p" using i [OF that, of g b] by metis
    then show "q \<in> busy (pool w) - {p}" using g h by blast
  next
    fix q
    assume "q \<in> busy (pool w) - {p}"
    then obtain g b where "fibers w g = Holding b q" "q \<noteq> p" using h by blast
    moreover from this have "g \<noteq> f" using that by auto
    ultimately show "q \<in> {p. \<exists>g a. g \<noteq> f \<and> fibers w g = Holding a p}" by blast
  qed
qed

lemma held_busy: "pool_inv w \<Longrightarrow> fibers w g = Holding b q \<Longrightarrow> q \<in> busy (pool w)"
  by (auto simp: pool_inv_def held_def)

lemma pool_inv_ok: "pool_inv w \<Longrightarrow> pool_ok (pool w)"
  by (simp add: pool_inv_def)

lemma pool_step_inv:
  assumes peer: "keeps_peer assign" and inv: "pool_inv w" and step: "pool_step assign w w'"
  shows "pool_inv w'"
  using step
proof cases
  case (sweep f a now)
  then show ?thesis
    unfolding sweep(1)
    using inv delete_timeout_loop_contract [OF pool_inv_ok [OF inv], of now] held_others(1) [OF inv, of f]
    by (intro pool_inv_update) (auto intro: delete_timeout_loop_connected)
next
  case (found f a now p pool')
  have "pool_ok pool' \<and> p \<notin> busy (pool w) \<and> busy pool' = insert p (busy (pool w))"
    using take_loop_contract [OF pool_inv_ok [OF inv] found(3)] by simp
  then show ?thesis
    unfolding found(1)
    using inv found held_others(1) [OF inv, of f] held_busy [OF inv] take_loop_connected [OF peer found(3)]
    by (intro pool_inv_update) auto
next
  case (missing f a now)
  then show ?thesis
    using pool_inv_update [OF inv pool_inv_ok [OF inv], of f "Connecting a"] held_others(1) [OF inv, of f] by simp
next
  case (connect_failed f a)
  then show ?thesis
    using pool_inv_update [OF inv pool_inv_ok [OF inv], of f Resting] held_others(1) [OF inv, of f] by simp
next
  case (connected f a c)
  have "connected_to a (ptr c) (pool w @ [c])"
    using connected by (simp add: same_peer_def)
  moreover have "fibers w g \<noteq> Holding b (ptr c)" for g b
    using connected(3) by (auto simp: held_def)
  ultimately show ?thesis
    unfolding connected(1)
    using inv connected held_others(1) [OF inv, of f] pool_inv_ok [OF inv]
    by (intro pool_inv_update) (auto simp: pool_ok_snoc)
next
  case (released f a p now)
  then show ?thesis
    unfolding released(1)
    using inv release_loop_contract [OF pool_inv_ok [OF inv], of p now] held_others(2) [OF inv released(2)]
    by (intro pool_inv_update) (auto intro: release_loop_connected)
next
  case (discarded f a p)
  then show ?thesis
    unfolding discarded(1)
    using inv delete_invalid_loop_contract [OF pool_inv_ok [OF inv], of p] held_others(2) [OF inv discarded(2)]
    by (intro pool_inv_update) (auto intro: delete_invalid_loop_connected)
qed

lemma pool_init_inv: "pool_init w \<Longrightarrow> pool_inv w"
  by (simp add: pool_init_def pool_inv_def pool_ok_def held_def)

lemma keeps_peer_assign: "keeps_peer assign_http" "keeps_peer assign_https"
  by (simp_all add: keeps_peer_def assign_http_def assign_https_def)

interpretation http_fibers: inductive_invariant pool_init "pool_step assign_http" pool_inv
  by unfold_locales (auto intro: pool_init_inv pool_step_inv keeps_peer_assign)

interpretation https_fibers: inductive_invariant pool_init "pool_step assign_https" pool_inv
  by unfold_locales (auto intro: pool_init_inv pool_step_inv keeps_peer_assign)

text \<open>
  C1: However the fibers that take, use, release and drop connections interleave, in the HTTP
  cache and in the HTTPS cache: no two fibers use the same connection, the connections marked
  as used are exactly those some fiber is using, so that none is lost, each of them is still
  in the cache, and its host and port are those of the request that uses it.
\<close>

theorem connections_exclusive:
  fixes v :: "(HttpReqArgument, unit) world" and w :: "(HttpsReqArgument, ssl_stream) world"
  assumes "pool_init v0" and "(pool_step assign_http)\<^sup>*\<^sup>* v0 v"
    and "pool_init w0" and "(pool_step assign_https)\<^sup>*\<^sup>* w0 w"
  shows "pool_inv v \<and> pool_inv w"
  using http_fibers.reachable_inv [OF assms(1,2)] https_fibers.reachable_inv [OF assms(3,4)] by simp

theorem connections_exclusive_witness:
  "pool_inv \<lparr>pool = [\<lparr>ptr = 1, args = \<lparr>host = ''h'', port = ''80'', dns_timeout = 5, conn_timeout = 3, req_timeout = 6\<rparr>,
       in_use = True, last_use = 0, stream = ()\<rparr>],
     fibers = (\<lambda>_. Resting)(0 := Holding \<lparr>host = ''h'', port = ''80'', dns_timeout = 5, conn_timeout = 3, req_timeout = 6\<rparr> 1)\<rparr>"
proof -
  let ?a = "\<lparr>host = ''h'', port = ''80'', dns_timeout = 5, conn_timeout = 3, req_timeout = 6\<rparr>"
  let ?c = "\<lparr>ptr = 1, args = ?a, in_use = True, last_use = 0, stream = ()\<rparr>"
  let ?w0 = "\<lparr>pool = [], fibers = (\<lambda>_. Resting)\<rparr>"
  let ?w1 = "\<lparr>pool = [], fibers = (\<lambda>_. Resting)(0 := Looking ?a)\<rparr>"
  let ?w2 = "\<lparr>pool = [], fibers = (\<lambda>_. Resting)(0 := Connecting ?a)\<rparr>"
  let ?w3 = "\<lparr>pool = [?c], fibers = (\<lambda>_. Resting)(0 := Holding ?a 1)\<rparr>"
  have s1: "pool_step assign_http ?w0 ?w1" using pool_step.sweep [where w = ?w0 and f = 0 and now = 0 and a = ?a and assign = assign_http] by simp
  have s2: "pool_step assign_http ?w1 ?w2" using pool_step.missing [where w = ?w1 and f = 0 and now = 0 and a = ?a and assign = assign_http] by simp
  have s3: "pool_step assign_http ?w2 ?w3"
    using pool_step.connected [where w = ?w2 and f = 0 and a = ?a and c = ?c and assign = assign_http] by (simp add: held_def)
  have "(pool_step assign_http)\<^sup>*\<^sup>* ?w0 ?w3"
  proof -
    note before = converse_rtranclp_into_rtranclp [where r = "pool_step assign_http"]
    have "(pool_step assign_http)\<^sup>*\<^sup>* ?w2 ?w3" using s3 by (rule r_into_rtranclp [where r = "pool_step assign_http"])
    from before [OF s2 this] show ?thesis by (rule before [OF s1])
  qed
  then show ?thesis
    using connections_exclusive [of ?w0 ?w3 "\<lparr>pool = [], fibers = \<lambda>_. Resting\<rparr>" "\<lparr>pool = [], fibers = \<lambda>_. Resting\<rparr>"]
    by (simp add: pool_init_def)
qed

section \<open>Idle connections\<close>

lemma delete_timeout_loop_filter:
  "delete_timeout_loop now cs = filter (\<lambda>c. in_use c \<or> now - last_use c \<le> 55) cs"
  by (induction cs) (auto simp: m_unuse_timeout_def)

lemma delete_timeout_http2s_filter:
  "delete_timeout_http2s_connect now cs = filter (\<lambda>c. now - last_use c \<le> 55) cs"
  by (induction cs) (auto simp: m_unuse_timeout_def)

lemma find_http2s_connect_peer:
  "find_http2s_connect a now cs = Some (p, cs') \<Longrightarrow>
   \<exists>c \<in> set cs'. ptr c = p \<and> host (args c) = host a \<and> port (args c) = port a \<and> last_use c = now"
  by (induction cs arbitrary: cs') (fastforce simp: same_peer_def assign_https_def split: if_splits)+

end
