(* ===== verification/Http_Client.thy ===== *)
theory Http_Client
  imports Http_Server Connection_Pool
begin

text \<open>
  The requests of \<open>http/multi_client_http.cpp\<close>: obtaining a connection (cached or new), the
  HTTP and HTTPS request with their error paths, and the HTTP/2 request with its callbacks. The
  results of name resolution, connection, handshake, reads and writes are given by a script,
  so that every combination of outcomes is a case.

  The lemmas show that a request leaves the cache balanced on every path and which status it
  reports, when a cached connection is used, and what an HTTP/2 response is assembled from.
\<close>

section \<open>Outcomes of the network\<close>

datatype io_result = Io_ok | Io_timeout | Io_failed

record network =
  now_sweep :: int
  now_take :: int
  now_push :: int
  now_release :: int
  dns_result :: io_result
  connect_result :: io_result
  ca_accepted :: bool
  sni_accepted :: bool
  handshake_result :: io_result
  new_ptr :: nat
  write_result :: io_result
  read_result :: io_result
  answer :: response

definition resolve :: "network \<Rightarrow> bool" where
  "resolve n = (case dns_result n of Io_timeout \<Rightarrow> False | Io_failed \<Rightarrow> False | Io_ok \<Rightarrow> True)"

definition connect :: "network \<Rightarrow> bool" where
  "connect n = (if connect_result n \<noteq> Io_ok then False else True)"

definition set_ssl :: "network \<Rightarrow> string \<Rightarrow> bool" where
  "set_ssl n cert = (if cert \<noteq> [] then (if \<not> ca_accepted n then False else True) else True)"

section \<open>Obtaining a connection\<close>

definition get_http_connect :: "network \<Rightarrow> HttpReqArgument \<Rightarrow> http_connection list \<Rightarrow> nat option \<times> http_connection list" where
  "get_http_connect n a conns0 =
     (let conns = delete_timeout_http_connect (now_sweep n) conns0
      in case find_http_connect a (now_take n) conns of
           Some (p, conns') \<Rightarrow> (Some p, conns')
         | None \<Rightarrow>
             if \<not> resolve n then (None, conns)
             else if \<not> connect n then (None, conns)
             else (Some (new_ptr n),
                   conns @ [\<lparr>ptr = new_ptr n, args = a, in_use = True, last_use = now_push n, stream = ()\<rparr>]))"

definition get_https_connect :: "network \<Rightarrow> HttpsReqArgument \<Rightarrow> https_connection list \<Rightarrow> nat option \<times> https_connection list" where
  "get_https_connect n a conns0 =
     (let conns = delete_timeout_https_connect (now_sweep n) conns0
      in case find_https_connect a (now_take n) conns of
           Some (p, conns') \<Rightarrow> (Some p, conns')
         | None \<Rightarrow>
             if \<not> set_ssl n (ssl_cert a) then (None, conns)
             else if \<not> resolve n then (None, conns)
             else if \<not> sni_accepted n then (None, conns)
             else if \<not> connect n then (None, conns)
             else if handshake_result n \<noteq> Io_ok then (None, conns)
             else (Some (new_ptr n),
                   conns @ [\<lparr>ptr = new_ptr n, args = a, in_use = True, last_use = now_push n,
                            stream = \<lparr>ctx_cert = ssl_cert a\<rparr>\<rparr>]))"

text \<open>For HTTP/2 the session connects on its own; \<open>connect_result\<close> is whether it did so in time.\<close>

definition get_http2s_connect :: "network \<Rightarrow> HttpsReqArgument \<Rightarrow> https_connection list \<Rightarrow> nat option \<times> https_connection list" where
  "get_http2s_connect n a conns0 =
     (let conns = delete_timeout_http2s_connect (now_sweep n) conns0
      in case find_http2s_connect a (now_take n) conns of
           Some (p, conns') \<Rightarrow> (Some p, conns')
         | None \<Rightarrow>
             if \<not> set_ssl n (ssl_cert a) then (None, conns)
             else if \<not> sni_accepted n then (None, conns)
             else if connect_result n \<noteq> Io_ok then (None, conns)
             else (Some (new_ptr n),
                   conns @ [\<lparr>ptr = new_ptr n, args = a, in_use = True, last_use = now_push n,
                            stream = \<lparr>ctx_cert = ssl_cert a\<rparr>\<rparr>]))"

section \<open>HTTP and HTTPS requests\<close>

abbreviation network_connect_timeout_error :: nat where "network_connect_timeout_error \<equiv> 599"
abbreviation request_timeout :: nat where "request_timeout \<equiv> 408"
abbreviation connection_closed_without_response :: nat where "connection_closed_without_response \<equiv> 444"

definition io_error_status :: "io_result \<Rightarrow> nat" where
  "io_error_status ec = (if ec = Io_timeout then request_timeout else connection_closed_without_response)"

definition h1_req_http :: "network \<Rightarrow> HttpReqArgument \<Rightarrow> http_connection list \<Rightarrow> response \<times> http_connection list" where
  "h1_req_http n a conns0 =
     (case get_http_connect n a conns0 of
        (None, conns) \<Rightarrow> (empty_response\<lparr>res_result := network_connect_timeout_error\<rparr>, conns)
      | (Some p, conns) \<Rightarrow>
          if write_result n \<noteq> Io_ok
          then (empty_response\<lparr>res_result := io_error_status (write_result n)\<rparr>, delete_invalid_http_connect p conns)
          else if read_result n \<noteq> Io_ok
          then ((answer n)\<lparr>res_result := io_error_status (read_result n)\<rparr>, delete_invalid_http_connect p conns)
          else if need_eof (answer n) then (answer n, delete_invalid_http_connect p conns)
          else (answer n, release_http_connect p (now_release n) conns))"

definition h1_req_https :: "network \<Rightarrow> HttpsReqArgument \<Rightarrow> https_connection list \<Rightarrow> response \<times> https_connection list" where
  "h1_req_https n a conns0 =
     (case get_https_connect n a conns0 of
        (None, conns) \<Rightarrow> (empty_response\<lparr>res_result := network_connect_timeout_error\<rparr>, conns)
      | (Some p, conns) \<Rightarrow>
          if write_result n \<noteq> Io_ok
          then (empty_response\<lparr>res_result := io_error_status (write_result n)\<rparr>, delete_invalid_https_connect p conns)
          else if read_result n \<noteq> Io_ok
          then ((answer n)\<lparr>res_result := io_error_status (read_result n)\<rparr>, delete_invalid_https_connect p conns)
          else if need_eof (answer n) then (answer n, delete_invalid_https_connect p conns)
          else (answer n, release_https_connect p (now_release n) conns))"

section \<open>HTTP/2 requests\<close>

text \<open>The header map; a value is sensitive when the field name is exactly \<open>Authorization\<close>.\<close>

record header_value =
  hv_value :: string
  hv_sensitive :: bool

definition h2_headers :: "(string \<times> string) list \<Rightarrow> (string \<times> header_value) list" where
  "h2_headers hs =
     map (\<lambda>(name, v). if name = ''Authorization'' then (name, \<lparr>hv_value = v, hv_sensitive = True\<rparr>)
                      else (name, \<lparr>hv_value = v, hv_sensitive = False\<rparr>)) hs"

definition h2_uri :: "HttpsReqArgument \<Rightarrow> string \<Rightarrow> string" where
  "h2_uri a target = ''https://'' @ host a @ '':'' @ port a @ target"

text \<open>
  The callbacks of the session while \<open>h2_req\<close> waits. They write to variables of \<open>h2_req\<close>; once
  it has returned these no longer exist. Setting the promise twice throws.
\<close>

datatype h2_event = On_response nat "(string \<times> string) list" | On_data string

record h2_wait =
  h2_res :: response
  tmp_body :: string
  promise_set :: bool
  returned :: bool

datatype h2_error = Promise_already_satisfied | Dangling_reference

definition insert_field :: "string \<times> string \<Rightarrow> response \<Rightarrow> response" where
  "insert_field kv r =
     (let f = res_fields r
      in if iequals (fst kv) ''Content-Length''
         then r\<lparr>res_fields := f\<lparr>content_length_field := Some (read_digits 10 0 (snd kv))\<rparr>\<rparr>
         else r\<lparr>res_fields := f\<lparr>other_fields := other_fields f @ [kv]\<rparr>\<rparr>)"

fun h2_callback :: "h2_event \<Rightarrow> h2_wait \<Rightarrow> h2_error + h2_wait" where
  "h2_callback (On_response status headers) w =
     (if returned w then Inl Dangling_reference
      else Inr (w\<lparr>h2_res := fold insert_field headers ((h2_res w)\<lparr>res_result := status\<rparr>)\<rparr>))"
| "h2_callback (On_data d) w =
     (if length d > 0
      then if returned w then Inl Dangling_reference else Inr (w\<lparr>tmp_body := tmp_body w @ d\<rparr>)
      else if promise_set w then Inl Promise_already_satisfied
      else Inr (w\<lparr>promise_set := True\<rparr>))"

fun h2_callbacks :: "h2_event list \<Rightarrow> h2_wait \<Rightarrow> h2_error + h2_wait" where
  "h2_callbacks [] w = Inr w"
| "h2_callbacks (e # es) w = bind_res (h2_callback e w) (h2_callbacks es)"

definition h2_wait_init :: h2_wait where
  "h2_wait_init = \<lparr>h2_res = empty_response, tmp_body = [], promise_set = False, returned = False\<rparr>"

text \<open>
  What \<open>h2_req\<close> does: it reports a response, or it ends the program because an exception leaves
  a function declared \<open>noexcept\<close>. \<open>events\<close> are the callbacks before the wait ends.
\<close>

datatype h2_result = Reported response | Terminated

definition h2_req ::
  "network \<Rightarrow> HttpsReqArgument \<Rightarrow> bool \<Rightarrow> h2_event list \<Rightarrow> https_connection list \<Rightarrow> h2_result \<times> https_connection list" where
  "h2_req n a submitted events conns0 =
     (case get_http2s_connect n a conns0 of
        (None, conns) \<Rightarrow> (Reported (empty_response\<lparr>res_result := network_connect_timeout_error\<rparr>), conns)
      | (Some p, conns) \<Rightarrow>
          if \<not> submitted
          then (Reported (empty_response\<lparr>res_result := connection_closed_without_response\<rparr>), delete_invalid_http2s_connect p conns)
          else case h2_callbacks events h2_wait_init of
            Inl _ \<Rightarrow> (Terminated, conns)
          | Inr w \<Rightarrow>
              if \<not> promise_set w
              then (Reported ((h2_res w)\<lparr>res_result := request_timeout\<rparr>), delete_invalid_http2s_connect p conns)
              else if tmp_body w \<noteq> []
              then (case prepare_payload ((h2_res w)\<lparr>res_body := tmp_body w\<rparr>) of
                      Inl _ \<Rightarrow> (Terminated, conns)
                    | Inr r \<Rightarrow> (Reported r, conns))
              else (Reported (h2_res w), conns))"

section \<open>The cache of the program\<close>

text \<open>
  The three lists belong to one object, created by the first call of \<open>init()\<close>. A request
  before that call uses a null pointer, which is \<^const>\<open>None\<close> here.
\<close>

record HttpCache =
  m_h1_conns :: "http_connection list"
  m_h1s_conns :: "https_connection list"
  m_h2s_conns :: "https_connection list"

definition init :: "HttpCache option \<Rightarrow> HttpCache option" where
  "init cache = (case cache of None \<Rightarrow> Some \<lparr>m_h1_conns = [], m_h1s_conns = [], m_h2s_conns = []\<rparr> | Some c \<Rightarrow> Some c)"

definition h1_req :: "network \<Rightarrow> HttpReqArgument \<Rightarrow> HttpCache option \<Rightarrow> (response \<times> HttpCache option) option" where
  "h1_req n a cache =
     map_option (\<lambda>c. let (r, cs) = h1_req_http n a (m_h1_conns c) in (r, Some (c\<lparr>m_h1_conns := cs\<rparr>))) cache"

definition h1s_req :: "network \<Rightarrow> HttpsReqArgument \<Rightarrow> HttpCache option \<Rightarrow> (response \<times> HttpCache option) option" where
  "h1s_req n a cache =
     map_option (\<lambda>c. let (r, cs) = h1_req_https n a (m_h1s_conns c) in (r, Some (c\<lparr>m_h1s_conns := cs\<rparr>))) cache"

lemma init_idem: "init (init cache) = init cache \<and> init cache \<noteq> None"
  by (cases cache) (simp_all add: init_def)

lemma requests_keep_lists_apart:
  "h1_req n a (Some c) = Some (r, Some d) \<Longrightarrow> m_h1s_conns d = m_h1s_conns c \<and> m_h2s_conns d = m_h2s_conns c"
  "h1s_req n b (Some c) = Some (r, Some d) \<Longrightarrow> m_h1_conns d = m_h1_conns c \<and> m_h2s_conns d = m_h2s_conns c"
  by (auto simp: h1_req_def h1s_req_def split: prod.splits)

section \<open>Requests leave the cache balanced\<close>

lemma get_http_connect_contract:
  assumes ok: "pool_ok conns" and fresh: "new_ptr n \<notin> ptrs conns" and get: "get_http_connect n a conns = (r, conns')"
  shows "pool_ok conns' \<and> (case r of None \<Rightarrow> busy conns' = busy conns | Some p \<Rightarrow> p \<notin> busy conns \<and> busy conns' = insert p (busy conns))"
proof -
  define sw where "sw = delete_timeout_http_connect (now_sweep n) conns"
  have sw: "pool_ok sw" "ptrs sw \<subseteq> ptrs conns" "busy sw = busy conns"
    using http_cache.sweep_contract [OF ok] by (simp_all add: sw_def)
  show ?thesis
  proof (cases "find_http_connect a (now_take n) sw")
    case None
    then show ?thesis
      using get sw fresh busy_sub_ptrs [of conns]
      by (auto simp: get_http_connect_def Let_def pool_ok_snoc simp flip: sw_def split: if_splits)
  next
    case (Some x)
    then show ?thesis
      using get sw http_cache.take_contract [OF sw(1), of a "now_take n"]
      by (cases x) (auto simp: get_http_connect_def Let_def simp flip: sw_def)
  qed
qed

lemma get_https_connect_contract:
  assumes ok: "pool_ok conns" and fresh: "new_ptr n \<notin> ptrs conns" and get: "get_https_connect n a conns = (r, conns')"
  shows "pool_ok conns' \<and> (case r of None \<Rightarrow> busy conns' = busy conns | Some p \<Rightarrow> p \<notin> busy conns \<and> busy conns' = insert p (busy conns))"
proof -
  define sw where "sw = delete_timeout_https_connect (now_sweep n) conns"
  have sw: "pool_ok sw" "ptrs sw \<subseteq> ptrs conns" "busy sw = busy conns"
    using https_cache.sweep_contract [OF ok] by (simp_all add: sw_def)
  show ?thesis
  proof (cases "find_https_connect a (now_take n) sw")
    case None
    then show ?thesis
      using get sw fresh busy_sub_ptrs [of conns]
      by (auto simp: get_https_connect_def Let_def pool_ok_snoc simp flip: sw_def split: if_splits)
  next
    case (Some x)
    then show ?thesis
      using get sw https_cache.take_contract [OF sw(1), of a "now_take n"]
      by (cases x) (auto simp: get_https_connect_def Let_def simp flip: sw_def)
  qed
qed

text \<open>
  C2: Whatever the network does, an HTTP or HTTPS request leaves exactly the connections marked
  as used that were marked before it: the connection it took or created is released or
  removed on every path, and addresses stay unique in the cache.
\<close>

theorem h1_req_balanced:
  assumes "pool_ok conns" and "new_ptr n \<notin> ptrs conns" and "pool_ok sconns" and "new_ptr m \<notin> ptrs sconns"
  shows "busy (snd (h1_req_http n a conns)) = busy conns \<and> pool_ok (snd (h1_req_http n a conns)) \<and>
    busy (snd (h1_req_https m b sconns)) = busy sconns \<and> pool_ok (snd (h1_req_https m b sconns))"
proof -
  obtain r c' where g: "get_http_connect n a conns = (r, c')" by fastforce
  have "busy (snd (h1_req_http n a conns)) = busy conns \<and> pool_ok (snd (h1_req_http n a conns))"
    using get_http_connect_contract [OF assms(1,2) g] http_cache.release_contract [of c'] http_cache.discard_contract [of c']
    by (cases r) (auto simp: h1_req_http_def g)
  moreover obtain q d' where h: "get_https_connect m b sconns = (q, d')" by fastforce
  have "busy (snd (h1_req_https m b sconns)) = busy sconns \<and> pool_ok (snd (h1_req_https m b sconns))"
    using get_https_connect_contract [OF assms(3,4) h] https_cache.release_contract [of d'] https_cache.discard_contract [of d']
    by (cases q) (auto simp: h1_req_https_def h)
  ultimately show ?thesis by simp
qed

definition calm :: network where
  "calm = \<lparr>now_sweep = 0, now_take = 0, now_push = 0, now_release = 1, dns_result = Io_ok, connect_result = Io_ok,
     ca_accepted = True, sni_accepted = True, handshake_result = Io_ok, new_ptr = 7, write_result = Io_ok,
     read_result = Io_timeout, answer = empty_response\<rparr>"

definition peer :: HttpReqArgument where
  "peer = \<lparr>host = ''h'', port = ''80'', dns_timeout = 5, conn_timeout = 3, req_timeout = 6\<rparr>"

definition tls_peer :: HttpsReqArgument where
  "tls_peer = \<lparr>host = ''h'', port = ''443'', dns_timeout = 5, conn_timeout = 3, req_timeout = 6, handshake_timeout = 3, ssl_cert = ''CA''\<rparr>"

theorem h1_req_balanced_witness:
  "busy (snd (h1_req_http calm peer [])) = {} \<and> pool_ok (snd (h1_req_http calm peer [])) \<and>
   busy (snd (h1_req_https calm tls_peer [])) = {} \<and> pool_ok (snd (h1_req_https calm tls_peer []))"
  using h1_req_balanced [of "[]" calm "[]" calm peer tls_peer] by (simp add: pool_ok_def)

lemma take_loop_free:
  "c \<in> set cs \<Longrightarrow> \<not> in_use c \<Longrightarrow> same_peer a c \<Longrightarrow> \<exists>p cs'. take_loop assign a now cs = Some (p, cs') \<and> p \<in> ptrs cs"
  by (induction cs) auto

lemma release_loop_frees:
  "pool_ok cs \<Longrightarrow> connected_to a p cs \<Longrightarrow>
   \<exists>c \<in> set (release_loop p now cs). \<not> in_use c \<and> same_peer a c \<and> last_use c = now"
  by (induction cs) (auto simp: pool_ok_Cons same_peer_def connected_to_def ptrs_def)

lemma get_http_connect_connected:
  assumes "get_http_connect n a conns = (Some p, c')"
  shows "connected_to a p c'"
  using assms
  by (auto simp: get_http_connect_def find_http_connect_def Let_def same_peer_def
      split: option.splits if_splits dest: take_loop_connected [OF keeps_peer_assign(1), THEN conjunct1])

text \<open>
  C36: A connection is kept alive: after an HTTP request whose response leaves the connection open,
  the next request to the same host and port gets a cached connection when it comes within
  the idle time, without resolving or connecting, whatever the network would do.
\<close>

theorem h1_connection_reused:
  assumes "pool_ok conns" and "new_ptr n \<notin> ptrs conns"
    and "fst (get_http_connect n a conns) \<noteq> None"
    and "write_result n = Io_ok" and "read_result n = Io_ok" and "\<not> need_eof (answer n)"
    and "host b = host a" and "port b = port a" and "now_sweep m \<le> now_release n + m_unuse_timeout"
  shows "\<exists>p. fst (get_http_connect m b (snd (h1_req_http n a conns))) = Some p \<and> p \<in> ptrs (snd (h1_req_http n a conns))"
proof -
  obtain p c' where g: "get_http_connect n a conns = (Some p, c')"
    using assms(3) by (metis option.exhaust prod.collapse)
  define d where "d = release_http_connect p (now_release n) c'"
  have d: "snd (h1_req_http n a conns) = d" using assms(4-6) by (simp add: h1_req_http_def g d_def)
  have "pool_ok c'" using get_http_connect_contract [OF assms(1,2) g] by simp
  then obtain c where c: "c \<in> set d" "\<not> in_use c" "same_peer a c" "last_use c = now_release n"
    using release_loop_frees get_http_connect_connected [OF g] unfolding d_def release_http_connect_def by blast
  define sw where "sw = delete_timeout_http_connect (now_sweep m) d"
  have "c \<in> set sw" using c assms(9)
    by (simp add: sw_def delete_timeout_http_connect_def delete_timeout_loop_filter m_unuse_timeout_def)
  moreover have "same_peer b c" using c(3) assms(7,8) by (simp add: same_peer_def)
  ultimately obtain q e where "find_http_connect b (now_take m) sw = Some (q, e)" "q \<in> ptrs sw"
    using take_loop_free c(2) unfolding find_http_connect_def by blast
  moreover have "ptrs sw \<subseteq> ptrs d"
    by (auto simp: sw_def delete_timeout_http_connect_def delete_timeout_loop_filter ptrs_def)
  ultimately show ?thesis by (auto simp: d get_http_connect_def sw_def)
qed

theorem h1_connection_reused_witness:
  "\<exists>p. fst (get_http_connect (calm\<lparr>now_sweep := 50, dns_result := Io_failed\<rparr>) peer
          (snd (h1_req_http (calm\<lparr>read_result := Io_ok, answer := content_length 0 empty_response\<rparr>) peer []))) = Some p"
proof -
  let ?n = "calm\<lparr>read_result := Io_ok, answer := content_length 0 empty_response\<rparr>"
  have "fst (get_http_connect ?n peer []) \<noteq> None"
    by (simp add: get_http_connect_def find_http_connect_def delete_timeout_http_connect_def resolve_def connect_def calm_def)
  moreover have "\<not> need_eof (answer ?n)" by (simp add: calm_def) code_simp
  ultimately show ?thesis
    using h1_connection_reused [of "[]" ?n peer peer "calm\<lparr>now_sweep := 50, dns_result := Io_failed\<rparr>"]
    by (auto simp: pool_ok_def calm_def m_unuse_timeout_def)
qed

text \<open>
  The HTTPS cache looks only at host and port: a request that names a certificate authority
  is given a cached connection that was set up without any verification of the peer.
\<close>

lemma https_reuse_ignores_cert:
  "let unverified = snd (h1_req_https (calm\<lparr>read_result := Io_ok, answer := content_length 0 empty_response\<rparr>)
                           (tls_peer\<lparr>ssl_cert := []\<rparr>) []);
       (r, conns) = get_https_connect (calm\<lparr>ca_accepted := False\<rparr>) tls_peer unverified
   in r = Some 7 \<and> ssl_cert tls_peer = ''CA'' \<and> map (\<lambda>c. (ptr c, in_use c, ctx_cert (stream c))) conns = [(7, True, [])]"
  by code_simp

section \<open>HTTP/2 responses\<close>

lemma h2_callbacks_append: "h2_callbacks (xs @ ys) w = bind_res (h2_callbacks xs w) (h2_callbacks ys)"
  by (induction xs arbitrary: w) (simp_all add: bind_res_assoc, metis bind_res.simps)

lemma h2_callbacks_data:
  "\<not> returned w \<Longrightarrow> \<forall>d \<in> set ds. d \<noteq> [] \<Longrightarrow> h2_callbacks (map On_data ds) w = Inr (w\<lparr>tmp_body := tmp_body w @ concat ds\<rparr>)"
  by (induction ds arbitrary: w) auto

text \<open>
  An HTTP/2 response that arrives in pieces is reported whole: the status of the response
  head, and as body the pieces of data in their order, with the length of that body.
\<close>

lemma h2_req_pieces:
  assumes "get_http2s_connect n a conns0 = (Some p, conns)"
    and "\<forall>d \<in> set ds. d \<noteq> []" and "ds \<noteq> []" and "status \<notin> {1, 204, 304}"
  shows "\<exists>r. h2_req n a True (On_response status headers # map On_data ds @ [On_data []]) conns0 = (Reported r, conns) \<and>
    res_result r = status \<and> res_body r = concat ds \<and> framed r"
proof -
  let ?r0 = "fold insert_field headers (empty_response\<lparr>res_result := status\<rparr>)"
  have ins: "res_result (insert_field kv r) = res_result r" for kv r by (simp add: insert_field_def Let_def)
  have fold: "res_result (fold insert_field hs r) = res_result r" for hs r
    by (induction hs arbitrary: r) (simp_all add: ins)
  have "h2_callbacks (On_response status headers # map On_data ds @ [On_data []]) h2_wait_init =
      Inr \<lparr>h2_res = ?r0, tmp_body = concat ds, promise_set = True, returned = False\<rparr>"
    using assms(2) by (simp add: h2_wait_init_def h2_callbacks_append h2_callbacks_data)
  moreover have "concat ds \<noteq> []" using assms(2,3) by (cases ds) auto
  moreover have "prepare_payload (?r0\<lparr>res_body := concat ds\<rparr>) = Inr (content_length (length (concat ds)) (?r0\<lparr>res_body := concat ds\<rparr>))"
    using assms(4) by (simp add: prepare_payload_def fold)
  ultimately show ?thesis using assms(1) by (simp add: h2_req_def fold framed_def)
qed

text \<open>A response that begins after the timeout is written to variables that no longer exist.\<close>

lemma h2_late_response:
  "h2_callbacks [] h2_wait_init = Inr w \<Longrightarrow> h2_callback (On_response status headers) (w\<lparr>returned := True\<rparr>) = Inl Dangling_reference"
  by simp

end
