(* ===== verification/Fiber_Channel.thy ===== *)
theory Fiber_Channel
  imports Prelude "HOL-Library.Multiset"
begin

text \<open>
  The bounded channel through which fibers hand results to the fiber that waits for them
  (\<open>third_party/include/boost/fiber/buffered_channel.hpp\<close>): a ring of slots with a producer
  and a consumer index, of which one slot always stays free. An operation that would suspend
  the calling fiber is the status \<open>Would_block\<close>: the fiber repeats it when it is scheduled
  again, as the loops of \<open>push\<close>, \<open>pop\<close> and \<open>value_pop\<close> do.

  The locale \<open>fifo_channel\<close> states what the waiting functions rely on: a bounded first-in
  first-out queue with a closed flag. Its interpretation \<open>ring\<close> shows that the ring of slots
  is such a queue.
\<close>

section \<open>The ring of slots\<close>

record 'a buffered_channel =
  slots :: "'a list"
  pidx :: nat
  cidx :: nat
  capacity :: nat
  chan_closed :: bool

datatype fiber_error = Invalid_capacity | Channel_is_closed

datatype push_status = Push_success | Push_closed | Push_would_block

datatype 'a popped = Popped 'a | Pop_closed | Pop_would_block

text \<open>
  The constructor refuses a capacity below two or one that is not a power of two. The slots
  are default-initialised, to \<open>d\<close>.
\<close>

definition power_of_two :: "nat \<Rightarrow> bool" where
  "power_of_two n \<longleftrightarrow> and n (n - 1) = 0"

definition make_channel :: "'a \<Rightarrow> nat \<Rightarrow> fiber_error + 'a buffered_channel" where
  "make_channel d n =
     (if 2 > n \<or> \<not> power_of_two n then Inl Invalid_capacity
      else Inr \<lparr> slots = replicate n d, pidx = 0, cidx = 0, capacity = n, chan_closed = False \<rparr>)"

definition is_full :: "'a buffered_channel \<Rightarrow> bool" where
  "is_full ch \<longleftrightarrow> cidx ch = (pidx ch + 1) mod capacity ch"

definition is_empty :: "'a buffered_channel \<Rightarrow> bool" where
  "is_empty ch \<longleftrightarrow> cidx ch = pidx ch"

definition chan_close :: "'a buffered_channel \<Rightarrow> 'a buffered_channel" where
  "chan_close ch = ch\<lparr>chan_closed := True\<rparr>"

definition chan_push :: "'a buffered_channel \<Rightarrow> 'a \<Rightarrow> 'a buffered_channel \<times> push_status" where
  "chan_push ch v =
     (if chan_closed ch then (ch, Push_closed)
      else if is_full ch then (ch, Push_would_block)
      else (ch\<lparr>slots := (slots ch)[pidx ch := v], pidx := (pidx ch + 1) mod capacity ch\<rparr>,
            Push_success))"

definition chan_pop :: "'a buffered_channel \<Rightarrow> 'a buffered_channel \<times> 'a popped" where
  "chan_pop ch =
     (if is_empty ch then (ch, if chan_closed ch then Pop_closed else Pop_would_block)
      else (ch\<lparr>cidx := (cidx ch + 1) mod capacity ch\<rparr>, Popped (slots ch ! cidx ch)))"

section \<open>The queue it implements\<close>

definition chan_inv :: "'a buffered_channel \<Rightarrow> bool" where
  "chan_inv ch \<longleftrightarrow> 2 \<le> capacity ch \<and> length (slots ch) = capacity ch
     \<and> pidx ch < capacity ch \<and> cidx ch < capacity ch"

definition chan_count :: "'a buffered_channel \<Rightarrow> nat" where
  "chan_count ch = (pidx ch + capacity ch - cidx ch) mod capacity ch"

definition contents :: "'a buffered_channel \<Rightarrow> 'a list" where
  "contents ch = map (\<lambda>i. slots ch ! ((cidx ch + i) mod capacity ch)) [0..<chan_count ch]"

definition room :: "'a buffered_channel \<Rightarrow> nat" where
  "room ch = capacity ch - 1"

text \<open>Distances on the ring.\<close>

lemma ring_distance:
  fixes p c n :: nat
  assumes "p < n" "c < n"
  shows "(p + n - c) mod n = (if c \<le> p then p - c else p + n - c)"
  using assms by (auto simp: mod_if)

lemma ring_next:
  fixes p n :: nat
  assumes "p < n"
  shows "Suc p mod n = (if Suc p = n then 0 else Suc p)"
  using assms by auto

lemma ring_position:
  fixes c i n :: nat
  assumes "c < n" "i < n"
  shows "(c + i) mod n = (if c + i < n then c + i else c + i - n)"
  using assms by (auto simp: mod_if)

lemma chan_count_less: "chan_inv ch \<Longrightarrow> chan_count ch < capacity ch"
  by (simp add: chan_inv_def chan_count_def)

lemma chan_count_room: "chan_inv ch \<Longrightarrow> chan_count ch \<le> room ch"
  using chan_count_less [of ch] by (simp add: room_def)

lemma chan_count_cases:
  "chan_inv ch \<Longrightarrow> chan_count ch =
    (if cidx ch \<le> pidx ch then pidx ch - cidx ch else pidx ch + capacity ch - cidx ch)"
  by (simp add: chan_inv_def chan_count_def ring_distance)

lemma length_contents [simp]: "length (contents ch) = chan_count ch"
  by (simp add: contents_def)

lemma contents_Nil_iff: "contents ch = [] \<longleftrightarrow> chan_count ch = 0"
  by (simp add: contents_def)

lemma is_empty_contents: "chan_inv ch \<Longrightarrow> is_empty ch \<longleftrightarrow> contents ch = []"
  by (auto simp: contents_Nil_iff chan_count_cases is_empty_def chan_inv_def)

lemma is_full_count: "chan_inv ch \<Longrightarrow> is_full ch \<longleftrightarrow> chan_count ch = room ch"
  by (auto simp: is_full_def chan_count_cases room_def ring_next chan_inv_def)

lemma push_inv:
  "chan_inv ch \<Longrightarrow>
    chan_inv (ch\<lparr>slots := (slots ch)[pidx ch := v], pidx := Suc (pidx ch) mod capacity ch\<rparr>)"
  by (simp add: chan_inv_def)

lemma pop_inv: "chan_inv ch \<Longrightarrow> chan_inv (ch\<lparr>cidx := Suc (cidx ch) mod capacity ch\<rparr>)"
  by (simp add: chan_inv_def)

lemma push_count:
  "chan_inv ch \<Longrightarrow> \<not> is_full ch \<Longrightarrow>
    chan_count (ch\<lparr>slots := (slots ch)[pidx ch := v], pidx := Suc (pidx ch) mod capacity ch\<rparr>)
    = Suc (chan_count ch)"
  using push_inv [of ch v]
  by (auto simp: chan_count_cases is_full_def ring_next chan_inv_def)

lemma pop_count:
  "chan_inv ch \<Longrightarrow> \<not> is_empty ch \<Longrightarrow>
    Suc (chan_count (ch\<lparr>cidx := Suc (cidx ch) mod capacity ch\<rparr>)) = chan_count ch"
  using pop_inv [of ch] by (auto simp: chan_count_cases is_empty_def ring_next chan_inv_def)

lemma ring_last:
  assumes "chan_inv ch"
  shows "(cidx ch + chan_count ch) mod capacity ch = pidx ch"
  using assms ring_position [OF _ chan_count_less [OF assms], of "cidx ch"]
  by (auto simp: chan_count_cases chan_inv_def)

lemma ring_other:
  assumes "chan_inv ch" and i: "i < chan_count ch"
  shows "(cidx ch + i) mod capacity ch \<noteq> pidx ch"
proof -
  have n: "cidx ch < capacity ch" "i < capacity ch"
    using assms chan_count_less [OF assms(1)] by (auto simp: chan_inv_def)
  show ?thesis
    using i chan_count_cases [OF assms(1)] n unfolding ring_position [OF n]
    by (auto split: if_splits)
qed

lemma contents_push:
  assumes "chan_inv ch" "\<not> is_full ch"
  shows "contents (ch\<lparr>slots := (slots ch)[pidx ch := v], pidx := Suc (pidx ch) mod capacity ch\<rparr>)
    = contents ch @ [v]"
proof -
  have "pidx ch < length (slots ch)" using assms(1) by (simp add: chan_inv_def)
  then show ?thesis
    using ring_last [OF assms(1)] ring_other [OF assms(1), THEN not_sym]
    by (simp add: contents_def push_count [OF assms])
qed

lemma contents_pop:
  assumes "chan_inv ch" "\<not> is_empty ch"
  shows "contents ch = slots ch ! cidx ch # contents (ch\<lparr>cidx := Suc (cidx ch) mod capacity ch\<rparr>)"
proof -
  let ?k = "chan_count (ch\<lparr>cidx := Suc (cidx ch) mod capacity ch\<rparr>)"
  have "cidx ch mod capacity ch = cidx ch" using assms(1) by (simp add: chan_inv_def)
  moreover have "[0..<Suc ?k] = 0 # map Suc [0..<?k]" by (simp add: map_Suc_upt upt_conv_Cons)
  ultimately show ?thesis
    unfolding contents_def pop_count [OF assms, symmetric]
    by (simp add: mod_add_left_eq mod_simps comp_def del: upt_Suc)
qed

section \<open>The contract of a channel\<close>

text \<open>
  The abstract channel: the queue, the closed flag and the bound on its length. \<open>run_chan\<close>
  performs a sequence of operations and records what each of them returns.
\<close>

type_synonym 'a queue_spec = "'a list \<times> bool \<times> nat"

fun spec_push :: "'a queue_spec \<Rightarrow> 'a \<Rightarrow> 'a queue_spec \<times> push_status" where
  "spec_push (q, cl, b) v =
     (if cl then ((q, cl, b), Push_closed)
      else if length q = b then ((q, cl, b), Push_would_block)
      else ((q @ [v], cl, b), Push_success))"

fun spec_pop :: "'a queue_spec \<Rightarrow> 'a queue_spec \<times> 'a popped" where
  "spec_pop ([], cl, b) = (([], cl, b), if cl then Pop_closed else Pop_would_block)"
| "spec_pop (v # q, cl, b) = ((q, cl, b), Popped v)"

fun spec_close :: "'a queue_spec \<Rightarrow> 'a queue_spec" where
  "spec_close (q, cl, b) = (q, True, b)"

datatype 'a chan_op = Op_push 'a | Op_pop | Op_close

datatype 'a chan_result = Pushed push_status | Got "'a popped" | Did_close

fun run_chan ::
  "('c \<Rightarrow> 'a \<Rightarrow> 'c \<times> push_status) \<Rightarrow> ('c \<Rightarrow> 'c \<times> 'a popped) \<Rightarrow> ('c \<Rightarrow> 'c)
    \<Rightarrow> 'a chan_op list \<Rightarrow> 'c \<Rightarrow> 'a chan_result list" where
  "run_chan push pop close [] c = []"
| "run_chan push pop close (Op_push v # ops) c =
     (case push c v of (c', r) \<Rightarrow> Pushed r # run_chan push pop close ops c')"
| "run_chan push pop close (Op_pop # ops) c =
     (case pop c of (c', r) \<Rightarrow> Got r # run_chan push pop close ops c')"
| "run_chan push pop close (Op_close # ops) c = Did_close # run_chan push pop close ops (close c)"

locale fifo_channel =
  fixes inv :: "'c \<Rightarrow> bool"
    and queue :: "'c \<Rightarrow> 'a list"
    and is_closed :: "'c \<Rightarrow> bool"
    and bound :: "'c \<Rightarrow> nat"
    and push :: "'c \<Rightarrow> 'a \<Rightarrow> 'c \<times> push_status"
    and pop :: "'c \<Rightarrow> 'c \<times> 'a popped"
    and close :: "'c \<Rightarrow> 'c"
  assumes bound_pos: "inv c \<Longrightarrow> 0 < bound c"
    and queue_bound: "inv c \<Longrightarrow> length (queue c) \<le> bound c"
    and push_closed: "inv c \<Longrightarrow> is_closed c \<Longrightarrow> push c v = (c, Push_closed)"
    and push_full: "inv c \<Longrightarrow> \<not> is_closed c \<Longrightarrow> length (queue c) = bound c
          \<Longrightarrow> push c v = (c, Push_would_block)"
    and push_room: "inv c \<Longrightarrow> \<not> is_closed c \<Longrightarrow> length (queue c) \<noteq> bound c
          \<Longrightarrow> \<exists>c'. push c v = (c', Push_success) \<and> inv c' \<and> queue c' = queue c @ [v]
                \<and> \<not> is_closed c' \<and> bound c' = bound c"
    and pop_empty: "inv c \<Longrightarrow> queue c = []
          \<Longrightarrow> pop c = (c, if is_closed c then Pop_closed else Pop_would_block)"
    and pop_item: "inv c \<Longrightarrow> queue c = v # q
          \<Longrightarrow> \<exists>c'. pop c = (c', Popped v) \<and> inv c' \<and> queue c' = q
                \<and> is_closed c' = is_closed c \<and> bound c' = bound c"
    and close_inv: "inv c \<Longrightarrow> inv (close c)"
    and close_queue: "inv c \<Longrightarrow> queue (close c) = queue c"
    and close_closed: "inv c \<Longrightarrow> is_closed (close c)"
    and close_bound: "inv c \<Longrightarrow> bound (close c) = bound c"
begin

lemma push_refines:
  assumes "inv c"
  obtains c' r where "push c v = (c', r)" "inv c'"
    "spec_push (queue c, is_closed c, bound c) v = ((queue c', is_closed c', bound c'), r)"
  using push_closed [OF assms, of v] push_full [OF assms, of v] push_room [OF assms, of v] assms
  by (cases "is_closed c"; cases "length (queue c) = bound c") auto

lemma pop_refines:
  assumes "inv c"
  obtains c' r where "pop c = (c', r)" "inv c'"
    "spec_pop (queue c, is_closed c, bound c) = ((queue c', is_closed c', bound c'), r)"
  using pop_empty [OF assms] pop_item [OF assms] assms
  by (cases "queue c") auto

lemma run_refines:
  "inv c \<Longrightarrow> run_chan push pop close ops c
    = run_chan spec_push spec_pop spec_close ops (queue c, is_closed c, bound c)"
proof (induction ops arbitrary: c)
  case (Cons op ops)
  show ?case
  proof (cases op)
    case (Op_push v)
    obtain c' r where "push c v = (c', r)" "inv c'"
      "spec_push (queue c, is_closed c, bound c) v = ((queue c', is_closed c', bound c'), r)"
      by (rule push_refines [OF Cons.prems])
    with Cons.IH Op_push show ?thesis by simp
  next
    case Op_pop
    obtain c' r where "pop c = (c', r)" "inv c'"
      "spec_pop (queue c, is_closed c, bound c) = ((queue c', is_closed c', bound c'), r)"
      by (rule pop_refines [OF Cons.prems])
    with Cons.IH Op_pop show ?thesis by simp
  next
    case Op_close
    with Cons.IH [of "close c"] Cons.prems show ?thesis
      by (simp add: close_inv close_queue close_closed close_bound)
  qed
qed simp

end

interpretation ring: fifo_channel chan_inv contents chan_closed room chan_push chan_pop chan_close
proof
  fix c :: "'a buffered_channel" and v :: 'a and q
  assume c: "chan_inv c"
  show "0 < room c" using c by (simp add: chan_inv_def room_def)
  show "length (contents c) \<le> room c" using chan_count_room [OF c] by simp
  show "chan_push c v = (c, Push_closed)" if "chan_closed c"
    using that by (simp add: chan_push_def)
  show "chan_push c v = (c, Push_would_block)" if "\<not> chan_closed c" "length (contents c) = room c"
    using that is_full_count [OF c] by (simp add: chan_push_def)
  show "\<exists>c'. chan_push c v = (c', Push_success) \<and> chan_inv c' \<and> contents c' = contents c @ [v]
      \<and> \<not> chan_closed c' \<and> room c' = room c" if "\<not> chan_closed c" "length (contents c) \<noteq> room c"
    using that is_full_count [OF c] push_inv [OF c, of v] contents_push [OF c, of v]
    by (simp add: chan_push_def room_def)
  show "chan_pop c = (c, if chan_closed c then Pop_closed else Pop_would_block)" if "contents c = []"
    using that is_empty_contents [OF c] by (simp add: chan_pop_def)
  show "\<exists>c'. chan_pop c = (c', Popped v) \<and> chan_inv c' \<and> contents c' = q
      \<and> chan_closed c' = chan_closed c \<and> room c' = room c" if "contents c = v # q"
    using that is_empty_contents [OF c] pop_inv [OF c] contents_pop [OF c]
    by (simp add: chan_pop_def room_def)
  show "chan_inv (chan_close c)" "contents (chan_close c) = contents c"
    "chan_closed (chan_close c)" "room (chan_close c) = room c"
    using c by (simp_all add: chan_close_def chan_inv_def contents_def chan_count_def room_def)
qed

lemma make_channel_inv:
  "make_channel d n = Inr ch \<Longrightarrow> chan_inv ch \<and> contents ch = [] \<and> \<not> chan_closed ch \<and> Suc (room ch) = n"
  by (auto simp: make_channel_def chan_inv_def contents_Nil_iff chan_count_def room_def split: if_splits)

section \<open>Refinement\<close>

text \<open>
  C7: a channel of capacity n (the constructor refuses a capacity below two or not a power of
  two) is, for every sequence of push, pop and close calls, indistinguishable from a queue of
  at most n - 1 elements with a closed flag: every call returns what the queue returns. A push
  on a closed channel is refused, a push on a full one suspends the caller, a pop delivers the
  oldest element, also after the channel has been closed, and only an empty channel reports
  that it is closed.
\<close>

theorem channel_refines_queue:
  "case make_channel d n of
     Inl e \<Rightarrow> e = Invalid_capacity \<and> \<not> (2 \<le> n \<and> power_of_two n)
   | Inr ch \<Rightarrow> run_chan chan_push chan_pop chan_close ops ch
              = run_chan spec_push spec_pop spec_close ops ([], False, n - 1)"
proof (cases "make_channel d n")
  case (Inr ch)
  then have "chan_inv ch" "contents ch = []" "\<not> chan_closed ch" "room ch = n - 1"
    using make_channel_inv [OF Inr] by auto
  with Inr show ?thesis using ring.run_refines [of ch ops] by simp
qed (auto simp: make_channel_def split: if_splits)

end
