(* ===== verification/Wait_Engine.thy ===== *)
theory Wait_Engine
  imports Fiber_Channel
begin

text \<open>
  The machine behind the waiting functions of \<open>common/fiber/wait_stuff.hpp\<close> that hand results
  over through a channel. A call launches one detached fiber per function and then takes
  results from the channel. Its schedule is a list of actions: the caller launches the next
  fiber, the function of fiber i completes, fiber i pushes its result, fiber i counts its push
  down in the \<open>nchannel\<close> facade, the caller pops. An action that is not enabled, because the
  fiber that would perform it is suspended or has ended, is no step. So every interleaving of
  the fibers is a schedule, with the channel operations atomic (each holds the spinlock of the
  channel) and the count-down of \<open>nchannel\<close> one step, as it is when the fibers share a thread.
  (Fibers on several threads race on this counter: see Nchannel_Race.)

  A function is given by its outcome, the exception it throws or the value it returns. The
  field \<open>arrivals\<close> records the items in the order in which their pushes succeed; no operation
  reads it.
\<close>

section \<open>Producers\<close>

text \<open>
  A producer runs its function (whose outcome is the argument of \<open>Running\<close>), has an item to
  push, has pushed and not yet counted it, or has ended.
\<close>

datatype ('o, 'a) producer = Running 'o | Pushing 'a | Counting | Ended

text \<open>
  The caller is still waiting, with the local variables of its loop, or has returned or thrown.
\<close>

datatype ('c, 'r, 'x) caller = Awaiting 'c | Returned 'r | Threw 'x

text \<open>
  The code of a waiting function: what its fibers push for an outcome (\<open>None\<close> when the
  exception of the function leaves the fiber, which ends the process), what the caller does
  with an item (and whether it then closes the channel), and what it does when the channel
  is closed and empty.
\<close>

record ('o, 'a, 'c, 'r, 'x) wait_code =
  fiber_body :: "'o \<Rightarrow> 'a option"
  on_item :: "'c \<Rightarrow> 'a \<Rightarrow> ('c, 'r, 'x) caller \<times> bool"
  on_closed :: "'c \<Rightarrow> ('c, 'r, 'x) caller"

record ('o, 'a, 'c, 'r, 'x) wait_state =
  to_launch :: "'o list"
  producers :: "('o, 'a) producer list"
  chan :: "'a buffered_channel"
  nlimit :: "nat option"
  main :: "('c, 'r, 'x) caller"
  aborted :: bool
  arrivals :: "'a list"

datatype wait_action = Launch | Complete nat | Push nat | Count nat | Pop

section \<open>The channel facade nchannel\<close>

text \<open>
  \<open>nchannel\<close> closes its channel at once when its limit is 0, and else after the limit-th
  successful push; the counter is a \<open>size_t\<close>, which wraps below 0. \<open>nlimit\<close> is \<open>None\<close> when the fibers push to the
  channel itself.
\<close>

definition make_nchannel :: "'a buffered_channel \<Rightarrow> nat \<Rightarrow> 'a buffered_channel \<times> nat" where
  "make_nchannel ch lm = (if 0 = lm then chan_close ch else ch, lm)"

definition nchannel_count :: "'a buffered_channel \<Rightarrow> nat \<Rightarrow> 'a buffered_channel \<times> nat" where
  "nchannel_count ch lm =
     (let lm' = (if lm = 0 then npos else lm - 1) in (if lm' = 0 then chan_close ch else ch, lm'))"

section \<open>Steps\<close>

type_synonym ('o, 'a, 'c, 'r, 'x) wait_step =
  "('o, 'a, 'c, 'r, 'x) wait_state \<Rightarrow> ('o, 'a, 'c, 'r, 'x) wait_state option"

definition launch :: "('o, 'a, 'c, 'r, 'x) wait_step" where
  "launch s =
     (case to_launch s of
        [] \<Rightarrow> None
      | f # fs \<Rightarrow> Some (s\<lparr>to_launch := fs, producers := producers s @ [Running f]\<rparr>))"

definition complete :: "('o, 'a, 'c, 'r, 'x) wait_code \<Rightarrow> nat \<Rightarrow> ('o, 'a, 'c, 'r, 'x) wait_step" where
  "complete prog i s =
     (if i < length (producers s) then
        case producers s ! i of
          Running f \<Rightarrow>
            (case fiber_body prog f of
               None \<Rightarrow> Some (s\<lparr>aborted := True\<rparr>)
             | Some v \<Rightarrow> Some (s\<lparr>producers := (producers s)[i := Pushing v]\<rparr>))
        | _ \<Rightarrow> None
      else None)"

definition push_item :: "nat \<Rightarrow> ('o, 'a, 'c, 'r, 'x) wait_step" where
  "push_item i s =
     (if i < length (producers s) then
        case producers s ! i of
          Pushing v \<Rightarrow>
            (case chan_push (chan s) v of
               (ch, Push_success) \<Rightarrow>
                 Some (s\<lparr>chan := ch, arrivals := arrivals s @ [v],
                         producers := (producers s)[i := if nlimit s = None then Ended else Counting]\<rparr>)
             | (ch, Push_closed) \<Rightarrow> Some (s\<lparr>producers := (producers s)[i := Ended]\<rparr>)
             | (ch, Push_would_block) \<Rightarrow> None)
        | _ \<Rightarrow> None
      else None)"

definition count_item :: "nat \<Rightarrow> ('o, 'a, 'c, 'r, 'x) wait_step" where
  "count_item i s =
     (if i < length (producers s) then
        case (producers s ! i, nlimit s) of
          (Counting, Some lm) \<Rightarrow>
            (case nchannel_count (chan s) lm of (ch, lm') \<Rightarrow>
               Some (s\<lparr>chan := ch, nlimit := Some lm', producers := (producers s)[i := Ended]\<rparr>))
        | _ \<Rightarrow> None
      else None)"

definition pop_item :: "('o, 'a, 'c, 'r, 'x) wait_code \<Rightarrow> ('o, 'a, 'c, 'r, 'x) wait_step" where
  "pop_item prog s =
     (case (to_launch s, main s) of
        ([], Awaiting c) \<Rightarrow>
          (case chan_pop (chan s) of
             (ch, Popped v) \<Rightarrow>
               (case on_item prog c v of (m, cl) \<Rightarrow>
                  Some (s\<lparr>chan := if cl then chan_close ch else ch, main := m\<rparr>))
           | (ch, Pop_closed) \<Rightarrow> Some (s\<lparr>main := on_closed prog c\<rparr>)
           | (ch, Pop_would_block) \<Rightarrow> None)
      | _ \<Rightarrow> None)"

fun act :: "('o, 'a, 'c, 'r, 'x) wait_code \<Rightarrow> wait_action \<Rightarrow> ('o, 'a, 'c, 'r, 'x) wait_step" where
  "act prog a s =
     (if aborted s then None
      else case a of
        Launch \<Rightarrow> launch s
      | Complete i \<Rightarrow> complete prog i s
      | Push i \<Rightarrow> push_item i s
      | Count i \<Rightarrow> count_item i s
      | Pop \<Rightarrow> pop_item prog s)"

fun run :: "('o, 'a, 'c, 'r, 'x) wait_code \<Rightarrow> wait_action list \<Rightarrow> ('o, 'a, 'c, 'r, 'x) wait_step" where
  "run prog [] s = Some s"
| "run prog (a # as) s = (case act prog a s of None \<Rightarrow> None | Some s' \<Rightarrow> run prog as s')"

text \<open>A state in which no fiber can move: computed over the actions there are.\<close>

definition actions :: "('o, 'a, 'c, 'r, 'x) wait_state \<Rightarrow> wait_action list" where
  "actions s = Launch # Pop # concat (map (\<lambda>i. [Complete i, Push i, Count i]) [0..<length (producers s)])"

definition wait_stuck :: "('o, 'a, 'c, 'r, 'x) wait_code \<Rightarrow> ('o, 'a, 'c, 'r, 'x) wait_state \<Rightarrow> bool" where
  "wait_stuck prog s \<longleftrightarrow> list_all (\<lambda>a. act prog a s = None) (actions s)"

text \<open>
  The state when the caller has made the channel (of 64 slots) and, for a limit, the facade.
\<close>

definition start :: "'a buffered_channel \<Rightarrow> nat option \<Rightarrow> 'o list \<Rightarrow> ('c, 'r, 'x) caller
    \<Rightarrow> ('o, 'a, 'c, 'r, 'x) wait_state" where
  "start ch lm fs m = \<lparr> to_launch = fs, producers = [], chan = ch, nlimit = lm, main = m,
     aborted = False, arrivals = [] \<rparr>"

definition channel_64 :: "'a \<Rightarrow> 'a buffered_channel" where
  "channel_64 d = \<lparr> slots = replicate 64 d, pidx = 0, cidx = 0, capacity = 64, chan_closed = False \<rparr>"

section \<open>What a step does\<close>

lemma act_in_actions: "act prog a s = Some s' \<Longrightarrow> a \<in> set (actions s)"
  by (cases a) (auto simp: actions_def complete_def push_item_def count_item_def split: if_splits)

lemma stuck_iff: "wait_stuck prog s \<longleftrightarrow> (\<forall>a. act prog a s = None)"
  unfolding wait_stuck_def list_all_iff using act_in_actions [of prog _ s] by (metis not_None_eq)

lemma act_cases [consumes 2, case_names Launched Aborted Completed Pushed Refused Counted Popped Closed]:
  assumes inv: "chan_inv (chan s)" and step: "act prog a s = Some s'"
  obtains
    f fs where "\<not> aborted s" "to_launch s = f # fs"
      "s' = s\<lparr>to_launch := fs, producers := producers s @ [Running f]\<rparr>"
  | i f where "\<not> aborted s" "i < length (producers s)" "producers s ! i = Running f"
      "fiber_body prog f = None" "s' = s\<lparr>aborted := True\<rparr>"
  | i f v where "\<not> aborted s" "i < length (producers s)" "producers s ! i = Running f"
      "fiber_body prog f = Some v" "s' = s\<lparr>producers := (producers s)[i := Pushing v]\<rparr>"
  | i v ch where "\<not> aborted s" "i < length (producers s)" "producers s ! i = Pushing v"
      "\<not> chan_closed (chan s)" "length (contents (chan s)) \<noteq> room (chan s)"
      "chan_inv ch" "contents ch = contents (chan s) @ [v]" "\<not> chan_closed ch" "room ch = room (chan s)"
      "s' = s\<lparr>chan := ch, arrivals := arrivals s @ [v],
              producers := (producers s)[i := if nlimit s = None then Ended else Counting]\<rparr>"
  | i v where "\<not> aborted s" "i < length (producers s)" "producers s ! i = Pushing v"
      "chan_closed (chan s)" "s' = s\<lparr>producers := (producers s)[i := Ended]\<rparr>"
  | i lm ch lm' where "\<not> aborted s" "i < length (producers s)" "producers s ! i = Counting"
      "nlimit s = Some lm" "nchannel_count (chan s) lm = (ch, lm')"
      "s' = s\<lparr>chan := ch, nlimit := Some lm', producers := (producers s)[i := Ended]\<rparr>"
  | c v q ch m cl where "\<not> aborted s" "to_launch s = []" "main s = Awaiting c"
      "contents (chan s) = v # q" "on_item prog c v = (m, cl)"
      "chan_inv ch" "contents ch = q" "chan_closed ch \<longleftrightarrow> cl \<or> chan_closed (chan s)"
      "room ch = room (chan s)" "s' = s\<lparr>chan := ch, main := m\<rparr>"
  | c where "\<not> aborted s" "to_launch s = []" "main s = Awaiting c"
      "contents (chan s) = []" "chan_closed (chan s)" "s' = s\<lparr>main := on_closed prog c\<rparr>"
proof -
  have na: "\<not> aborted s" using step by (auto split: if_splits)
  show thesis
  proof (cases a)
    case Launch
    with step na show thesis
      by (auto simp: launch_def split: list.splits intro: that(1))
  next
    case (Complete i)
    with step na show thesis
      by (auto simp: complete_def split: if_splits producer.splits option.splits intro: that(2,3))
  next
    case (Push i)
    then obtain v where i: "i < length (producers s)" "producers s ! i = Pushing v"
      using step na by (auto simp: push_item_def split: if_splits producer.splits)
    show thesis
    proof (cases "chan_closed (chan s)")
      case True
      with Push step na i ring.push_closed [OF inv, of v] show thesis
        by (auto simp: push_item_def intro: that(5))
    next
      case False
      then have room: "length (contents (chan s)) \<noteq> room (chan s)"
        using Push step na i ring.push_full [OF inv, of v] by (auto simp: push_item_def)
      then obtain ch where "chan_push (chan s) v = (ch, Push_success)" "chan_inv ch"
        "contents ch = contents (chan s) @ [v]" "\<not> chan_closed ch" "room ch = room (chan s)"
        using ring.push_room [OF inv False, of v] by blast
      with Push step na i False room show thesis
        by (intro that(4) [of i v ch]) (simp_all add: push_item_def)
    qed
  next
    case (Count i)
    with step na show thesis
      by (auto simp: count_item_def split: if_splits producer.splits option.splits prod.splits
          intro: that(6))
  next
    case Pop
    then obtain c where c: "to_launch s = []" "main s = Awaiting c"
      using step na by (auto simp: pop_item_def split: list.splits caller.splits)
    show thesis
    proof (cases "contents (chan s)")
      case Nil
      with Pop step na c ring.pop_empty [OF inv] show thesis
        by (auto simp: pop_item_def split: if_splits intro: that(8))
    next
      case (Cons v q)
      obtain ch where ch: "chan_pop (chan s) = (ch, Popped v)" "chan_inv ch" "contents ch = q"
        "chan_closed ch = chan_closed (chan s)" "room ch = room (chan s)"
        using ring.pop_item [OF inv Cons] by blast
      obtain m cl where m: "on_item prog c v = (m, cl)" by fastforce
      show thesis
        using Pop step na c Cons ch m
        by (intro that(7) [of c v q m cl "if cl then chan_close ch else ch"])
          (auto simp: pop_item_def ring.close_inv ring.close_queue ring.close_closed ring.close_bound)
    qed
  qed
qed

text \<open>
  When nothing can move and the process has not been ended, the caller has launched every
  fiber, every fiber has ended or is suspended in a push on a full channel, and the caller
  has finished or is suspended in a pop on an empty one.
\<close>

definition is_awaiting :: "('c, 'r, 'x) caller \<Rightarrow> bool" where
  "is_awaiting m \<longleftrightarrow> (case m of Awaiting c \<Rightarrow> True | _ \<Rightarrow> False)"

lemma is_awaiting_simps [simp]:
  "is_awaiting (Awaiting c)" "\<not> is_awaiting (Returned r)" "\<not> is_awaiting (Threw x)"
  by (simp_all add: is_awaiting_def)

lemma is_awaitingE: "is_awaiting m \<Longrightarrow> (\<And>c. m = Awaiting c \<Longrightarrow> P) \<Longrightarrow> P"
  by (cases m) auto

lemma stuck_launch: "wait_stuck prog s \<Longrightarrow> \<not> aborted s \<Longrightarrow> to_launch s = []"
  unfolding stuck_iff by (erule allE [of _ Launch]) (auto simp: launch_def split: list.splits)

lemma stuck_producer:
  assumes "wait_stuck prog s" "\<not> aborted s" "chan_inv (chan s)" "nlimit s = None \<longrightarrow> Counting \<notin> set (producers s)"
    and p: "p \<in> set (producers s)"
  shows "p = Ended \<or> (\<exists>v. p = Pushing v) \<and> \<not> chan_closed (chan s)
    \<and> length (contents (chan s)) = room (chan s)"
proof -
  obtain i where i: "i < length (producers s)" "producers s ! i = p"
    using p by (auto simp: in_set_conv_nth)
  have none: "act prog a s = None" for a using assms(1) by (simp add: stuck_iff)
  show ?thesis
  proof (cases p)
    case (Running f)
    with none [of "Complete i"] i assms(2) show ?thesis
      by (auto simp: complete_def split: option.splits)
  next
    case (Pushing v)
    with none [of "Push i"] i assms(2) have "push_item i s = None" by simp
    with Pushing i show ?thesis
      using ring.push_closed [OF assms(3), of v] ring.push_room [OF assms(3), of v]
      by (force simp: push_item_def)
  next
    case Counting
    with assms(4) p obtain lm where "nlimit s = Some lm" by auto
    with Counting none [of "Count i"] i assms(2) show ?thesis
      by (auto simp: count_item_def split: prod.splits)
  qed simp
qed

lemma stuck_awaiting:
  assumes "wait_stuck prog s" "\<not> aborted s" "chan_inv (chan s)" "is_awaiting (main s)"
  shows "contents (chan s) = [] \<and> \<not> chan_closed (chan s)"
proof -
  obtain c where c: "main s = Awaiting c" using assms(4) by (rule is_awaitingE)
  have "pop_item prog s = None"
    using assms(1,2) unfolding stuck_iff by (auto dest: spec [of _ Pop])
  with c stuck_launch [OF assms(1,2)] show ?thesis
    using ring.pop_empty [OF assms(3)] ring.pop_item [OF assms(3)]
    by (cases "contents (chan s)") (force simp: pop_item_def split: prod.splits if_splits)+
qed

section \<open>Every schedule is finite\<close>

text \<open>
  Every step lowers a measure: the steps a fiber still has to take, the items in the channel
  and the end of the caller.
\<close>

fun producer_work :: "('o, 'a) producer \<Rightarrow> nat" where
  "producer_work (Running f) = 4"
| "producer_work (Pushing v) = 3"
| "producer_work Counting = 1"
| "producer_work Ended = 0"

definition work :: "('o, 'a, 'c, 'r, 'x) wait_state \<Rightarrow> nat" where
  "work s = 5 * length (to_launch s) + sum_list (map producer_work (producers s))
     + length (contents (chan s)) + of_bool (is_awaiting (main s)) + of_bool (\<not> aborted s)"

lemma producer_work_update:
  "i < length ps \<Longrightarrow> sum_list (map producer_work (ps[i := p])) + producer_work (ps ! i)
    = sum_list (map producer_work ps) + producer_work p"
  by (rule sum_list_map_update)

lemma nchannel_count_keeps:
  assumes "chan_inv ch" "nchannel_count ch lm = (ch', lm')"
  shows "chan_inv ch' \<and> contents ch' = contents ch \<and> room ch' = room ch
    \<and> lm' = (if lm = 0 then npos else lm - 1)
    \<and> (chan_closed ch' \<longleftrightarrow> lm' = 0 \<or> chan_closed ch)"
  using assms
  by (auto simp: nchannel_count_def Let_def ring.close_inv ring.close_queue ring.close_closed
      ring.close_bound split: if_splits)

text \<open>
  What the caller has made of the items it has taken: \<open>consume\<close> feeds a list of items to it.
\<close>

fun consume :: "('o, 'a, 'c, 'r, 'x) wait_code \<Rightarrow> ('c, 'r, 'x) caller \<Rightarrow> 'a list \<Rightarrow> ('c, 'r, 'x) caller" where
  "consume prog m [] = m"
| "consume prog m (v # vs) =
     (case m of Awaiting c \<Rightarrow> consume prog (fst (on_item prog c v)) vs | _ \<Rightarrow> m)"

lemma consume_ended: "\<not> is_awaiting m \<Longrightarrow> consume prog m vs = m"
  by (cases vs; cases m) auto

lemma consume_append: "consume prog m (us @ vs) = consume prog (consume prog m us) vs"
  by (induction us arbitrary: m) (auto simp: consume_ended split: caller.splits)

text \<open>
  The part of the invariant that every waiting function shares: the items that have arrived
  are those the caller has taken, in this order, followed by those in the channel.
\<close>

definition taken :: "('o, 'a, 'c, 'r, 'x) wait_state \<Rightarrow> 'a list" where
  "taken s = take (length (arrivals s) - length (contents (chan s))) (arrivals s)"

definition flow_inv ::
  "('o, 'a, 'c, 'r, 'x) wait_code \<Rightarrow> ('c, 'r, 'x) caller \<Rightarrow> nat \<Rightarrow> ('o, 'a, 'c, 'r, 'x) wait_state \<Rightarrow> bool" where
  "flow_inv prog m b s \<longleftrightarrow> chan_inv (chan s) \<and> room (chan s) = b
     \<and> arrivals s = taken s @ contents (chan s)
     \<and> (main s = consume prog m (taken s)
        \<or> (\<exists>c. consume prog m (taken s) = Awaiting c \<and> main s = on_closed prog c
             \<and> chan_closed (chan s) \<and> contents (chan s) = [])
           \<and> \<not> is_awaiting (main s))
     \<and> (taken s = [] \<or> is_awaiting (consume prog m (butlast (taken s))))
     \<and> (to_launch s = [] \<or> taken s = [] \<and> main s = m)
     \<and> (nlimit s = None \<longrightarrow> Counting \<notin> set (producers s))"

lemma taken_eq: "arrivals s = t @ contents (chan s) \<Longrightarrow> taken s = t"
  by (simp add: taken_def)

lemma taken_frame [simp]:
  "taken (s\<lparr>producers := p\<rparr>) = taken s" "taken (s\<lparr>aborted := b\<rparr>) = taken s"
  "taken (s\<lparr>to_launch := t\<rparr>) = taken s" "taken (s\<lparr>main := m\<rparr>) = taken s"
  by (simp_all add: taken_def)

text \<open>What a waiting function must do for its schedules to be finite: end on a closed channel.\<close>

locale waiting =
  fixes prog :: "('o, 'a, 'c, 'r, 'x) wait_code"
  assumes on_closed_ends: "\<not> is_awaiting (on_closed prog c)"
begin

lemma act_work:
  assumes "chan_inv (chan s)" "act prog a s = Some s'"
  shows "work s' < work s"
  using assms
proof (cases rule: act_cases)
  case (Completed i f v)
  then show ?thesis using producer_work_update [of i "producers s" "Pushing v"]
    by (simp add: work_def)
next
  case (Pushed i v ch)
  then show ?thesis
    using producer_work_update [of i "producers s" "if nlimit s = None then Ended else Counting"]
    by (auto simp: work_def simp del: length_contents split: if_splits)
next
  case (Refused i v)
  then show ?thesis using producer_work_update [of i "producers s" Ended]
    by (simp add: work_def)
next
  case (Counted i lm ch lm')
  then show ?thesis
    using producer_work_update [of i "producers s" Ended] nchannel_count_keeps [OF assms(1)]
    by (simp add: work_def del: length_contents)
next
  case (Popped c v q ch m cl)
  then show ?thesis
    by (simp add: work_def del: length_contents)
qed (simp_all add: work_def on_closed_ends)

lemma flow_step:
  assumes inv: "flow_inv prog m b s" and step: "act prog a s = Some s'"
  shows "flow_inv prog m b s'"
proof -
  have ch: "chan_inv (chan s)" and arr: "arrivals s = taken s @ contents (chan s)"
    using inv by (auto simp: flow_inv_def)
  have upd: "Counting \<notin> set (xs[i := p])" if "Counting \<notin> set xs" "p \<noteq> Counting"
    for xs :: "('o, 'a) producer list" and i p
    using that set_update_subset_insert [of xs i p] by auto
  show ?thesis
    using ch step
  proof (cases rule: act_cases)
    case (Pushed i v c)
    then have "taken s' = taken s" using arr by (intro taken_eq) simp
    with Pushed inv arr show ?thesis by (auto simp: flow_inv_def upd)
  next
    case (Counted i lm c lm')
    then have "taken s' = taken s"
      using arr nchannel_count_keeps [OF ch] by (intro taken_eq) simp
    with Counted inv show ?thesis using nchannel_count_keeps [OF ch]
      by (auto simp: flow_inv_def)
  next
    case (Popped c v q c' m' cl)
    then have "taken s' = taken s @ [v]" using arr by (intro taken_eq) simp
    moreover have "consume prog m (taken s) = Awaiting c"
      using Popped inv by (auto simp: flow_inv_def)
    ultimately show ?thesis using Popped inv arr by (simp add: flow_inv_def consume_append)
  next
    case (Closed c)
    moreover have "consume prog m (taken s) = Awaiting c"
      using Closed inv by (auto simp: flow_inv_def)
    ultimately show ?thesis using inv by (simp add: flow_inv_def on_closed_ends)
  next
    case (Launched f fs)
    with inv show ?thesis by (auto simp: flow_inv_def)
  next
    case (Aborted i f)
    with inv show ?thesis by (auto simp: flow_inv_def)
  next
    case (Completed i f v)
    with inv show ?thesis by (auto simp: flow_inv_def upd)
  next
    case (Refused i v)
    with inv show ?thesis by (auto simp: flow_inv_def upd)
  qed
qed

lemma run_bounded:
  "run prog as s = Some s' \<Longrightarrow> flow_inv prog m b s \<Longrightarrow> length as + work s' \<le> work s"
proof (induction as arbitrary: s)
  case (Cons a as)
  then obtain t where t: "act prog a s = Some t" "run prog as t = Some s'"
    by (auto simp del: act.simps split: option.splits)
  have "work t < work s" using act_work [OF _ t(1)] Cons.prems(2) by (simp add: flow_inv_def)
  with Cons.IH [OF t(2) flow_step [OF Cons.prems(2) t(1)]] show ?case by simp
qed simp

lemma run_to_end:
  assumes "flow_inv prog m b s"
  obtains as s' where "run prog as s = Some s'" "wait_stuck prog s'"
  using assms
proof (induction "work s" arbitrary: s thesis rule: less_induct)
  case less
  show ?case
  proof (cases "wait_stuck prog s")
    case True
    then show ?thesis using less.prems(1) [of "[]" s] by simp
  next
    case False
    then obtain a t where t: "act prog a s = Some t" by (auto simp: stuck_iff)
    have "work t < work s" using act_work [OF _ t] less.prems(2) by (simp add: flow_inv_def)
    then obtain as s' where "run prog as t = Some s'" "wait_stuck prog s'"
      using less.hyps [OF _ _ flow_step [OF less.prems(2) t]] by blast
    with t show ?thesis using less.prems(1) [of "a # as" s'] by (simp del: act.simps)
  qed
qed

end

lemma flow_start:
  "chan_inv ch \<Longrightarrow> contents ch = [] \<Longrightarrow> flow_inv prog m (room ch) (start ch lm fs m)"
  by (simp add: flow_inv_def start_def taken_def)

lemma work_start:
  "contents ch = [] \<Longrightarrow> work (start ch lm fs m) \<le> 5 * length fs + 2"
  by (simp add: work_def start_def del: length_contents)

context waiting
begin

lemma schedule_bounded:
  assumes "chan_inv ch" "contents ch = []" "5 * length fs + 2 < length as"
  shows "run prog as (start ch lm fs m) = None"
proof (rule ccontr)
  assume "run prog as (start ch lm fs m) \<noteq> None"
  then obtain s where "run prog as (start ch lm fs m) = Some s" by auto
  then have "length as \<le> work (start ch lm fs m)"
    using run_bounded [OF _ flow_start [OF assms(1,2)]] by fastforce
  with work_start [OF assms(2), of lm fs m] assms(3) show False by simp
qed

end

text \<open>An invariant of the steps holds at the end of every schedule.\<close>

lemma run_invariant:
  assumes "\<And>s a s'. I s \<Longrightarrow> act prog a s = Some s' \<Longrightarrow> I s'"
  shows "run prog as s = Some s' \<Longrightarrow> I s \<Longrightarrow> I s'"
  by (induction as arbitrary: s) (auto intro: assms simp del: act.simps split: option.splits)

lemma run_append: "run prog (as @ bs) s = Option.bind (run prog as s) (run prog bs)"
  by (induction as arbitrary: s) (auto simp del: act.simps split: option.splits)

text \<open>The caller can launch all fibers at once; arrivals are never taken back.\<close>

lemma run_launch:
  "\<not> aborted s \<Longrightarrow> run prog (replicate (length (to_launch s)) Launch) s
    = Some (s\<lparr>to_launch := [], producers := producers s @ map Running (to_launch s)\<rparr>)"
proof (induction "to_launch s" arbitrary: s)
  case (Cons f fs)
  have "act prog Launch s = Some (s\<lparr>to_launch := fs, producers := producers s @ [Running f]\<rparr>)"
    using Cons.prems Cons.hyps(2) [symmetric] by (simp add: launch_def)
  with Cons.hyps(1) [of "s\<lparr>to_launch := fs, producers := producers s @ [Running f]\<rparr>"] Cons.prems
    Cons.hyps(2) [symmetric]
  show ?case by (simp del: act.simps)
qed simp

lemma arrivals_step: "act prog a s = Some s' \<Longrightarrow> \<exists>xs. arrivals s' = arrivals s @ xs"
  by (auto simp: launch_def complete_def push_item_def count_item_def pop_item_def
      split: if_splits wait_action.splits list.splits producer.splits option.splits prod.splits
      push_status.splits popped.splits caller.splits)

lemma run_arrivals: "run prog as s = Some s' \<Longrightarrow> \<exists>xs. arrivals s' = arrivals s @ xs"
proof (induction as arbitrary: s)
  case (Cons a as)
  then obtain t where t: "act prog a s = Some t" "run prog as t = Some s'"
    by (auto simp del: act.simps split: option.splits)
  show ?case using arrivals_step [OF t(1)] Cons.IH [OF t(2)] by auto
qed simp

lemma run_evaluates:
  assumes "case run prog as s of None \<Rightarrow> False | Some s' \<Rightarrow> wait_stuck prog s' \<and> P s'"
  obtains s' where "run prog as s = Some s'" "wait_stuck prog s'" "P s'"
  using assms by (auto split: option.splits)

lemma channel_64:
  "make_channel d 64 = Inr (channel_64 d)" "chan_inv (channel_64 d)" "contents (channel_64 d) = []"
  "\<not> chan_closed (channel_64 d)" "room (channel_64 d) = 63"
proof -
  have "power_of_two 64" by code_simp
  then show c: "make_channel d 64 = Inr (channel_64 d)"
    by (simp add: make_channel_def channel_64_def)
  show "chan_inv (channel_64 d)" "contents (channel_64 d) = []"
    "\<not> chan_closed (channel_64 d)" "room (channel_64 d) = 63"
    using make_channel_inv [OF c] by auto
qed

lemma channel_64_empty: "chan_pop (channel_64 d) = (channel_64 d, Pop_would_block)"
  using ring.pop_empty [OF channel_64(2,3), of d] channel_64(4) [of d] by simp

section \<open>Accounting\<close>

text \<open>
  What the fibers still owe: an item (or an exception) for every function that has not
  delivered its item.
\<close>

fun owes :: "('o, 'a, 'c, 'r, 'x) wait_code \<Rightarrow> ('o, 'a) producer \<Rightarrow> 'a option multiset" where
  "owes prog (Running f) = {#fiber_body prog f#}"
| "owes prog (Pushing v) = {#Some v#}"
| "owes prog Counting = {#}"
| "owes prog Ended = {#}"

definition owed :: "('o, 'a, 'c, 'r, 'x) wait_code \<Rightarrow> ('o, 'a, 'c, 'r, 'x) wait_state \<Rightarrow> 'a option multiset" where
  "owed prog s = mset (map (fiber_body prog) (to_launch s))
     + sum_list (map (owes prog) (producers s)) + mset (map Some (arrivals s))"

definition counting :: "('o, 'a, 'c, 'r, 'x) wait_state \<Rightarrow> nat" where
  "counting s = sum_list (map (\<lambda>p. of_bool (p = Counting)) (producers s))"

lemma owes_update:
  "i < length ps \<Longrightarrow> sum_list (map (owes prog) (ps[i := p])) + owes prog (ps ! i)
    = sum_list (map (owes prog) ps) + owes prog p"
  by (rule sum_list_map_update)

lemma counting_update:
  "i < length ps \<Longrightarrow>
    sum_list (map (\<lambda>p. of_bool (p = Counting) :: nat) (ps[i := p])) + of_bool (ps ! i = Counting)
    = sum_list (map (\<lambda>p. of_bool (p = Counting)) ps) + of_bool (p = Counting)"
  by (rule sum_list_map_update)

lemma owed_step:
  assumes "chan_inv (chan s)" "act prog a s = Some s'"
  shows "owed prog s' \<subseteq># owed prog s \<and> count (owed prog s') None = count (owed prog s) None
    \<and> (chan_closed (chan s) \<or> owed prog s' = owed prog s)"
  using assms
proof (cases rule: act_cases)
  case (Completed i f v)
  then show ?thesis using owes_update [of i "producers s" prog "Pushing v"]
    by (simp add: owed_def)
next
  case (Pushed i v ch)
  then have "owed prog s' = owed prog s"
    using owes_update [of i "producers s" prog "if nlimit s = None then Ended else Counting"]
    by (auto simp: owed_def split: if_splits)
  then show ?thesis by simp
next
  case (Refused i v)
  then have "owed prog s = add_mset (Some v) (owed prog s')"
    using owes_update [of i "producers s" prog Ended] by (simp add: owed_def)
  with Refused show ?thesis by simp
next
  case (Counted i lm ch lm')
  then show ?thesis using owes_update [of i "producers s" prog Ended]
    by (simp add: owed_def)
qed (simp_all add: owed_def ac_simps)

lemma aborted_step:
  assumes "chan_inv (chan s)" "act prog a s = Some s'"
  shows "aborted s' \<longrightarrow> None \<in># owed prog s'"
  using assms
proof (cases rule: act_cases)
  case (Aborted i f)
  then have "sum_list (map (owes prog) (producers s))
      = add_mset None (sum_list (map (owes prog) ((producers s)[i := Ended])))"
    using owes_update [of i "producers s" prog Ended] by simp
  with Aborted show ?thesis by (simp add: owed_def)
qed simp_all

lemma owed_ended:
  assumes "to_launch s = []" "set (producers s) \<subseteq> {Ended}"
  shows "owed prog s = mset (map Some (arrivals s))"
proof -
  have "sum_list (map (owes prog) ps) = {#}" if "set ps \<subseteq> {Ended}" for ps
    using that by (induction ps) auto
  then show ?thesis using assms by (simp add: owed_def)
qed

lemma mset_Some_subset: "mset (map Some xs) \<subseteq># mset (map Some ys) \<Longrightarrow> mset xs \<subseteq># mset ys"
  using image_mset_subseteq_mono [of "mset (map Some xs)" "mset (map Some ys)" the]
  by (simp add: multiset.map_comp comp_def)

lemma mset_subset_full: "mset xs \<subseteq># mset ys \<Longrightarrow> length ys \<le> length xs \<Longrightarrow> mset xs = mset ys"
proof -
  assume "mset xs \<subseteq># mset ys" and len: "length ys \<le> length xs"
  then obtain zs where zs: "mset ys = mset xs + zs" by (auto simp: mset_subset_eq_exists_conv)
  then have "length ys = length xs + size zs" by (metis size_mset size_union)
  with len zs show "mset xs = mset ys" by simp
qed

lemma owed_start: "owed prog (start ch lm fs m) = mset (map (fiber_body prog) fs)"
  by (simp add: owed_def start_def)

end
