(* ===== verification/Wait_First.thy ===== *)
theory Wait_First
  imports Wait_Engine
begin

text \<open>
  The functions of \<open>common/fiber/wait_stuff.hpp\<close> that wait for the first result
  (\<open>wait_first_value\<close>, \<open>wait_first_outcome\<close>, \<open>wait_first_success\<close>, \<open>wait_first_value_het\<close>) in
  their variadic and vector forms, and the flag \<open>Done\<close> of \<open>wait_first_simple\<close>.

  An exception is a value of the type variable \<open>'e\<close>; a ready future is the outcome it holds.
  The variadic forms launch the first function and recur on the rest, the vector forms launch
  them in a loop: both are the list of the functions in order, and the variadic ones have a
  first function. The alternatives of a variant result are the values of the type \<open>'v\<close>.
\<close>

section \<open>The functions\<close>

datatype 'e wait_error = Thrown 'e | Exception_list string "'e list" | Fiber_error fiber_error

text \<open>The fiber bodies: \<open>chan->push(function())\<close>, and a future pushed after running a task.\<close>

definition wait_first_value_impl :: "'e + 'v \<Rightarrow> 'v option" where
  "wait_first_value_impl f = (case f of Inl e \<Rightarrow> None | Inr v \<Rightarrow> Some v)"

definition wait_first_outcome_impl :: "'e + 'v \<Rightarrow> ('e + 'v) option" where
  "wait_first_outcome_impl f = Some f"

definition value_pop_closed :: "'c \<Rightarrow> ('c, 'r, 'e wait_error) caller" where
  "value_pop_closed c = Threw (Fiber_error Channel_is_closed)"

definition first_value_prog :: "('e + 'v, 'v, unit, 'v, 'e wait_error) wait_code" where
  "first_value_prog = \<lparr> fiber_body = wait_first_value_impl,
     on_item = (\<lambda>c v. (Returned v, True)), on_closed = value_pop_closed \<rparr>"

definition wait_first_value ::
  "'v \<Rightarrow> 'e + 'v \<Rightarrow> ('e + 'v) list \<Rightarrow> ('e + 'v, 'v, unit, 'v, 'e wait_error) wait_state" where
  "wait_first_value d f fs = start (channel_64 d) None (f # fs) (Awaiting ())"

definition wait_first_value_c ::
  "'v \<Rightarrow> ('e + 'v) list \<Rightarrow> ('e + 'v, 'v, unit, 'v, 'e wait_error) wait_state" where
  "wait_first_value_c d fs = start (channel_64 d) None fs (Awaiting ())"

definition wait_first_value_het ::
  "'v \<Rightarrow> 'e + 'v \<Rightarrow> ('e + 'v) list \<Rightarrow> ('e + 'v, 'v, unit, 'v, 'e wait_error) wait_state" where
  "wait_first_value_het d f fs = start (channel_64 d) None (f # fs) (Awaiting ())"

text \<open>\<open>future.get()\<close> returns the value of a ready future or throws its exception.\<close>

definition get_ready :: "'e + 'v \<Rightarrow> ('c, 'v, 'e wait_error) caller" where
  "get_ready f = (case f of Inl e \<Rightarrow> Threw (Thrown e) | Inr v \<Rightarrow> Returned v)"

definition first_outcome_prog :: "('e + 'v, 'e + 'v, unit, 'v, 'e wait_error) wait_code" where
  "first_outcome_prog = \<lparr> fiber_body = wait_first_outcome_impl,
     on_item = (\<lambda>c f. (get_ready f, True)), on_closed = value_pop_closed \<rparr>"

definition wait_first_outcome ::
  "'e + 'v \<Rightarrow> 'e + 'v \<Rightarrow> ('e + 'v) list \<Rightarrow> ('e + 'v, 'e + 'v, unit, 'v, 'e wait_error) wait_state" where
  "wait_first_outcome d f fs = start (channel_64 d) None (f # fs) (Awaiting ())"

definition wait_first_outcome_c ::
  "'e + 'v \<Rightarrow> ('e + 'v) list \<Rightarrow> ('e + 'v, 'e + 'v, unit, 'v, 'e wait_error) wait_state" where
  "wait_first_outcome_c d fs = start (channel_64 d) None fs (Awaiting ())"

text \<open>
  The loop of \<open>wait_first_success\<close>: the head tests the counter and, at the end, throws the
  exceptions collected; the body takes a future, returns its value or collects its exception.
\<close>

definition only_errors :: "'e list \<Rightarrow> 'e wait_error" where
  "only_errors es = Exception_list ''wait_first_success() produced only errors'' es"

definition success_loop :: "nat \<Rightarrow> nat \<Rightarrow> 'e list \<Rightarrow> (nat \<times> 'e list, 'v, 'e wait_error) caller" where
  "success_loop cnt i es = (if i < cnt then Awaiting (i, es) else Threw (only_errors es))"

definition success_item ::
  "nat \<Rightarrow> nat \<times> 'e list \<Rightarrow> 'e + 'v \<Rightarrow> (nat \<times> 'e list, 'v, 'e wait_error) caller \<times> bool" where
  "success_item cnt c f =
     (case (c, f) of
        ((i, es), Inr v) \<Rightarrow> (get_ready f, True)
      | ((i, es), Inl e) \<Rightarrow> (success_loop cnt (Suc i) (es @ [e]), False))"

definition first_success_prog ::
  "nat \<Rightarrow> ('e + 'v, 'e + 'v, nat \<times> 'e list, 'v, 'e wait_error) wait_code" where
  "first_success_prog cnt = \<lparr> fiber_body = wait_first_outcome_impl,
     on_item = success_item cnt, on_closed = value_pop_closed \<rparr>"

definition wait_first_success ::
  "'e + 'v \<Rightarrow> 'e + 'v \<Rightarrow> ('e + 'v) list
    \<Rightarrow> ('e + 'v, 'e + 'v, nat \<times> 'e list, 'v, 'e wait_error) wait_state" where
  "wait_first_success d f fs =
     start (channel_64 d) None (f # fs) (success_loop (1 + length fs) 0 [])"

definition wait_first_success_c ::
  "'e + 'v \<Rightarrow> ('e + 'v) list
    \<Rightarrow> ('e + 'v, 'e + 'v, nat \<times> 'e list, 'v, 'e wait_error) wait_state" where
  "wait_first_success_c d fs = start (channel_64 d) None fs (success_loop (length fs) 0 [])"

text \<open>The variadic forms are the vector forms on the list of their arguments.\<close>

lemma first_variadic:
  "wait_first_value d f fs = wait_first_value_c d (f # fs)"
  "wait_first_value_het d f fs = wait_first_value_c d (f # fs)"
  "wait_first_outcome d' f fs = wait_first_outcome_c d' (f # fs)"
  "wait_first_success d' f fs = wait_first_success_c d' (f # fs)"
  by (simp_all add: wait_first_value_def wait_first_value_het_def wait_first_outcome_def
      wait_first_success_def wait_first_value_c_def wait_first_outcome_c_def wait_first_success_c_def)

section \<open>The contract of a caller that stops early\<close>

text \<open>
  A caller that takes results from the channel itself: it closes the channel only when it
  ends, n results are enough to end it, and when it ends without closing the channel, it has
  taken n results.
\<close>

definition first_inv ::
  "('o, 'a, 'c, 'r, 'x) wait_code \<Rightarrow> ('c, 'r, 'x) caller \<Rightarrow> nat \<Rightarrow> 'o list
    \<Rightarrow> ('o, 'a, 'c, 'r, 'x) wait_state \<Rightarrow> bool" where
  "first_inv prog m0 n fs s \<longleftrightarrow> flow_inv prog m0 63 s \<and> nlimit s = None
     \<and> owed prog s \<subseteq># mset (map (fiber_body prog) fs)
     \<and> count (owed prog s) None = count (mset (map (fiber_body prog) fs)) None
     \<and> (\<not> chan_closed (chan s) \<longrightarrow> owed prog s = mset (map (fiber_body prog) fs))
     \<and> (chan_closed (chan s) \<longrightarrow> \<not> is_awaiting (main s))
     \<and> (\<not> is_awaiting (main s) \<longrightarrow> chan_closed (chan s) \<or> n \<le> length (taken s))
     \<and> main s = consume prog m0 (taken s)
     \<and> (aborted s \<longrightarrow> None \<in># owed prog s)"

locale first_caller = waiting prog for prog :: "('o, 'a, 'c, 'r, 'x) wait_code" +
  fixes m0 :: "('c, 'r, 'x) caller" and n :: nat
  assumes idle_start: "\<not> is_awaiting m0 \<Longrightarrow> n = 0"
    and enough: "length vs = n \<Longrightarrow> \<not> is_awaiting (consume prog m0 vs)"
    and closes: "consume prog m0 vs = Awaiting c \<Longrightarrow> on_item prog c v = (m, cl)
          \<Longrightarrow> (if cl then \<not> is_awaiting m else is_awaiting m \<or> n \<le> Suc (length vs))"
begin

lemma first_start: "first_inv prog m0 n fs (start (channel_64 d) None fs m0)"
proof -
  have "flow_inv prog m0 63 (start (channel_64 d) None fs m0)"
    using flow_start [OF channel_64(2,3), of prog m0 d None fs] by (simp add: channel_64)
  moreover have "n = 0" if "\<not> is_awaiting m0"
    using that idle_start by blast
  ultimately show ?thesis
    unfolding first_inv_def owed_start by (simp add: start_def channel_64 taken_def)
qed

lemma first_step:
  assumes inv: "first_inv prog m0 n fs s" and step: "act prog a s = Some s'"
  shows "first_inv prog m0 n fs s'"
proof -
  have flow: "flow_inv prog m0 63 s" and ch: "chan_inv (chan s)"
    using inv by (auto simp: first_inv_def flow_inv_def)
  have flow': "flow_inv prog m0 63 s'" by (rule flow_step [OF flow step])
  have owed: "owed prog s' \<subseteq># mset (map (fiber_body prog) fs)"
    "count (owed prog s') None = count (mset (map (fiber_body prog) fs)) None"
    "chan_closed (chan s) \<or> owed prog s' = mset (map (fiber_body prog) fs)"
    "aborted s' \<longrightarrow> None \<in># owed prog s'"
    using inv owed_step [OF ch step] aborted_step [OF ch step]
    by (auto simp: first_inv_def dest: subset_mset.order_trans)
  have rest: "nlimit s' = None \<and> main s' = consume prog m0 (taken s') \<and> (chan_closed (chan s) \<longrightarrow> chan_closed (chan s'))
    \<and> (chan_closed (chan s') \<longrightarrow> \<not> is_awaiting (main s'))
    \<and> (\<not> is_awaiting (main s') \<longrightarrow> chan_closed (chan s') \<or> n \<le> length (taken s'))"
    using ch step
  proof (cases rule: act_cases)
    case (Popped c v q ch' m cl)
    have tk: "taken s' = taken s @ [v]"
      using Popped flow by (intro taken_eq) (simp add: flow_inv_def)
    have aw: "consume prog m0 (taken s) = Awaiting c"
      using Popped inv by (simp add: first_inv_def)
    with closes Popped(5) have "if cl then \<not> is_awaiting m else is_awaiting m \<or> n \<le> Suc (length (taken s))"
      by blast
    with Popped inv tk aw show ?thesis
      by (auto simp: first_inv_def consume_append split: if_splits)
  next
    case (Pushed i v c)
    then have "taken s' = taken s" using flow by (intro taken_eq) (simp add: flow_inv_def)
    with Pushed inv show ?thesis by (auto simp: first_inv_def)
  next
    case (Closed c)
    with inv show ?thesis by (simp add: first_inv_def)
  next
    case (Counted i lm c lm')
    with inv show ?thesis by (simp add: first_inv_def)
  qed (use inv in \<open>auto simp: first_inv_def\<close>)
  with flow' owed show ?thesis by (auto simp: first_inv_def)
qed

lemma first_stuck:
  assumes inv: "first_inv prog m0 (length fs) fs s" and n: "n = length fs"
    and wait_stuck: "wait_stuck prog s" "\<not> aborted s"
  shows "\<not> is_awaiting (main s) \<and> set (producers s) \<subseteq> {Ended}"
proof -
  have ch: "chan_inv (chan s)" and room: "room (chan s) = 63"
    and none: "nlimit s = None \<longrightarrow> Counting \<notin> set (producers s)"
    and arr: "arrivals s = taken s @ contents (chan s)"
    using inv by (auto simp: first_inv_def flow_inv_def)
  have ended: "set (producers s) \<subseteq> {Ended}"
    if "chan_closed (chan s) \<or> contents (chan s) = []"
    using stuck_producer [OF wait_stuck ch none] that room by (auto simp: contents_Nil_iff)
  have size: "length (arrivals s) = length fs" if "set (producers s) \<subseteq> {Ended}" "\<not> chan_closed (chan s)"
  proof -
    have "mset (map Some (arrivals s)) = mset (map (fiber_body prog) fs)"
      using inv that owed_ended [OF stuck_launch [OF wait_stuck], of prog] by (simp add: first_inv_def)
    then show ?thesis by (metis length_map size_mset)
  qed
  have "\<not> is_awaiting (main s)"
  proof
    assume aw: "is_awaiting (main s)"
    then have q: "contents (chan s) = []" "\<not> chan_closed (chan s)"
      using stuck_awaiting [OF wait_stuck ch] by auto
    then have "length (taken s) = n" using size ended arr n by simp
    then have "\<not> is_awaiting (consume prog m0 (taken s))" by (rule enough)
    moreover have "main s = consume prog m0 (taken s)"
      using inv aw by (auto simp: first_inv_def flow_inv_def)
    ultimately show False using aw by simp
  qed
  moreover have "contents (chan s) = []" if "\<not> chan_closed (chan s)" "\<not> is_awaiting (main s)"
  proof -
    have "length fs \<le> length (taken s)" "owed prog s = mset (map (fiber_body prog) fs)"
      using inv that by (auto simp: first_inv_def)
    moreover have "length (arrivals s) \<le> size (owed prog s)" by (simp add: owed_def)
    ultimately have "length (arrivals s) \<le> length (taken s)" by simp
    then show ?thesis using arr by (metis append_eq_conv_conj length_append add_le_same_cancel1 le_zero_eq length_0_conv)
  qed
  ultimately show ?thesis using ended by blast
qed

text \<open>
  At the end of a schedule the process has been ended by the exception of a function, or the
  caller has ended with what it makes of the items in the order of their arrival, and every
  fiber has ended.
\<close>

lemma first_final:
  assumes run: "run prog as (start (channel_64 d) None fs m0) = Some s"
    and wait_stuck: "wait_stuck prog s" and n: "length fs = n"
  shows "if None \<in> fiber_body prog ` set fs then aborted s
     else \<not> aborted s \<and> set (producers s) \<subseteq> {Ended} \<and> \<not> is_awaiting (main s)
       \<and> main s = consume prog m0 (arrivals s)
       \<and> mset (map Some (arrivals s)) \<subseteq># mset (map (fiber_body prog) fs)"
proof -
  have inv: "first_inv prog m0 n fs s"
    using run_invariant [where I = "first_inv prog m0 n fs", OF first_step run first_start] .
  have flow: "flow_inv prog m0 63 s" using inv by (simp add: first_inv_def)
  have ended: "\<not> is_awaiting (main s) \<and> set (producers s) \<subseteq> {Ended}" if "\<not> aborted s"
    by (rule first_stuck [OF _ n [symmetric] wait_stuck that]) (unfold n, rule inv)
  have owed: "owed prog s = mset (map Some (arrivals s))" if "\<not> aborted s"
    using owed_ended [OF stuck_launch [OF wait_stuck that]] ended [OF that] by simp
  have "None \<notin> fiber_body prog ` set fs" if na: "\<not> aborted s"
  proof -
    have "count (mset (map (fiber_body prog) fs)) None = count (mset (map Some (arrivals s))) None"
      using inv owed [OF na] by (simp add: first_inv_def)
    then have "count (mset (map (fiber_body prog) fs)) None = 0"
      by (simp add: count_eq_zero_iff)
    then show ?thesis by (simp add: count_eq_zero_iff)
  qed
  moreover have "None \<in> fiber_body prog ` set fs" if "aborted s"
  proof -
    have "None \<in># mset (map (fiber_body prog) fs)"
      by (rule mset_subset_eqD [of "owed prog s"]) (use inv that in \<open>simp_all add: first_inv_def\<close>)
    then show ?thesis by simp
  qed
  moreover have "main s = consume prog m0 (arrivals s)" if na: "\<not> aborted s"
  proof -
    have "main s = consume prog m0 (taken s)"
      using inv by (simp add: first_inv_def)
    moreover have "arrivals s = taken s @ contents (chan s)" using flow by (simp add: flow_inv_def)
    ultimately show ?thesis using ended [OF na] by (metis consume_append consume_ended)
  qed
  moreover have "mset (map Some (arrivals s)) \<subseteq># mset (map (fiber_body prog) fs)" if "\<not> aborted s"
    using inv owed [OF that] by (simp add: first_inv_def)
  ultimately show ?thesis using ended by (cases "aborted s") simp_all
qed

end

section \<open>The three callers\<close>

lemma first_value_simps [simp]:
  "fiber_body first_value_prog = wait_first_value_impl"
  "on_item first_value_prog c v = (Returned v, True)"
  "on_closed first_value_prog c = value_pop_closed c"
  by (simp_all add: first_value_prog_def)

lemma first_outcome_simps [simp]:
  "fiber_body first_outcome_prog = wait_first_outcome_impl"
  "on_item first_outcome_prog c f = (get_ready f, True)"
  "on_closed first_outcome_prog c = value_pop_closed c"
  by (simp_all add: first_outcome_prog_def)

lemma first_success_simps [simp]:
  "fiber_body (first_success_prog n) = wait_first_outcome_impl"
  "on_item (first_success_prog n) = success_item n"
  "on_closed (first_success_prog n) c = value_pop_closed c"
  by (simp_all add: first_success_prog_def)

lemma outcome_impl: "wait_first_outcome_impl = Some"
  by (simp add: wait_first_outcome_impl_def fun_eq_iff)

lemma get_ready_ended [simp]: "\<not> is_awaiting (get_ready f)"
  by (simp add: get_ready_def split: sum.split)

lemma value_pop_closed_ended [simp]: "\<not> is_awaiting (value_pop_closed c)"
  by (simp add: value_pop_closed_def)

text \<open>
  The reference for \<open>wait_first_success\<close>: the first success in a list of outcomes, or all
  their exceptions.
\<close>

fun first_success :: "'e list \<Rightarrow> ('e + 'v) list \<Rightarrow> 'e list + 'v" where
  "first_success es [] = Inl es"
| "first_success es (Inl e # fs) = first_success (es @ [e]) fs"
| "first_success es (Inr v # fs) = Inr v"

lemma success_consume:
  "length es \<le> n \<Longrightarrow> consume (first_success_prog n) (success_loop n (length es) es) fs =
    (case first_success es (take (n - length es) fs) of
       Inr v \<Rightarrow> Returned v
     | Inl es' \<Rightarrow> success_loop n (length es') es')"
proof (induction fs arbitrary: es)
  case (Cons f fs)
  show ?case
  proof (cases "length es < n")
    case True
    then have "n - length es = Suc (n - Suc (length es))" by simp
    with True Cons.IH [of "es @ [projl f]"] show ?thesis
      by (cases f) (simp_all add: success_loop_def success_item_def get_ready_def consume_ended)
  qed (simp add: success_loop_def)
qed (simp add: success_loop_def)

lemma first_success_Inl:
  "first_success es fs = Inl es' \<longleftrightarrow> list_all isl fs \<and> es' = es @ map projl fs"
  by (induction es fs rule: first_success.induct) auto

interpretation any_value: first_caller first_value_prog "Awaiting ()" "Suc k" for k
proof
  show "\<not> is_awaiting (consume first_value_prog (Awaiting ()) vs)" if "length vs = Suc k"
    for vs :: "'v list" using that by (cases vs) (auto simp: consume_ended)
qed auto

interpretation any_outcome: first_caller first_outcome_prog "Awaiting ()" "Suc k" for k
proof
  show "\<not> is_awaiting (consume first_outcome_prog (Awaiting ()) vs)" if "length vs = Suc k"
    for vs :: "('e + 'v) list" using that by (cases vs) (auto simp: consume_ended)
qed auto

interpretation any_success: first_caller "first_success_prog n" "success_loop n 0 []" n for n
proof
  fix vs :: "('e + 'v) list" and c v m cl
  show "\<not> is_awaiting (consume (first_success_prog n) (success_loop n 0 []) vs)" if "length vs = n"
    using that success_consume [of "[]" n vs]
    by (auto simp: first_success_Inl success_loop_def split: sum.splits)
  show "if cl then \<not> is_awaiting m else is_awaiting m \<or> n \<le> Suc (length vs)"
    if "consume (first_success_prog n) (success_loop n 0 []) vs = Awaiting c"
      "on_item (first_success_prog n) c v = (m, cl)"
    using that success_consume [of "[]" n vs]
    by (cases v; cases c)
      (auto simp: first_success_Inl success_loop_def success_item_def split: sum.splits if_splits)
qed (auto simp: success_loop_def split: if_splits)

section \<open>Results\<close>

text \<open>
  \<open>wait_first_value\<close> returns the first value to arrive, when no function throws; when one
  throws, its exception leaves the fiber and ends the process, even after the caller has
  returned. \<open>wait_first_outcome\<close> returns or throws the first outcome to arrive.
\<close>

lemma wait_first_value_result:
  assumes "run first_value_prog as (wait_first_value_c d fs) = Some s" "wait_stuck first_value_prog s" "fs \<noteq> []"
  shows "if None \<in> wait_first_value_impl ` set fs then aborted s
    else set (producers s) \<subseteq> {Ended} \<and> arrivals s \<noteq> [] \<and> main s = Returned (hd (arrivals s))"
proof -
  have "length fs = Suc (length fs - 1)" using assms(3) by (cases fs) auto
  from any_value.first_final [OF assms(1) [unfolded wait_first_value_c_def] assms(2) this]
  show ?thesis by (cases "arrivals s") (auto simp: consume_ended split: if_splits)
qed

lemma wait_first_outcome_result:
  assumes "run first_outcome_prog as (wait_first_outcome_c d fs) = Some s" "wait_stuck first_outcome_prog s" "fs \<noteq> []"
  shows "set (producers s) \<subseteq> {Ended} \<and> arrivals s \<noteq> [] \<and> main s = get_ready (hd (arrivals s))
    \<and> mset (arrivals s) \<subseteq># mset fs"
proof -
  have "length fs = Suc (length fs - 1)" using assms(3) by (cases fs) auto
  from any_outcome.first_final [OF assms(1) [unfolded wait_first_outcome_c_def] assms(2) this]
  have fin: "set (producers s) \<subseteq> {Ended}" "\<not> is_awaiting (main s)"
    "main s = consume first_outcome_prog (Awaiting ()) (arrivals s)"
    "mset (map Some (arrivals s)) \<subseteq># mset (map Some fs)"
    by (auto simp: outcome_impl)
  from fin(1-3) mset_Some_subset [OF fin(4)] show ?thesis
    by (cases "arrivals s") (auto simp: consume_ended)
qed

lemma success_arrivals:
  assumes "run (first_success_prog (length fs)) as (wait_first_success_c d fs) = Some s"
    and "wait_stuck (first_success_prog (length fs)) s"
  shows "\<not> aborted s" "set (producers s) \<subseteq> {Ended}" "mset (arrivals s) \<subseteq># mset fs"
    "main s = (case first_success [] (arrivals s) of Inr v \<Rightarrow> Returned v | Inl es \<Rightarrow> Threw (only_errors es))"
    "list_all isl (arrivals s) \<Longrightarrow> mset (arrivals s) = mset fs"
proof -
  have fin: "\<not> aborted s \<and> set (producers s) \<subseteq> {Ended} \<and> \<not> is_awaiting (main s)
      \<and> main s = consume (first_success_prog (length fs)) (success_loop (length fs) 0 []) (arrivals s)
      \<and> mset (map Some (arrivals s)) \<subseteq># mset (map Some fs)"
    using any_success.first_final [of "length fs" as d fs s] assms
    by (auto simp: wait_first_success_c_def outcome_impl)
  then show "\<not> aborted s" "set (producers s) \<subseteq> {Ended}" by auto
  show sub: "mset (arrivals s) \<subseteq># mset fs"
    by (rule mset_Some_subset) (use fin in blast)
  have len: "length (arrivals s) \<le> length fs"
    using size_mset_mono [OF sub] by simp
  have main: "main s = (case first_success [] (arrivals s) of
      Inr v \<Rightarrow> Returned v | Inl es \<Rightarrow> success_loop (length fs) (length es) es)"
    using fin success_consume [of "[]" "length fs" "arrivals s"] len by simp
  have aw: "\<not> is_awaiting (main s)" using fin by blast
  show "main s = (case first_success [] (arrivals s) of
      Inr v \<Rightarrow> Returned v | Inl es \<Rightarrow> Threw (only_errors es))"
    using main aw
    by (cases "first_success [] (arrivals s)") (simp_all add: success_loop_def split: if_splits)
  show "mset (arrivals s) = mset fs" if "list_all isl (arrivals s)"
  proof -
    have "first_success [] (arrivals s) = Inl (map projl (arrivals s))"
      using that by (simp add: first_success_Inl)
    with main aw have "length fs \<le> length (arrivals s)"
      by (simp add: success_loop_def split: if_splits)
    with sub show ?thesis by (rule mset_subset_full)
  qed
qed

text \<open>
  C8: in every schedule that has come to its end, for any number of functions (also more than
  the channel holds), \<open>wait_first_success\<close> has returned the value of the first success among
  the results in the order of their arrival, or, when no function succeeds, has thrown the list
  of all their exceptions in the order of their arrival; every fiber has ended.
\<close>

theorem wait_first_success_correct:
  assumes "run (first_success_prog (length fs)) as (wait_first_success_c d fs) = Some s"
    and "wait_stuck (first_success_prog (length fs)) s"
  shows "set (producers s) \<subseteq> {Ended} \<and> mset (arrivals s) \<subseteq># mset fs
    \<and> (if list_all isl fs
       then main s = Threw (only_errors (map projl (arrivals s))) \<and> mset (arrivals s) = mset fs
       else \<exists>v rest. main s = Returned v \<and> dropWhile isl (arrivals s) = Inr v # rest)"
proof -
  note arr = success_arrivals [OF assms]
  have all: "list_all isl (arrivals s) \<longleftrightarrow> list_all isl fs"
  proof
    assume "list_all isl fs"
    then show "list_all isl (arrivals s)"
      using mset_subset_eqD [OF arr(3)] by (auto simp: list_all_iff)
  next
    assume "list_all isl (arrivals s)"
    then show "list_all isl fs" using arr(5) by (metis list_all_iff set_mset_mset)
  qed
  have found: "\<exists>v rest. first_success es xs = Inr v \<and> dropWhile isl xs = Inr v # rest"
    if "\<not> list_all isl xs" for es and xs :: "('a + 'b) list"
    using that by (induction es xs rule: first_success.induct) auto
  show ?thesis
  proof (cases "list_all isl (arrivals s)")
    case True
    then have "first_success [] (arrivals s) = Inl (map projl (arrivals s))"
      by (simp add: first_success_Inl)
    with True arr all show ?thesis by simp
  next
    case False
    with found [OF False, of "[]"] arr all show ?thesis by auto
  qed
qed

theorem wait_first_success_correct_witness:
  "\<exists>s. run (first_success_prog (length [Inl (7::nat), Inr True, Inr False]))
        [Launch, Launch, Complete 0, Launch, Push 0, Complete 2, Push 2, Pop, Complete 1, Pop, Push 1]
        (wait_first_success_c (Inl 0) [Inl (7::nat), Inr True, Inr False]) = Some s
      \<and> main s = Returned False"
proof (rule run_evaluates [where P = "\<lambda>s. arrivals s = [Inl 7, Inr False]"])
  let ?fs = "[Inl (7::nat), Inr True, Inr False]"
  let ?as = "[Launch, Launch, Complete 0, Launch, Push 0, Complete 2, Push 2, Pop, Complete 1, Pop, Push 1]"
  show "case run (first_success_prog (length ?fs)) ?as (wait_first_success_c (Inl 0) ?fs) of
      None \<Rightarrow> False
    | Some s \<Rightarrow> wait_stuck (first_success_prog (length ?fs)) s \<and> arrivals s = [Inl 7, Inr False]"
    by code_simp
  fix s
  assume s: "run (first_success_prog (length ?fs)) ?as (wait_first_success_c (Inl 0) ?fs) = Some s"
    "wait_stuck (first_success_prog (length ?fs)) s" "arrivals s = [Inl 7, Inr False]"
  have "main s = Returned False"
    using wait_first_success_correct [OF s(1,2)] unfolding s(3) by auto
  with s(1) show ?thesis by blast
qed

text \<open>
  The vector forms accept an empty vector. \<open>wait_first_value_c\<close> and \<open>wait_first_outcome_c\<close>
  then wait forever on a channel nobody will push to, while \<open>wait_first_success_c\<close> throws an
  exception list without exceptions.
\<close>

lemma wait_first_empty:
  "wait_stuck first_value_prog (wait_first_value_c d []) \<and> is_awaiting (main (wait_first_value_c d []))
   \<and> wait_stuck first_outcome_prog (wait_first_outcome_c d' []) \<and> is_awaiting (main (wait_first_outcome_c d' []))
   \<and> main (wait_first_success_c d' []) = Threw (only_errors [])"
  by (simp add: wait_first_value_c_def wait_first_outcome_c_def wait_first_success_c_def start_def
      wait_stuck_def actions_def launch_def pop_item_def success_loop_def channel_64_empty)

end
