(* ===== verification/Wait_All.thy ===== *)
theory Wait_All
  imports Wait_First
begin

text \<open>
  The functions of \<open>common/fiber/wait_stuff.hpp\<close> that wait for all results through a channel
  behind the facade \<open>nchannel\<close>: \<open>wait_all_values\<close>, \<open>wait_all_until_error\<close> and
  \<open>wait_all_collect_errors\<close>, with their sources and vector forms. The caller reads until the
  channel is closed, which the facade does after as many pushes as there are functions.
\<close>

section \<open>The functions\<close>

text \<open>\<open>wait_all_values_impl\<close> pushes \<open>function()\<close> to the facade.\<close>

definition wait_all_values_impl :: "'e + 'v \<Rightarrow> 'v option" where
  "wait_all_values_impl f = (case f of Inl e \<Rightarrow> None | Inr v \<Rightarrow> Some v)"

text \<open>
  The sources make the channel and the facade, launch the fibers and hand the channel to the
  caller, which reads it in the state \<open>m\<close>.
\<close>

definition wait_all_values_source_c ::
  "'v \<Rightarrow> ('e + 'v) list \<Rightarrow> ('c, 'r, 'x) caller \<Rightarrow> ('e + 'v, 'v, 'c, 'r, 'x) wait_state" where
  "wait_all_values_source_c d fs m =
     (case make_nchannel (channel_64 d) (length fs) of (ch, lm) \<Rightarrow> start ch (Some lm) fs m)"

definition wait_all_values_source ::
  "'v \<Rightarrow> 'e + 'v \<Rightarrow> ('e + 'v) list \<Rightarrow> ('c, 'r, 'x) caller \<Rightarrow> ('e + 'v, 'v, 'c, 'r, 'x) wait_state" where
  "wait_all_values_source d f fs m =
     (case make_nchannel (channel_64 d) (1 + length fs) of (ch, lm) \<Rightarrow> start ch (Some lm) (f # fs) m)"

definition wait_all_until_error_source_c ::
  "'e + 'v \<Rightarrow> ('e + 'v) list \<Rightarrow> ('c, 'r, 'x) caller \<Rightarrow> ('e + 'v, 'e + 'v, 'c, 'r, 'x) wait_state" where
  "wait_all_until_error_source_c d fs m =
     (case make_nchannel (channel_64 d) (length fs) of (ch, lm) \<Rightarrow> start ch (Some lm) fs m)"

definition wait_all_until_error_source ::
  "'e + 'v \<Rightarrow> 'e + 'v \<Rightarrow> ('e + 'v) list \<Rightarrow> ('c, 'r, 'x) caller
    \<Rightarrow> ('e + 'v, 'e + 'v, 'c, 'r, 'x) wait_state" where
  "wait_all_until_error_source d f fs m =
     (case make_nchannel (channel_64 d) (1 + length fs) of (ch, lm) \<Rightarrow> start ch (Some lm) (f # fs) m)"

text \<open>The loops of the callers, with their vectors of results and exceptions.\<close>

definition all_values_prog :: "('e + 'v, 'v, 'v list, 'v list, 'e wait_error) wait_code" where
  "all_values_prog = \<lparr> fiber_body = wait_all_values_impl,
     on_item = (\<lambda>results v. (Awaiting (results @ [v]), False)), on_closed = Returned \<rparr>"

definition wait_all_values ::
  "'v \<Rightarrow> 'e + 'v \<Rightarrow> ('e + 'v) list \<Rightarrow> ('e + 'v, 'v, 'v list, 'v list, 'e wait_error) wait_state" where
  "wait_all_values d f fs = wait_all_values_source d f fs (Awaiting [])"

definition wait_all_values_c ::
  "'v \<Rightarrow> ('e + 'v) list \<Rightarrow> ('e + 'v, 'v, 'v list, 'v list, 'e wait_error) wait_state" where
  "wait_all_values_c d fs = wait_all_values_source_c d fs (Awaiting [])"

definition until_error_item ::
  "'v list \<Rightarrow> 'e + 'v \<Rightarrow> ('v list, 'v list, 'e wait_error) caller \<times> bool" where
  "until_error_item results f =
     (case f of Inl e \<Rightarrow> (Threw (Thrown e), False) | Inr v \<Rightarrow> (Awaiting (results @ [v]), False))"

definition until_error_prog :: "('e + 'v, 'e + 'v, 'v list, 'v list, 'e wait_error) wait_code" where
  "until_error_prog = \<lparr> fiber_body = wait_first_outcome_impl,
     on_item = until_error_item, on_closed = Returned \<rparr>"

definition wait_all_until_error ::
  "'e + 'v \<Rightarrow> 'e + 'v \<Rightarrow> ('e + 'v) list
    \<Rightarrow> ('e + 'v, 'e + 'v, 'v list, 'v list, 'e wait_error) wait_state" where
  "wait_all_until_error d f fs = wait_all_until_error_source d f fs (Awaiting [])"

definition wait_all_until_error_c ::
  "'e + 'v \<Rightarrow> ('e + 'v) list \<Rightarrow> ('e + 'v, 'e + 'v, 'v list, 'v list, 'e wait_error) wait_state" where
  "wait_all_until_error_c d fs = wait_all_until_error_source_c d fs (Awaiting [])"

definition collect_item ::
  "'v list \<times> 'e list \<Rightarrow> 'e + 'v \<Rightarrow> ('v list \<times> 'e list, 'v list, 'e wait_error) caller \<times> bool" where
  "collect_item c f =
     (case (c, f) of
        ((results, exceptions), Inr v) \<Rightarrow> (Awaiting (results @ [v], exceptions), False)
      | ((results, exceptions), Inl e) \<Rightarrow> (Awaiting (results, exceptions @ [e]), False))"

definition collected_errors :: "'e list \<Rightarrow> 'e wait_error" where
  "collected_errors es = Exception_list ''wait_all_collect_errors() exceptions'' es"

definition collect_closed ::
  "'v list \<times> 'e list \<Rightarrow> ('v list \<times> 'e list, 'v list, 'e wait_error) caller" where
  "collect_closed c =
     (case c of (results, exceptions) \<Rightarrow>
        if length exceptions \<noteq> 0 then Threw (collected_errors exceptions) else Returned results)"

definition collect_errors_prog ::
  "('e + 'v, 'e + 'v, 'v list \<times> 'e list, 'v list, 'e wait_error) wait_code" where
  "collect_errors_prog = \<lparr> fiber_body = wait_first_outcome_impl,
     on_item = collect_item, on_closed = collect_closed \<rparr>"

definition wait_all_collect_errors ::
  "'e + 'v \<Rightarrow> 'e + 'v \<Rightarrow> ('e + 'v) list
    \<Rightarrow> ('e + 'v, 'e + 'v, 'v list \<times> 'e list, 'v list, 'e wait_error) wait_state" where
  "wait_all_collect_errors d f fs = wait_all_until_error_source d f fs (Awaiting ([], []))"

definition wait_all_collect_errors_c ::
  "'e + 'v \<Rightarrow> ('e + 'v) list
    \<Rightarrow> ('e + 'v, 'e + 'v, 'v list \<times> 'e list, 'v list, 'e wait_error) wait_state" where
  "wait_all_collect_errors_c d fs = wait_all_until_error_source_c d fs (Awaiting ([], []))"

text \<open>The variadic forms are the vector forms on the list of their arguments.\<close>

lemma all_variadic:
  "wait_all_values d f fs = wait_all_values_c d (f # fs)"
  "wait_all_until_error d' f fs = wait_all_until_error_c d' (f # fs)"
  "wait_all_collect_errors d' f fs = wait_all_collect_errors_c d' (f # fs)"
  by (simp_all add: wait_all_values_def wait_all_values_c_def wait_all_until_error_def
      wait_all_until_error_c_def wait_all_collect_errors_def wait_all_collect_errors_c_def
      wait_all_values_source_def wait_all_values_source_c_def wait_all_until_error_source_def
      wait_all_until_error_source_c_def)

section \<open>The contract of a caller that reads to the end\<close>

text \<open>
  The caller never closes the channel. The invariant: the facade's counter and the pushes that
  have been counted make up the number of functions, the channel is closed when the counter
  is 0, and no item is refused.
\<close>

definition all_inv ::
  "('o, 'a, 'c, 'r, 'x) wait_code \<Rightarrow> ('c, 'r, 'x) caller \<Rightarrow> 'o list
    \<Rightarrow> ('o, 'a, 'c, 'r, 'x) wait_state \<Rightarrow> bool" where
  "all_inv prog m0 fs s \<longleftrightarrow> flow_inv prog m0 63 s
     \<and> (\<exists>l. nlimit s = Some l \<and> l + length (arrivals s) = length fs + counting s
          \<and> (chan_closed (chan s) \<longleftrightarrow> l = 0))
     \<and> owed prog s = mset (map (fiber_body prog) fs)
     \<and> (aborted s \<longrightarrow> None \<in># owed prog s)"

locale all_caller = waiting prog for prog :: "('o, 'a, 'c, 'r, 'x) wait_code" +
  assumes never_closes: "\<not> snd (on_item prog c v)"
begin

lemma all_start:
  "case make_nchannel (channel_64 d) (length fs) of (ch, lm) \<Rightarrow>
    all_inv prog m0 fs (start ch (Some lm) fs m0)"
proof -
  have flow: "flow_inv prog m0 63 (start ch lm fs m0)"
    if "ch = chan_close (channel_64 d) \<or> ch = channel_64 d" for ch lm
    using that flow_start [of ch prog m0 lm fs] channel_64 [of d]
    by (auto simp: ring.close_inv ring.close_queue ring.close_bound)
  then show ?thesis
    by (auto simp: all_inv_def make_nchannel_def owed_def start_def counting_def ring.close_closed
        channel_64)
qed

lemma all_step:
  assumes inv: "all_inv prog m0 fs s" and step: "act prog a s = Some s'"
  shows "all_inv prog m0 fs s'"
proof -
  have flow: "flow_inv prog m0 63 s" and ch: "chan_inv (chan s)"
    using inv by (auto simp: all_inv_def flow_inv_def)
  obtain l where l: "nlimit s = Some l" "l + length (arrivals s) = length fs + counting s"
    "chan_closed (chan s) \<longleftrightarrow> l = 0"
    using inv by (auto simp: all_inv_def)
  have size: "size (owed prog s) = length fs" using inv by (simp add: all_inv_def)
  have flow': "flow_inv prog m0 63 s'" by (rule flow_step [OF flow step])
  have rest: "owed prog s' = owed prog s
    \<and> (\<exists>l. nlimit s' = Some l \<and> l + length (arrivals s') = length fs + counting s'
          \<and> (chan_closed (chan s') \<longleftrightarrow> l = 0))"
    using ch step
  proof (cases rule: act_cases)
    case (Refused i v)
    then have "owed prog s = add_mset (Some v) (owed prog s')"
      using owes_update [of i "producers s" prog Ended] by (simp add: owed_def)
    moreover have "length (arrivals s) \<le> size (owed prog s')"
      using Refused by (simp add: owed_def)
    ultimately show ?thesis using Refused l size by simp
  next
    case (Counted i lm c lm')
    have cnt: "counting s = Suc (counting s')"
      using Counted counting_update [of i "producers s" Ended] by (simp add: counting_def)
    have "length (arrivals s) \<le> size (owed prog s)" by (simp add: owed_def)
    with cnt l size have "0 < l" by simp
    moreover have "lm' = l - 1"
      using Counted(4) l(1) nchannel_count_keeps [OF ch Counted(5)] \<open>0 < l\<close> by simp
    ultimately show ?thesis
      using Counted l cnt nchannel_count_keeps [OF ch Counted(5)] owes_update [of i "producers s" prog Ended]
      by (auto simp: owed_def)
  next
    case (Pushed i v c)
    then show ?thesis
      using l owes_update [of i "producers s" prog Counting] counting_update [of i "producers s" Counting]
      by (simp add: owed_def counting_def)
  next
    case (Popped c v q c' m cl)
    then have "\<not> cl" using never_closes [of c v] by simp
    with Popped l show ?thesis by (simp add: owed_def counting_def)
  next
    case (Completed i f v)
    then show ?thesis
      using l owes_update [of i "producers s" prog "Pushing v"] counting_update [of i "producers s" "Pushing v"]
      by (simp add: owed_def counting_def)
  qed (use l in \<open>simp_all add: owed_def counting_def ac_simps\<close>)
  with flow' inv aborted_step [OF ch step] show ?thesis by (auto simp: all_inv_def)
qed

lemma all_run:
  assumes "case make_nchannel (channel_64 d) (length fs) of (ch, lm) \<Rightarrow>
      run prog as (start ch (Some lm) fs m0) = Some s"
  shows "all_inv prog m0 fs s"
  using assms all_start [of m0 fs d]
  by (auto split: prod.splits intro: run_invariant [where I = "all_inv prog m0 fs", OF all_step])

text \<open>
  When nothing can move, the caller has ended, and either the channel is closed and every
  fiber has ended, or the channel is full and fibers are suspended in their pushes.
\<close>

lemma all_stuck:
  assumes inv: "all_inv prog m0 fs s" and wait_stuck: "wait_stuck prog s" "\<not> aborted s"
  shows "\<not> is_awaiting (main s)"
    "if chan_closed (chan s) then set (producers s) \<subseteq> {Ended}
     else length (contents (chan s)) = 63 \<and> set (producers s) \<subseteq> insert Ended (range Pushing)"
proof -
  have ch: "chan_inv (chan s)" and room: "room (chan s) = 63"
    and none: "nlimit s = None \<longrightarrow> Counting \<notin> set (producers s)"
    using inv by (auto simp: all_inv_def flow_inv_def)
  obtain l where l: "l + length (arrivals s) = length fs + counting s" "chan_closed (chan s) \<longleftrightarrow> l = 0"
    using inv by (auto simp: all_inv_def)
  have open_full: "length (contents (chan s)) = 63" if "\<not> chan_closed (chan s)"
  proof (rule ccontr)
    assume "length (contents (chan s)) \<noteq> 63"
    then have e: "set (producers s) \<subseteq> {Ended}"
      using stuck_producer [OF wait_stuck ch none] room by (auto simp del: length_contents)
    then have "mset (map Some (arrivals s)) = mset (map (fiber_body prog) fs)"
      using inv owed_ended [OF stuck_launch [OF wait_stuck], of prog] by (simp add: all_inv_def)
    then have "length (arrivals s) = length fs" by (metis length_map size_mset)
    moreover have "counting s = 0" using e by (auto simp: counting_def)
    ultimately show False using l that by simp
  qed
  show "if chan_closed (chan s) then set (producers s) \<subseteq> {Ended}
     else length (contents (chan s)) = 63 \<and> set (producers s) \<subseteq> insert Ended (range Pushing)"
    using stuck_producer [OF wait_stuck ch none] open_full by auto
  show "\<not> is_awaiting (main s)"
    using stuck_awaiting [OF wait_stuck ch] open_full by (auto simp: contents_Nil_iff)
qed

end

text \<open>A caller that ends on the closed channel only.\<close>

locale drain_caller = all_caller prog for prog :: "('o, 'a, 'c, 'r, 'x) wait_code" +
  fixes m0 :: "('c, 'r, 'x) caller"
  assumes drains: "is_awaiting (consume prog m0 vs)"
begin

lemma drain_final:
  assumes run: "case make_nchannel (channel_64 d) (length fs) of (ch, lm) \<Rightarrow>
      run prog as (start ch (Some lm) fs m0) = Some s"
    and wait_stuck: "wait_stuck prog s"
  shows "if None \<in> fiber_body prog ` set fs then aborted s
     else \<not> aborted s \<and> set (producers s) \<subseteq> {Ended}
       \<and> (\<exists>c. consume prog m0 (arrivals s) = Awaiting c \<and> main s = on_closed prog c)
       \<and> mset (map Some (arrivals s)) = mset (map (fiber_body prog) fs)"
proof -
  have inv: "all_inv prog m0 fs s" by (rule all_run [OF run])
  have owed: "owed prog s = mset (map (fiber_body prog) fs)" using inv by (simp add: all_inv_def)
  show ?thesis
  proof (cases "aborted s")
    case True
    with inv owed have "None \<in># mset (map (fiber_body prog) fs)" by (simp add: all_inv_def)
    with True show ?thesis by simp
  next
    case False
    note st = all_stuck [OF inv wait_stuck False]
    have "main s \<noteq> consume prog m0 (taken s)" using st(1) drains [of "taken s"] by auto
    then obtain c where c: "consume prog m0 (taken s) = Awaiting c" "main s = on_closed prog c"
      "chan_closed (chan s)" "contents (chan s) = []"
      using inv by (auto simp: all_inv_def flow_inv_def)
    have "arrivals s = taken s" using inv c(4) by (simp add: all_inv_def flow_inv_def)
    moreover have e: "set (producers s) \<subseteq> {Ended}" using st(2) c(3) by simp
    moreover have all: "mset (map Some (arrivals s)) = mset (map (fiber_body prog) fs)"
      using owed owed_ended [OF stuck_launch [OF wait_stuck False] e, of prog] by simp
    moreover have "None \<notin> fiber_body prog ` set fs"
    proof
      assume "None \<in> fiber_body prog ` set fs"
      then have "None \<in># mset (map (fiber_body prog) fs)" by simp
      then show False unfolding all [symmetric] by simp
    qed
    ultimately show ?thesis using c False by simp
  qed
qed

end

section \<open>The callers\<close>

lemma all_values_simps [simp]:
  "fiber_body all_values_prog = wait_all_values_impl"
  "on_item all_values_prog rs v = (Awaiting (rs @ [v]), False)"
  "on_closed all_values_prog rs = Returned rs"
  by (simp_all add: all_values_prog_def)

lemma until_error_simps [simp]:
  "fiber_body until_error_prog = Some"
  "on_item until_error_prog = until_error_item"
  "on_closed until_error_prog rs = Returned rs"
  by (simp_all add: until_error_prog_def outcome_impl)

lemma collect_errors_simps [simp]:
  "fiber_body collect_errors_prog = Some"
  "on_item collect_errors_prog = collect_item"
  "on_closed collect_errors_prog = collect_closed"
  by (simp_all add: collect_errors_prog_def outcome_impl)

lemma values_consume: "consume all_values_prog (Awaiting rs) vs = Awaiting (rs @ vs)"
  by (induction vs arbitrary: rs) auto

text \<open>The values and the exceptions in a list of outcomes, in order.\<close>

definition lefts :: "('e + 'v) list \<Rightarrow> 'e list" where
  "lefts fs = map projl (filter isl fs)"

definition rights :: "('e + 'v) list \<Rightarrow> 'v list" where
  "rights fs = map projr (filter (\<lambda>f. \<not> isl f) fs)"

lemma lefts_rights_simps [simp]:
  "lefts [] = []" "lefts (Inl e # fs) = e # lefts fs" "lefts (Inr v # fs) = lefts fs"
  "rights [] = []" "rights (Inl e # fs) = rights fs" "rights (Inr v # fs) = v # rights fs"
  by (simp_all add: lefts_def rights_def)

lemma lefts_append: "lefts (xs @ ys) = lefts xs @ lefts ys"
  by (simp add: lefts_def)

lemma collect_consume:
  "consume collect_errors_prog (Awaiting (rs, es)) fs = Awaiting (rs @ rights fs, es @ lefts fs)"
proof (induction fs arbitrary: rs es)
  case (Cons f fs)
  then show ?case by (cases f) (simp_all add: collect_item_def)
qed simp

fun until_error :: "'v list \<Rightarrow> ('e + 'v) list \<Rightarrow> ('v list, 'v list, 'e wait_error) caller" where
  "until_error rs [] = Awaiting rs"
| "until_error rs (Inl e # fs) = Threw (Thrown e)"
| "until_error rs (Inr v # fs) = until_error (rs @ [v]) fs"

lemma until_error_consume: "consume until_error_prog (Awaiting rs) fs = until_error rs fs"
  by (induction rs fs rule: until_error.induct) (auto simp: until_error_item_def consume_ended)

interpretation every_value: drain_caller all_values_prog "Awaiting []"
  by unfold_locales (simp_all add: values_consume)

interpretation every_outcome: drain_caller collect_errors_prog "Awaiting ([], [])"
  by unfold_locales
    (auto simp: collect_consume collect_closed_def collect_item_def split: sum.splits prod.splits)

interpretation until_first_error: all_caller until_error_prog
  by unfold_locales (auto simp: until_error_item_def split: sum.splits)

section \<open>Results\<close>

lemma mset_Some_eq: "mset (map Some xs) = mset (map Some ys) \<longleftrightarrow> mset xs = mset ys"
  by (metis mset_Some_subset subset_mset.antisym subset_mset.order_refl mset_map)

lemma run_source:
  "run prog as (wait_all_values_source_c d fs m) = Some s \<Longrightarrow>
    case make_nchannel (channel_64 d) (length fs) of (ch, lm) \<Rightarrow>
      run prog as (start ch (Some lm) fs m) = Some s"
  "run prog' as (wait_all_until_error_source_c d' fs m') = Some s' \<Longrightarrow>
    case make_nchannel (channel_64 d') (length fs) of (ch, lm) \<Rightarrow>
      run prog' as (start ch (Some lm) fs m') = Some s'"
  by (auto simp: wait_all_values_source_c_def wait_all_until_error_source_c_def split: prod.splits)

lemma lefts_Nil_iff: "lefts fs = [] \<longleftrightarrow> \<not> list_ex isl fs"
  by (auto simp: lefts_def filter_empty_conv list_ex_iff)

lemma list_ex_mset: "mset xs = mset ys \<Longrightarrow> list_ex P xs = list_ex P ys"
  by (metis list_ex_iff set_mset_mset)

text \<open>
  C10: in every schedule that has come to its end, for any number of functions, none included,
  \<open>wait_all_collect_errors\<close> has returned the values of all functions in the order of their
  arrival when none of them throws, and else has thrown the list of exactly the exceptions
  thrown, in the order of their arrival; every fiber has ended.
\<close>

theorem wait_all_collect_errors_correct:
  assumes "run collect_errors_prog as (wait_all_collect_errors_c d fs) = Some s"
    and "wait_stuck collect_errors_prog s"
  shows "set (producers s) \<subseteq> {Ended} \<and> mset (arrivals s) = mset fs
    \<and> main s = (if list_ex isl fs then Threw (collected_errors (lefts (arrivals s)))
                else Returned (rights (arrivals s)))"
proof -
  have fin: "set (producers s) \<subseteq> {Ended}"
    "main s = collect_closed (rights (arrivals s), lefts (arrivals s))"
    "mset (map Some (arrivals s)) = mset (map Some fs)"
    using every_outcome.drain_final [OF run_source(2) assms(2)] assms(1)
    by (auto simp: wait_all_collect_errors_c_def collect_consume split: if_splits)
  from fin(3) have perm: "mset (arrivals s) = mset fs" by (simp only: mset_Some_eq)
  then have "list_ex isl (arrivals s) = list_ex isl fs" by (rule list_ex_mset)
  with fin(1,2) perm show ?thesis by (simp add: collect_closed_def lefts_Nil_iff)
qed

lemma values_impl: "wait_all_values_impl f = (if isl f then None else Some (projr f))"
  by (cases f) (simp_all add: wait_all_values_impl_def)

text \<open>
  \<open>wait_all_values\<close>: when no function throws, the caller has at the end of every schedule
  returned all values in the order of their arrival and every fiber has ended; when one throws,
  the exception leaves its fiber and ends the process.
\<close>

theorem wait_all_values_correct:
  assumes "run all_values_prog as (wait_all_values_c d fs) = Some s"
    and "wait_stuck all_values_prog s"
  shows "if list_ex isl fs then aborted s
    else main s = Returned (arrivals s) \<and> mset (arrivals s) = mset (map projr fs)
      \<and> set (producers s) \<subseteq> {Ended}"
proof -
  have body: "None \<in> wait_all_values_impl ` set fs \<longleftrightarrow> list_ex isl fs"
    by (auto simp: values_impl list_ex_iff image_iff)
  have vals: "map wait_all_values_impl fs = map Some (map projr fs)" if "\<not> list_ex isl fs"
    using that by (auto simp: values_impl list_ex_iff)
  have "run all_values_prog as (wait_all_values_source_c d fs (Awaiting [])) = Some s"
    using assms(1) by (simp add: wait_all_values_c_def)
  note fin = every_value.drain_final [OF run_source(1) [OF this] assms(2)]
  show ?thesis
  proof (cases "list_ex isl fs")
    case True
    with fin body show ?thesis by simp
  next
    case False
    then have "mset (map Some (arrivals s)) = mset (map Some (map projr fs))"
      using fin body vals by (simp del: mset_map)
    then have "mset (arrivals s) = mset (map projr fs)" by (simp only: mset_Some_eq)
    with False fin body show ?thesis by (simp add: values_consume)
  qed
qed

theorem wait_all_collect_errors_correct_witness:
  "\<exists>s. run collect_errors_prog
        [Launch, Launch, Complete 1, Push 1, Count 1, Pop, Complete 0, Push 0, Pop, Count 0, Pop]
        (wait_all_collect_errors_c (Inr (0::nat)) [Inr 5, Inl True]) = Some s
      \<and> main s = Threw (collected_errors [True])"
proof (rule run_evaluates [where P = "\<lambda>s. arrivals s = [Inl True, Inr 5]"])
  let ?as = "[Launch, Launch, Complete 1, Push 1, Count 1, Pop, Complete 0, Push 0, Pop, Count 0, Pop]"
  show "case run collect_errors_prog ?as (wait_all_collect_errors_c (Inr (0::nat)) [Inr 5, Inl True]) of
      None \<Rightarrow> False
    | Some s \<Rightarrow> wait_stuck collect_errors_prog s \<and> arrivals s = [Inl True, Inr 5]"
    by code_simp
  fix s
  assume s: "run collect_errors_prog ?as (wait_all_collect_errors_c (Inr (0::nat)) [Inr 5, Inl True]) = Some s"
    "wait_stuck collect_errors_prog s" "arrivals s = [Inl True, Inr 5]"
  have "main s = Threw (collected_errors [True])"
    using wait_all_collect_errors_correct [OF s(1,2)] unfolding s(3) by simp
  with s(1) show ?thesis by blast
qed

theorem wait_all_values_correct_witness:
  "\<exists>s. run all_values_prog
        [Launch, Launch, Complete 1, Push 1, Count 1, Pop, Complete 0, Push 0, Pop, Count 0, Pop]
        (wait_all_values_c (0::nat) [Inr 5, Inr 6 :: bool + nat]) = Some s
      \<and> main s = Returned [6, 5]"
proof (rule run_evaluates [where P = "\<lambda>s. arrivals s = [6, 5]"])
  let ?as = "[Launch, Launch, Complete 1, Push 1, Count 1, Pop, Complete 0, Push 0, Pop, Count 0, Pop]"
  let ?fs = "[Inr 5, Inr 6 :: bool + nat]"
  show "case run all_values_prog ?as (wait_all_values_c (0::nat) ?fs) of None \<Rightarrow> False
    | Some s \<Rightarrow> wait_stuck all_values_prog s \<and> arrivals s = [6, 5]"
    by code_simp
  fix s
  assume s: "run all_values_prog ?as (wait_all_values_c (0::nat) ?fs) = Some s"
    "wait_stuck all_values_prog s" "arrivals s = [6, 5]"
  have "main s = Returned [6, 5]"
    using wait_all_values_correct [OF s(1,2)] unfolding s(3) by simp
  with s(1) show ?thesis by blast
qed

section \<open>Leaving at the first error\<close>

text \<open>The fibers that have not ended: when nothing can move, they are suspended for ever.\<close>

definition blocked :: "('o, 'a, 'c, 'r, 'x) wait_state \<Rightarrow> nat" where
  "blocked s = length (filter (\<lambda>p. p \<noteq> Ended) (producers s))"

lemma blocked_owed:
  assumes "to_launch s = []" "set (producers s) \<subseteq> insert Ended (range Pushing)"
  shows "size (owed prog s) = blocked s + length (arrivals s)"
proof -
  have "size (sum_list (map (owes prog) ps)) = length (filter (\<lambda>p. p \<noteq> Ended) ps)"
    if "set ps \<subseteq> insert Ended (range Pushing)" for ps
    using that by (induction ps) auto
  with assms show ?thesis by (simp add: owed_def blocked_def)
qed

lemma until_error_prefix:
  "until_error rs fs = (if list_ex isl fs then Threw (Thrown (hd (lefts fs))) else Awaiting (rs @ rights fs))"
  by (induction rs fs rule: until_error.induct) auto

lemma first_error_length:
  assumes "\<not> list_ex isl xs" "isl x"
  shows "length (takeWhile (\<lambda>f. \<not> isl f) ((xs @ [x]) @ ys)) = length xs"
  using assms by (auto simp: list_ex_iff takeWhile_append2)

lemma until_error_final:
  assumes run: "run until_error_prog as (wait_all_until_error_c d fs) = Some s"
    and wait_stuck: "wait_stuck until_error_prog s"
  shows "if list_ex isl (arrivals s)
    then main s = Threw (Thrown (hd (lefts (arrivals s))))
      \<and> blocked s = length fs - (64 + length (takeWhile (\<lambda>f. \<not> isl f) (arrivals s)))
    else main s = Returned (rights (arrivals s)) \<and> mset (arrivals s) = mset fs \<and> blocked s = 0"
proof -
  have inv: "all_inv until_error_prog (Awaiting []) fs s"
    using until_first_error.all_run [OF run_source(2)] run
    by (simp add: wait_all_until_error_c_def)
  have na: "\<not> aborted s" using inv by (auto simp: all_inv_def)
  note st = until_first_error.all_stuck [OF inv wait_stuck na]
  have launched: "to_launch s = []" by (rule stuck_launch [OF wait_stuck na])
  have owed: "owed until_error_prog s = mset (map Some fs)" using inv by (simp add: all_inv_def)
  have arr: "arrivals s = taken s @ contents (chan s)" using inv by (simp add: all_inv_def flow_inv_def)
  have "set (producers s) \<subseteq> insert Ended (range Pushing)" using st(2) by (auto split: if_splits)
  then have size: "blocked s + length (arrivals s) = length fs"
    using blocked_owed [OF launched, of until_error_prog] owed by simp
  show ?thesis
  proof (cases "main s = until_error [] (taken s)")
    case True
    then have ex: "list_ex isl (taken s)" "main s = Threw (Thrown (hd (lefts (taken s))))"
      using st(1) by (auto simp: until_error_prefix split: if_splits)
    then obtain xs x where x: "taken s = xs @ [x]" by (cases "taken s" rule: rev_cases) auto
    have "is_awaiting (until_error [] xs)"
      using inv x by (auto simp: all_inv_def flow_inv_def until_error_consume)
    then have xs: "\<not> list_ex isl xs" by (auto simp: until_error_prefix)
    with ex x have "isl x" by simp
    then have tw: "length (takeWhile (\<lambda>f. \<not> isl f) (arrivals s)) = length xs"
      unfolding arr x by (rule first_error_length [OF xs])
    have "hd (lefts (arrivals s)) = hd (lefts (taken s))"
      unfolding arr using ex(1) lefts_Nil_iff [of "taken s"] by (simp add: lefts_append)
    moreover have "blocked s = length fs - (64 + length xs)"
    proof (cases "chan_closed (chan s)")
      case True
      then have "blocked s = 0" using st(2) by (auto simp: blocked_def filter_empty_conv)
      moreover have "length (contents (chan s)) \<le> 63"
        using ring.queue_bound [of "chan s"] inv by (simp add: all_inv_def flow_inv_def)
      ultimately show ?thesis using size unfolding arr x by (simp del: length_contents)
    next
      case False
      then have "length (contents (chan s)) = 63" using st(2) by simp
      then show ?thesis using size unfolding arr x by (simp del: length_contents)
    qed
    ultimately show ?thesis using ex tw arr by simp
  next
    case False
    then obtain rs where rs: "until_error [] (taken s) = Awaiting rs" "main s = Returned rs"
      "chan_closed (chan s)" "contents (chan s) = []"
      using inv by (auto simp: all_inv_def flow_inv_def until_error_consume)
    then have b: "blocked s = 0" "set (producers s) \<subseteq> {Ended}"
      using st(2) by (auto simp: blocked_def filter_empty_conv)
    have "mset (map Some (arrivals s)) = mset (map Some fs)"
      using owed owed_ended [OF launched b(2), of until_error_prog] by simp
    then have "mset (arrivals s) = mset fs" by (simp only: mset_Some_eq)
    with rs b arr show ?thesis by (auto simp: until_error_prefix split: if_splits)
  qed
qed

text \<open>
  C9: \<open>wait_all_until_error\<close>: at the end of every schedule the caller has returned all values
  in the order of their arrival, or has thrown the first exception to arrive. In the second
  case it has not closed the channel and no longer reads it: of n functions, when k values
  arrived before the exception, n - (64 + k) fibers are suspended in their push for ever.
\<close>

theorem wait_all_until_error_correct:
  assumes "run until_error_prog as (wait_all_until_error_c d fs) = Some s"
    and "wait_stuck until_error_prog s"
  shows "if list_ex isl (arrivals s)
    then main s = Threw (Thrown (hd (lefts (arrivals s))))
      \<and> blocked s = length fs - (64 + length (takeWhile (\<lambda>f. \<not> isl f) (arrivals s)))
    else main s = Returned (rights (arrivals s)) \<and> mset (arrivals s) = mset fs \<and> blocked s = 0"
  using assms by (rule until_error_final)

theorem wait_all_until_error_correct_witness:
  "\<exists>s. run until_error_prog
        [Launch, Launch, Complete 1, Push 1, Count 1, Pop, Complete 0, Push 0, Count 0]
        (wait_all_until_error_c (Inr (0::nat)) [Inr 5, Inl True]) = Some s
      \<and> main s = Threw (Thrown True) \<and> blocked s = 0"
proof (rule run_evaluates [where P = "\<lambda>s. arrivals s = [Inl True, Inr 5]"])
  let ?as = "[Launch, Launch, Complete 1, Push 1, Count 1, Pop, Complete 0, Push 0, Count 0]"
  show "case run until_error_prog ?as (wait_all_until_error_c (Inr (0::nat)) [Inr 5, Inl True]) of
      None \<Rightarrow> False
    | Some s \<Rightarrow> wait_stuck until_error_prog s \<and> arrivals s = [Inl True, Inr 5]"
    by code_simp
  fix s
  assume s: "run until_error_prog ?as (wait_all_until_error_c (Inr (0::nat)) [Inr 5, Inl True]) = Some s"
    "wait_stuck until_error_prog s" "arrivals s = [Inl True, Inr 5]"
  have "main s = Threw (Thrown True) \<and> blocked s = 0"
    using wait_all_until_error_correct [OF s(1,2)] unfolding s(3) by simp
  with s(1) show ?thesis by blast
qed

text \<open>
  C37: the suspended fibers are real: with a first function that throws and more than 63 others
  there is a schedule after which the caller has thrown its exception and every fiber beyond
  the 64th is suspended for ever.
\<close>

theorem wait_all_until_error_leaks:
  "\<exists>as s. run until_error_prog as (wait_all_until_error_c d (Inl e # fs)) = Some s
     \<and> wait_stuck until_error_prog s \<and> main s = Threw (Thrown e) \<and> blocked s = length fs - 63"
proof -
  let ?s0 = "wait_all_until_error_c d (Inl e # fs)"
  let ?ps = "map Running (Inl e # fs)"
  have s0: "?s0 = start (channel_64 d) (Some (Suc (length fs))) (Inl e # fs) (Awaiting [])"
    by (simp add: wait_all_until_error_c_def wait_all_until_error_source_c_def make_nchannel_def)
  define s1 where "s1 = ?s0\<lparr>to_launch := [], producers := ?ps\<rparr>"
  have r1: "run until_error_prog (replicate (Suc (length fs)) Launch) ?s0 = Some s1"
    using run_launch [of ?s0 until_error_prog] unfolding s0 s1_def by (simp add: start_def)
  obtain ch where ch: "chan_push (channel_64 d) (Inl e) = (ch, Push_success)"
    using ring.push_room [of "channel_64 d" "Inl e"] channel_64 [of d] by auto
  define s2 where "s2 = s1\<lparr>chan := ch, arrivals := [Inl e], producers := Counting # map Running fs\<rparr>"
  have r2: "run until_error_prog [Complete 0, Push 0] s1 = Some s2"
    unfolding s2_def s1_def s0 using ch by (simp add: start_def complete_def push_item_def)
  have r: "run until_error_prog (replicate (Suc (length fs)) Launch @ [Complete 0, Push 0]) ?s0 = Some s2"
    unfolding run_append r1 by (simp add: r2 del: run.simps)
  have "flow_inv until_error_prog (Awaiting []) (room (channel_64 d)) s2"
  proof (rule run_invariant [where I = "flow_inv until_error_prog (Awaiting []) (room (channel_64 d))", OF _ r])
    show "flow_inv until_error_prog (Awaiting []) (room (channel_64 d)) ?s0"
      unfolding s0 by (rule flow_start [OF channel_64(2,3)])
  qed (rule until_first_error.flow_step)
  then obtain as s where as: "run until_error_prog as s2 = Some s" "wait_stuck until_error_prog s"
    by (rule until_first_error.run_to_end)
  obtain xs where xs: "arrivals s = Inl e # xs"
    using run_arrivals [OF as(1)] by (auto simp: s2_def)
  have all: "run until_error_prog ((replicate (Suc (length fs)) Launch @ [Complete 0, Push 0]) @ as) ?s0 = Some s"
    unfolding run_append [of _ "replicate (Suc (length fs)) Launch @ [Complete 0, Push 0]"] r by (simp add: as(1))
  have "main s = Threw (Thrown e) \<and> blocked s = length fs - 63"
    using until_error_final [OF all as(2)] unfolding xs by simp
  with all as(2) show ?thesis by blast
qed



end
