(* ===== verification/Wait_Simple.thy ===== *)
theory Wait_Simple
  imports Prelude
begin

text \<open>
  The waiting functions of \<open>common/fiber/wait_stuff.hpp\<close> that pass no results through a
  channel: \<open>wait_first_simple\<close> with the flag \<open>Done\<close>, \<open>wait_all_simple\<close> with a barrier, and
  \<open>wait_all_members\<close> with one future per function. Each is a step relation on the state of the
  caller and of the fibers it launches.

  The compiled part of the barrier is not among the sources. It is seen through the parameter
  \<open>released initial calls\<close>: whether a fiber inside \<open>barrier::wait\<close> may leave it when \<open>wait\<close> has
  been called \<open>calls\<close> times on a barrier made for \<open>initial\<close> fibers.
\<close>

section \<open>Waiting for the first completion\<close>

text \<open>
  A fiber runs its function, has to lock the mutex and set the flag, has to notify the
  condition variable, or has ended. The caller tests the flag with the mutex held, sleeps in
  the condition variable (entered before the mutex is released), or has passed \<open>wait\<close>.
\<close>

datatype 'e done_fiber = D_running "'e + unit" | D_setting | D_notifying | D_ended

datatype waiter = Testing | Asleep | Passed

record 'e done_state =
  d_launch :: "('e + unit) list"
  d_fibers :: "'e done_fiber list"
  ready :: bool
  d_waiter :: waiter
  d_aborted :: bool

definition done_wait :: "'e done_state \<Rightarrow> 'e done_state" where
  "done_wait s = s\<lparr>d_waiter := if ready s then Passed else Asleep\<rparr>"

definition done_set :: "nat \<Rightarrow> 'e done_state \<Rightarrow> 'e done_state" where
  "done_set i s = s\<lparr>ready := True, d_fibers := (d_fibers s)[i := D_notifying]\<rparr>"

definition done_notify_one :: "nat \<Rightarrow> 'e done_state \<Rightarrow> 'e done_state" where
  "done_notify_one i s =
     s\<lparr>d_waiter := if d_waiter s = Asleep then Testing else d_waiter s,
       d_fibers := (d_fibers s)[i := D_ended]\<rparr>"

definition wait_first_simple_impl :: "'e + unit \<Rightarrow> 'e done_state \<Rightarrow> 'e done_state" where
  "wait_first_simple_impl f s = s\<lparr>d_launch := tl (d_launch s), d_fibers := d_fibers s @ [D_running f]\<rparr>"

inductive done_step :: "'e done_state \<Rightarrow> 'e done_state \<Rightarrow> bool" where
  Launch: "\<not> d_aborted s \<Longrightarrow> d_launch s = f # fs \<Longrightarrow> done_step s (wait_first_simple_impl f s)"
| Throw: "\<not> d_aborted s \<Longrightarrow> i < length (d_fibers s) \<Longrightarrow> d_fibers s ! i = D_running (Inl e)
    \<Longrightarrow> done_step s (s\<lparr>d_aborted := True\<rparr>)"
| Complete: "\<not> d_aborted s \<Longrightarrow> i < length (d_fibers s) \<Longrightarrow> d_fibers s ! i = D_running (Inr ())
    \<Longrightarrow> done_step s (s\<lparr>d_fibers := (d_fibers s)[i := D_setting]\<rparr>)"
| Set: "\<not> d_aborted s \<Longrightarrow> i < length (d_fibers s) \<Longrightarrow> d_fibers s ! i = D_setting
    \<Longrightarrow> done_step s (done_set i s)"
| Notify: "\<not> d_aborted s \<Longrightarrow> i < length (d_fibers s) \<Longrightarrow> d_fibers s ! i = D_notifying
    \<Longrightarrow> done_step s (done_notify_one i s)"
| Test: "\<not> d_aborted s \<Longrightarrow> d_launch s = [] \<Longrightarrow> d_waiter s = Testing \<Longrightarrow> done_step s (done_wait s)"

definition wait_first_simple :: "('e + unit) list \<Rightarrow> 'e done_state" where
  "wait_first_simple fs = \<lparr> d_launch = fs, d_fibers = [], ready = False, d_waiter = Testing,
     d_aborted = False \<rparr>"

definition wait_first_simple_c :: "('e + unit) list \<Rightarrow> 'e done_state" where
  "wait_first_simple_c fs = \<lparr> d_launch = fs, d_fibers = [], ready = False, d_waiter = Testing,
     d_aborted = False \<rparr>"

text \<open>
  The flag is set when a function has completed; a sleeping caller will be woken by a fiber
  that has set the flag and not yet notified.
\<close>

definition done_inv :: "('e + unit) list \<Rightarrow> 'e done_state \<Rightarrow> bool" where
  "done_inv fs s \<longleftrightarrow>
     length (d_fibers s) + length (d_launch s) = length fs
     \<and> (ready s \<longrightarrow> D_notifying \<in> set (d_fibers s) \<or> D_ended \<in> set (d_fibers s))
     \<and> (\<not> ready s \<longrightarrow> D_notifying \<notin> set (d_fibers s) \<and> D_ended \<notin> set (d_fibers s))
     \<and> (d_waiter s = Asleep \<longrightarrow> d_launch s = [] \<and> (ready s \<longrightarrow> D_notifying \<in> set (d_fibers s)))
     \<and> (d_waiter s = Passed \<longrightarrow> ready s)"

lemma set_update_keeps: "i < length xs \<Longrightarrow> y \<in> set xs \<Longrightarrow> y \<noteq> xs ! i \<Longrightarrow> y \<in> set (xs[i := x])"
  by (metis in_set_conv_nth length_list_update nth_list_update_neq)

lemma set_update_new: "y \<in> set (xs[i := x]) \<Longrightarrow> y \<noteq> x \<Longrightarrow> y \<in> set xs"
  using set_update_subset_insert [of xs i x] by auto

interpretation done_flag: inductive_invariant "\<lambda>s. s = wait_first_simple_c fs" done_step "done_inv fs" for fs
proof
  show "done_inv fs s" if "s = wait_first_simple_c fs" for s :: "'a done_state"
    using that by (simp add: done_inv_def wait_first_simple_c_def)
next
  fix s s' :: "'a done_state"
  assume inv: "done_inv fs s" and "done_step s s'"
  from this(2) show "done_inv fs s'"
  proof cases
    case (Launch f gs)
    with inv show ?thesis by (auto simp: done_inv_def wait_first_simple_impl_def)
  next
    case (Throw i e)
    with inv show ?thesis by (auto simp: done_inv_def)
  next
    case (Complete i)
    with inv show ?thesis
      by (auto simp: done_inv_def set_update_keeps dest: set_update_new)
  next
    case (Set i)
    with inv show ?thesis
      by (auto simp: done_inv_def done_set_def set_update_memI)
  next
    case (Notify i)
    then have "D_notifying \<in> set (d_fibers s)" by (metis nth_mem)
    with Notify inv show ?thesis
      by (auto simp: done_inv_def done_notify_one_def set_update_memI)
  next
    case Test
    with inv show ?thesis by (auto simp: done_inv_def done_wait_def)
  qed
qed

lemma done_reachable: "done_step\<^sup>*\<^sup>* (wait_first_simple_c fs) s \<Longrightarrow> done_inv fs s"
  using done_flag.reachable_inv [of "wait_first_simple_c fs" fs s] by simp

definition done_stuck :: "'e done_state \<Rightarrow> bool" where
  "done_stuck s \<longleftrightarrow> (\<forall>s'. \<not> done_step s s')"

text \<open>
  When nothing can move and no function has thrown, the caller has passed the wait and every
  fiber has ended, unless there was no function: then the caller sleeps for ever.
\<close>

lemma wait_first_simple_ends:
  assumes "done_step\<^sup>*\<^sup>* (wait_first_simple_c fs) s" "done_stuck s" "\<not> d_aborted s"
  shows "set (d_fibers s) \<subseteq> {D_ended} \<and> d_waiter s = (if fs = [] then Asleep else Passed)"
proof -
  have inv: "done_inv fs s" by (rule done_reachable [OF assms(1)])
  have no: "\<not> done_step s s'" for s' using assms(2) by (simp add: done_stuck_def)
  have l: "d_launch s = []" using no Launch [OF assms(3)] by (cases "d_launch s") blast+
  have "d_fibers s ! i = D_ended" if "i < length (d_fibers s)" for i
  proof (cases "d_fibers s ! i")
    case (D_running f)
    with that no show ?thesis using Throw [OF assms(3) that] Complete [OF assms(3) that]
      by (cases f) (auto simp: unit_eq)
  qed (use that no Set [OF assms(3) that] Notify [OF assms(3) that] in blast)+
  then have e: "set (d_fibers s) \<subseteq> {D_ended}" by (auto simp: in_set_conv_nth)
  have w: "d_waiter s \<noteq> Testing" using no Test [OF assms(3) l] by blast
  show ?thesis
  proof (cases "fs = []")
    case True
    with inv l have "d_fibers s = []" by (simp add: done_inv_def)
    with inv w have "d_waiter s = Asleep" by (cases "d_waiter s") (auto simp: done_inv_def)
    with e True show ?thesis by simp
  next
    case False
    with inv l e have "D_ended \<in> set (d_fibers s)" by (cases "d_fibers s") (auto simp: done_inv_def)
    with inv e have "ready s" "D_notifying \<notin> set (d_fibers s)" by (auto simp: done_inv_def)
    with inv w have "d_waiter s = Passed" by (cases "d_waiter s") (auto simp: done_inv_def)
    with e False show ?thesis by simp
  qed
qed

section \<open>Waiting for all completions\<close>

text \<open>
  The barrier is a parameter: \<open>released initial calls\<close> says whether the fibers that wait at a barrier for
  \<open>initial\<close> fibers may go on when it has been called \<open>calls\<close> times. The barrier of the fiber
  library then starts over for another round; here each fiber and the caller call it once, so
  that it is never called more often than \<open>initial\<close> times and one round is all there is.
\<close>

datatype 'e barrier_fiber = B_running "'e + unit" | B_calling | B_waiting | B_ended

datatype barrier_caller = C_launching | C_waiting | C_passed

record 'e barrier_state =
  b_launch :: "('e + unit) list"
  b_fibers :: "'e barrier_fiber list"
  b_initial :: nat
  b_calls :: nat
  b_caller :: barrier_caller
  b_aborted :: bool

definition wait_all_simple_impl :: "'e + unit \<Rightarrow> 'e barrier_state \<Rightarrow> 'e barrier_state" where
  "wait_all_simple_impl f s =
     s\<lparr>b_launch := tl (b_launch s), b_fibers := b_fibers s @ [B_running f]\<rparr>"

inductive barrier_step :: "(nat \<Rightarrow> nat \<Rightarrow> bool) \<Rightarrow> 'e barrier_state \<Rightarrow> 'e barrier_state \<Rightarrow> bool"
  for released :: "nat \<Rightarrow> nat \<Rightarrow> bool" where
  B_Launch: "\<not> b_aborted s \<Longrightarrow> b_launch s = f # fs \<Longrightarrow> barrier_step released s (wait_all_simple_impl f s)"
| B_Throw: "\<not> b_aborted s \<Longrightarrow> i < length (b_fibers s) \<Longrightarrow> b_fibers s ! i = B_running (Inl e)
    \<Longrightarrow> barrier_step released s (s\<lparr>b_aborted := True\<rparr>)"
| B_Complete: "\<not> b_aborted s \<Longrightarrow> i < length (b_fibers s) \<Longrightarrow> b_fibers s ! i = B_running (Inr ())
    \<Longrightarrow> barrier_step released s (s\<lparr>b_fibers := (b_fibers s)[i := B_calling]\<rparr>)"
| B_Call: "\<not> b_aborted s \<Longrightarrow> i < length (b_fibers s) \<Longrightarrow> b_fibers s ! i = B_calling
    \<Longrightarrow> barrier_step released s (s\<lparr>b_calls := b_calls s + 1, b_fibers := (b_fibers s)[i := B_waiting]\<rparr>)"
| B_Leave: "\<not> b_aborted s \<Longrightarrow> i < length (b_fibers s) \<Longrightarrow> b_fibers s ! i = B_waiting
    \<Longrightarrow> released (b_initial s) (b_calls s)
    \<Longrightarrow> barrier_step released s (s\<lparr>b_fibers := (b_fibers s)[i := B_ended]\<rparr>)"
| B_Caller_call: "\<not> b_aborted s \<Longrightarrow> b_launch s = [] \<Longrightarrow> b_caller s = C_launching
    \<Longrightarrow> barrier_step released s (s\<lparr>b_calls := b_calls s + 1, b_caller := C_waiting\<rparr>)"
| B_Caller_leave: "\<not> b_aborted s \<Longrightarrow> b_caller s = C_waiting \<Longrightarrow> released (b_initial s) (b_calls s)
    \<Longrightarrow> barrier_step released s (s\<lparr>b_caller := C_passed\<rparr>)"

definition wait_all_simple :: "('e + unit) list \<Rightarrow> 'e barrier_state" where
  "wait_all_simple fs = \<lparr> b_launch = fs, b_fibers = [], b_initial = length fs + 1, b_calls = 0,
     b_caller = C_launching, b_aborted = False \<rparr>"

definition wait_all_simple_c :: "('e + unit) list \<Rightarrow> 'e barrier_state" where
  "wait_all_simple_c fs = \<lparr> b_launch = fs, b_fibers = [], b_initial = length fs + 1, b_calls = 0,
     b_caller = C_launching, b_aborted = False \<rparr>"

text \<open>The calls of \<open>wait\<close> are those of the fibers inside or past it and that of the caller.\<close>

fun past_call :: "'e barrier_fiber \<Rightarrow> nat" where
  "past_call (B_running f) = 0"
| "past_call B_calling = 0"
| "past_call B_waiting = 1"
| "past_call B_ended = 1"

definition barrier_inv :: "('e + unit) list \<Rightarrow> 'e barrier_state \<Rightarrow> bool" where
  "barrier_inv fs s \<longleftrightarrow>
     b_initial s = length fs + 1 \<and> length (b_fibers s) + length (b_launch s) = length fs
     \<and> b_calls s = sum_list (map past_call (b_fibers s)) + of_bool (b_caller s \<noteq> C_launching)
     \<and> (b_caller s \<noteq> C_launching \<longrightarrow> b_launch s = [])
     \<and> (b_caller s = C_passed \<or> B_ended \<in> set (b_fibers s) \<longrightarrow> b_calls s = length fs + 1)"

lemma past_call_le: "sum_list (map past_call ps) \<le> length ps"
proof (induction ps)
  case (Cons p ps)
  then show ?case by (cases p) auto
qed simp

lemma past_call_all:
  "sum_list (map past_call ps) = length ps \<longleftrightarrow> set ps \<subseteq> {B_waiting, B_ended}"
proof (induction ps)
  case (Cons p ps)
  then show ?case using past_call_le [of ps]
    by (cases p) auto
qed simp

lemma past_call_update:
  "i < length ps \<Longrightarrow> sum_list (map past_call (ps[i := p])) + past_call (ps ! i)
    = sum_list (map past_call ps) + past_call p"
  by (rule sum_list_map_update)

lemma barrier_all_called:
  assumes "barrier_inv fs s" "length fs + 1 \<le> b_calls s"
  shows "b_caller s \<noteq> C_launching \<and> length (b_fibers s) = length fs
    \<and> b_calls s = length fs + 1 \<and> set (b_fibers s) \<subseteq> {B_waiting, B_ended}"
proof -
  have "sum_list (map past_call (b_fibers s)) \<le> length (b_fibers s)" by (rule past_call_le)
  with assms have c: "b_caller s \<noteq> C_launching" "sum_list (map past_call (b_fibers s)) = length (b_fibers s)"
      "length (b_fibers s) = length fs"
    by (cases "b_caller s = C_launching"; auto simp: barrier_inv_def)+
  have "set (b_fibers s) \<subseteq> {B_waiting, B_ended}" using c(2) unfolding past_call_all .
  with assms c show ?thesis by (simp add: barrier_inv_def)
qed

interpretation all_done: inductive_invariant "\<lambda>s. s = wait_all_simple_c fs" "barrier_step (\<le>)" "barrier_inv fs" for fs
proof
  show "barrier_inv fs s" if "s = wait_all_simple_c fs" for s :: "'a barrier_state"
    using that by (simp add: barrier_inv_def wait_all_simple_c_def)
next
  fix s s' :: "'a barrier_state"
  assume inv: "barrier_inv fs s" and "barrier_step (\<le>) s s'"
  from this(2) show "barrier_inv fs s'"
  proof cases
    case (B_Launch f gs)
    with inv show ?thesis by (auto simp: barrier_inv_def wait_all_simple_impl_def)
  next
    case (B_Throw i e)
    with inv show ?thesis by (auto simp: barrier_inv_def)
  next
    case (B_Complete i)
    with inv past_call_update [of i "b_fibers s" B_calling] show ?thesis
      by (auto simp: barrier_inv_def dest: set_update_new)
  next
    case (B_Call i)
    have "\<not> length fs + 1 \<le> b_calls s"
    proof
      assume "length fs + 1 \<le> b_calls s"
      from barrier_all_called [OF inv this] nth_mem [OF B_Call(3)]
      have "b_fibers s ! i \<in> {B_waiting, B_ended}" by blast
      with B_Call(4) show False by simp
    qed
    with inv have "b_caller s \<noteq> C_passed" "B_ended \<notin> set (b_fibers s)"
      by (auto simp: barrier_inv_def)
    with B_Call inv past_call_update [of i "b_fibers s" B_waiting] show ?thesis
      by (auto simp: barrier_inv_def dest: set_update_new)
  next
    case (B_Leave i)
    then have "length fs + 1 \<le> b_calls s" using inv by (simp add: barrier_inv_def)
    then have "b_calls s = length fs + 1" using barrier_all_called [OF inv] by blast
    with B_Leave inv past_call_update [of i "b_fibers s" B_ended] show ?thesis
      by (auto simp: barrier_inv_def)
  next
    case B_Caller_call
    have "\<not> length fs + 1 \<le> b_calls s"
      using barrier_all_called [OF inv] B_Caller_call by auto
    with B_Caller_call inv show ?thesis by (auto simp: barrier_inv_def)
  next
    case B_Caller_leave
    then have "length fs + 1 \<le> b_calls s" using inv by (simp add: barrier_inv_def)
    then have "b_calls s = length fs + 1" using barrier_all_called [OF inv] by blast
    with B_Caller_leave inv show ?thesis by (auto simp: barrier_inv_def)
  qed
qed

definition barrier_stuck :: "(nat \<Rightarrow> nat \<Rightarrow> bool) \<Rightarrow> 'e barrier_state \<Rightarrow> bool" where
  "barrier_stuck released s \<longleftrightarrow> (\<forall>s'. \<not> barrier_step released s s')"

lemma barrier_stuck_ended:
  assumes inv: "barrier_inv fs s" and stuck: "barrier_stuck (\<le>) s" and na: "\<not> b_aborted s"
  shows "b_caller s = C_passed \<and> set (b_fibers s) \<subseteq> {B_ended}"
proof -
  have no: "\<not> barrier_step (\<le>) s s'" for s' using stuck by (simp add: barrier_stuck_def)
  have l: "b_launch s = []" using no B_Launch [OF na] by (cases "b_launch s") blast+
  then have c: "b_caller s \<noteq> C_launching" using no B_Caller_call [OF na] by blast
  have w: "b_fibers s ! i \<in> {B_waiting, B_ended}" if "i < length (b_fibers s)" for i
  proof (cases "b_fibers s ! i")
    case (B_running f)
    with that no show ?thesis using B_Throw [OF na that] B_Complete [OF na that]
      by (cases f) (auto simp: unit_eq)
  qed (use that no B_Call [OF na that] in blast)+
  then have "set (b_fibers s) \<subseteq> {B_waiting, B_ended}" by (metis in_set_conv_nth subsetI)
  then have rel: "b_initial s \<le> b_calls s"
    using inv l c past_call_all [of "b_fibers s"] by (simp add: barrier_inv_def)
  have "b_fibers s ! i = B_ended" if "i < length (b_fibers s)" for i
    using w [OF that] no B_Leave [where released = "(\<le>)", OF na that _ rel] by blast
  moreover have "b_caller s = C_passed"
    using c no B_Caller_leave [where released = "(\<le>)", OF na _ rel] by (cases "b_caller s") blast+
  ultimately show ?thesis by (auto simp: in_set_conv_nth)
qed

text \<open>
  C38: with a barrier that lets a fiber leave exactly when as many fibers as it was made for
  have called \<open>wait\<close>, in every interleaving \<open>wait_all_simple\<close> returns only when every function
  has completed, and when nothing can move and no function has thrown, it has returned and
  every fiber has ended, also when there is no function.
\<close>

theorem wait_all_simple_correct:
  assumes "\<And>n k. released n k \<longleftrightarrow> n \<le> k"
    and "(barrier_step released)\<^sup>*\<^sup>* (wait_all_simple_c fs) s"
  shows "(b_caller s = C_passed \<longrightarrow>
      length (b_fibers s) = length fs \<and> set (b_fibers s) \<subseteq> {B_waiting, B_ended})
    \<and> (barrier_stuck released s \<and> \<not> b_aborted s \<longrightarrow>
      b_caller s = C_passed \<and> set (b_fibers s) \<subseteq> {B_ended})"
proof -
  have rel: "released = (\<le>)" using assms(1) by (simp add: fun_eq_iff)
  have inv: "barrier_inv fs s"
    using all_done.reachable_inv [of "wait_all_simple_c fs" fs s] assms(2) rel by simp
  have "length fs + 1 \<le> b_calls s" if "b_caller s = C_passed"
    using inv that by (simp add: barrier_inv_def)
  then show ?thesis
    using barrier_all_called [OF inv] barrier_stuck_ended [OF inv] rel by auto
qed

theorem wait_all_simple_correct_witness:
  "\<exists>s :: bool barrier_state. (barrier_step (\<lambda>n k. n \<le> k))\<^sup>*\<^sup>* (wait_all_simple_c []) s
     \<and> b_caller s = C_passed \<and> b_fibers s = []"
proof -
  let ?s0 = "wait_all_simple_c [] :: bool barrier_state"
  let ?s1 = "?s0\<lparr>b_calls := 1, b_caller := C_waiting\<rparr>"
  let ?s2 = "?s1\<lparr>b_caller := C_passed\<rparr>"
  have "barrier_step (\<le>) ?s0 ?s1" "barrier_step (\<le>) ?s1 ?s2"
    using B_Caller_call [of ?s0 "(\<le>)"] B_Caller_leave [of ?s1 "(\<le>)"]
    by (simp_all add: wait_all_simple_c_def)
  then have r: "(barrier_step (\<le>))\<^sup>*\<^sup>* ?s0 ?s2" by (metis converse_rtranclp_into_rtranclp r_into_rtranclp)
  have "b_fibers ?s2 = []"
    using wait_all_simple_correct [of "(\<le>)" "[]", OF refl r] by simp
  with r show ?thesis by (intro exI [of _ ?s2]) simp
qed

section \<open>Waiting for all members\<close>

text \<open>
  \<open>wait_all_members\<close> runs every function with \<open>async\<close> and then calls \<open>get()\<close> on the futures in
  the order of the arguments, into the initialiser list of the result. A fiber stores the
  outcome of its function in the shared state of its future; \<open>get()\<close> suspends the caller until
  it is there, then returns the value or throws the exception. The members of the result are
  the list of the values.
\<close>

datatype ('v, 'e) getter = Getting "'v list" | Got_all "'v list" | Get_threw 'e

record ('v, 'e) members_state =
  outcomes :: "('e + 'v) list"
  futures :: "('e + 'v) option list"
  getter :: "('v, 'e) getter"

definition async_complete :: "nat \<Rightarrow> ('v, 'e) members_state \<Rightarrow> ('v, 'e) members_state" where
  "async_complete i s = s\<lparr>futures := (futures s)[i := Some (outcomes s ! i)]\<rparr>"

definition wait_all_members_get :: "('v, 'e) members_state \<Rightarrow> ('v, 'e) members_state option" where
  "wait_all_members_get s =
     (case getter s of
        Getting vs \<Rightarrow>
          if length vs = length (futures s) then Some (s\<lparr>getter := Got_all vs\<rparr>)
          else (case futures s ! length vs of
             None \<Rightarrow> None
           | Some (Inl e) \<Rightarrow> Some (s\<lparr>getter := Get_threw e\<rparr>)
           | Some (Inr v) \<Rightarrow> Some (s\<lparr>getter := Getting (vs @ [v])\<rparr>))
      | _ \<Rightarrow> None)"

inductive members_step :: "('v, 'e) members_state \<Rightarrow> ('v, 'e) members_state \<Rightarrow> bool" where
  M_Complete: "i < length (futures s) \<Longrightarrow> futures s ! i = None \<Longrightarrow> members_step s (async_complete i s)"
| M_Get: "wait_all_members_get s = Some s' \<Longrightarrow> members_step s s'"

definition wait_all_members :: "('e + 'v) list \<Rightarrow> ('v, 'e) members_state" where
  "wait_all_members fs = \<lparr> outcomes = fs, futures = replicate (length fs) None, getter = Getting [] \<rparr>"

text \<open>The reference: the values of all functions, or the exception of the leftmost that throws.\<close>

fun leftmost :: "('e + 'v) list \<Rightarrow> 'e + 'v list" where
  "leftmost [] = Inr []"
| "leftmost (Inl e # fs) = Inl e"
| "leftmost (Inr v # fs) = (case leftmost fs of Inl e \<Rightarrow> Inl e | Inr vs \<Rightarrow> Inr (v # vs))"

definition members_inv :: "('e + 'v) list \<Rightarrow> ('v, 'e) members_state \<Rightarrow> bool" where
  "members_inv fs s \<longleftrightarrow> outcomes s = fs \<and> length (futures s) = length fs
     \<and> (\<forall>i < length fs. futures s ! i = None \<or> futures s ! i = Some (fs ! i))
     \<and> (case getter s of
          Getting vs \<Rightarrow> \<exists>rest. fs = map Inr vs @ rest
        | Got_all vs \<Rightarrow> leftmost fs = Inr vs
        | Get_threw e \<Rightarrow> leftmost fs = Inl e)"

lemma leftmost_values: "leftmost (map Inr vs @ rest) =
    (case leftmost rest of Inl e \<Rightarrow> Inl e | Inr ws \<Rightarrow> Inr (vs @ ws))"
  by (induction vs) (auto split: sum.splits)

lemma members_get_inv:
  assumes inv: "members_inv fs s" and step: "wait_all_members_get s = Some s'"
  shows "members_inv fs s'"
proof -
  obtain vs where g: "getter s = Getting vs"
    using step by (auto simp: wait_all_members_get_def split: getter.splits)
  obtain rest where fs: "fs = map Inr vs @ rest" using inv g by (auto simp: members_inv_def)
  show ?thesis
  proof (cases rest)
    case Nil
    then have "length vs = length (futures s)" using inv fs by (simp add: members_inv_def)
    with step g have "s' = s\<lparr>getter := Got_all vs\<rparr>" by (simp add: wait_all_members_get_def)
    moreover have "leftmost fs = Inr vs" using leftmost_values [of vs "[]"] fs Nil by simp
    ultimately show ?thesis using inv by (simp add: members_inv_def)
  next
    case (Cons f gs)
    then have n: "length vs < length fs" "fs ! length vs = f" "length vs \<noteq> length (futures s)"
      using inv fs by (auto simp: members_inv_def nth_append)
    then have fut: "futures s ! length vs = Some f"
      using inv step g by (auto simp: members_inv_def wait_all_members_get_def)
    show ?thesis
    proof (cases f)
      case (Inl e)
      with step g n fut have "s' = s\<lparr>getter := Get_threw e\<rparr>" by (simp add: wait_all_members_get_def)
      moreover have "leftmost fs = Inl e" using leftmost_values [of vs rest] fs Cons Inl by simp
      ultimately show ?thesis using inv by (simp add: members_inv_def)
    next
      case (Inr v)
      with step g n fut have "s' = s\<lparr>getter := Getting (vs @ [v])\<rparr>"
        by (simp add: wait_all_members_get_def)
      moreover have "fs = map Inr (vs @ [v]) @ gs" using fs Cons Inr by simp
      ultimately show ?thesis using inv by (auto simp: members_inv_def)
    qed
  qed
qed

interpretation all_members: inductive_invariant "\<lambda>s. s = wait_all_members fs" members_step "members_inv fs" for fs
proof
  show "members_inv fs s" if "s = wait_all_members fs" for s :: "('a, 'b) members_state"
    using that by (simp add: members_inv_def wait_all_members_def)
next
  fix s s' :: "('a, 'b) members_state"
  assume inv: "members_inv fs s" and "members_step s s'"
  from this(2) show "members_inv fs s'"
  proof cases
    case (M_Complete i)
    with inv show ?thesis by (auto simp: members_inv_def async_complete_def nth_list_update)
  next
    case M_Get
    with inv show ?thesis by (rule members_get_inv)
  qed
qed

definition members_stuck :: "('v, 'e) members_state \<Rightarrow> bool" where
  "members_stuck s \<longleftrightarrow> (\<forall>s'. \<not> members_step s s')"

lemma members_stuck_ended:
  assumes inv: "members_inv fs s" and stuck: "members_stuck s"
  shows "getter s = (case leftmost fs of Inl e \<Rightarrow> Get_threw e | Inr vs \<Rightarrow> Got_all vs)"
proof -
  have fin: "futures s ! i = Some (fs ! i)" if "i < length fs" for i
    using inv stuck that M_Complete [of i s] by (auto simp: members_inv_def members_stuck_def)
  have none: "wait_all_members_get s = None"
    using stuck M_Get [of s] by (cases "wait_all_members_get s") (auto simp: members_stuck_def)
  show ?thesis
  proof (cases "getter s")
    case (Getting vs)
    then obtain rest where fs: "fs = map Inr vs @ rest" using inv by (auto simp: members_inv_def)
    have "length vs \<noteq> length (futures s)" using none Getting by (auto simp: wait_all_members_get_def)
    then have "length vs < length fs" using inv fs by (auto simp: members_inv_def)
    with fin [of "length vs"] none Getting \<open>length vs \<noteq> length (futures s)\<close> show ?thesis
      by (auto simp: wait_all_members_get_def split: sum.splits)
  qed (use inv in \<open>auto simp: members_inv_def\<close>)
qed

text \<open>
  Whatever the order in which the functions complete, \<open>wait_all_members\<close> ends with the
  values of all functions in the order of the arguments, or with the exception of the leftmost
  function that throws.
\<close>

lemma wait_all_members_correct:
  assumes "members_step\<^sup>*\<^sup>* (wait_all_members fs) s" and "members_stuck s"
  shows "getter s = (case leftmost fs of Inl e \<Rightarrow> Get_threw e | Inr vs \<Rightarrow> Got_all vs)"
  using all_members.reachable_inv [of "wait_all_members fs" fs s] assms members_stuck_ended by auto

end
