(* ===== verification/Nchannel_Race.thy ===== *)
theory Nchannel_Race
  imports Prelude
begin

text \<open>
  The facade \<open>nchannel\<close> of \<open>common/fiber/wait_stuff.hpp\<close> when its fibers run on several threads, as
  they do under \<open>FiberFrameContext\<close>. Pushing holds the lock of the channel, but \<open>--limit_\<close> does not:
  it reads the counter, writes it back and tests what it wrote, and the threads interleave
  between the three. Of the channel only the number of items and the closed flag matter here: the
  64 slots that the waiting functions ask for hold 63 items, and a push waits while there are so
  many (it has no step) until the reader takes one or the channel is closed. The reader takes items
  until the channel is closed and empty.
\<close>

section \<open>Counting down in steps\<close>

datatype pusher = Unpushed | Pushed | Loaded nat | Stored nat | Finished

record race =
  limit_word :: nat
  n_pushed :: nat
  n_taken :: nat
  is_closed :: bool
  pushers :: "pusher list"
  reader_done :: bool

definition race_start :: "nat \<Rightarrow> race" where
  "race_start n =
     \<lparr> limit_word = n, n_pushed = 0, n_taken = 0, is_closed = (0 = n), pushers = replicate n Unpushed,
       reader_done = False \<rparr>"

inductive race_step :: "race \<Rightarrow> race \<Rightarrow> bool" where
  Chan_push: "i < length (pushers s) \<Longrightarrow> pushers s ! i = Unpushed \<Longrightarrow> \<not> is_closed s
    \<Longrightarrow> n_pushed s < n_taken s + 63
    \<Longrightarrow> race_step s (s\<lparr>pushers := (pushers s)[i := Pushed], n_pushed := n_pushed s + 1\<rparr>)"
| Chan_push_closed: "i < length (pushers s) \<Longrightarrow> pushers s ! i = Unpushed \<Longrightarrow> is_closed s
    \<Longrightarrow> race_step s (s\<lparr>pushers := (pushers s)[i := Finished]\<rparr>)"
| Load: "i < length (pushers s) \<Longrightarrow> pushers s ! i = Pushed
    \<Longrightarrow> race_step s (s\<lparr>pushers := (pushers s)[i := Loaded (limit_word s)]\<rparr>)"
| Store: "i < length (pushers s) \<Longrightarrow> pushers s ! i = Loaded l \<Longrightarrow> l' = (if l = 0 then npos else l - 1)
    \<Longrightarrow> race_step s (s\<lparr>pushers := (pushers s)[i := Stored l'], limit_word := l'\<rparr>)"
| Test: "i < length (pushers s) \<Longrightarrow> pushers s ! i = Stored l'
    \<Longrightarrow> race_step s (s\<lparr>pushers := (pushers s)[i := Finished], is_closed := (l' = 0 \<or> is_closed s)\<rparr>)"
| Take: "\<not> reader_done s \<Longrightarrow> n_taken s < n_pushed s \<Longrightarrow> race_step s (s\<lparr>n_taken := n_taken s + 1\<rparr>)"
| See_closed: "\<not> reader_done s \<Longrightarrow> n_taken s = n_pushed s \<Longrightarrow> is_closed s \<Longrightarrow> race_step s (s\<lparr>reader_done := True\<rparr>)"

section \<open>The channel is never closed early\<close>

text \<open>The fibers that have written the counter.\<close>

fun wrote :: "pusher \<Rightarrow> nat" where
  "wrote (Stored l) = 1"
| "wrote Finished = 1"
| "wrote _ = 0"

definition writes :: "pusher list \<Rightarrow> nat" where
  "writes ps = sum_list (map wrote ps)"

fun has_pushed :: "pusher \<Rightarrow> nat" where
  "has_pushed Unpushed = 0"
| "has_pushed _ = 1"

text \<open>No value of the counter, stored or loaded, is lower than the count of the writes allows.\<close>

fun stale_ok :: "nat \<Rightarrow> nat \<Rightarrow> pusher \<Rightarrow> bool" where
  "stale_ok n w (Loaded l) = (n \<le> l + w)"
| "stale_ok n w (Stored l) = (n \<le> l + w)"
| "stale_ok n w _ = True"

definition race_inv :: "nat \<Rightarrow> race \<Rightarrow> bool" where
  "race_inv n s \<longleftrightarrow> length (pushers s) = n \<and> n \<le> limit_word s + writes (pushers s)
     \<and> list_all (stale_ok n (writes (pushers s))) (pushers s)
     \<and> n_pushed s = sum_list (map has_pushed (pushers s)) \<and> n_taken s \<le> n_pushed s
     \<and> n_pushed s \<le> n_taken s + 63 \<and> (is_closed s \<longrightarrow> n_pushed s = n) \<and> (reader_done s \<longrightarrow> n_taken s = n_pushed s \<and> is_closed s)"

lemma writes_update: "i < length ps \<Longrightarrow> writes (ps[i := p]) + wrote (ps ! i) = writes ps + wrote p"
  unfolding writes_def by (rule sum_list_map_update)

lemma pushed_update:
  "i < length ps \<Longrightarrow> sum_list (map has_pushed (ps[i := p])) + has_pushed (ps ! i) = sum_list (map has_pushed ps) + has_pushed p"
  by (rule sum_list_map_update)

lemma stale_mono: "stale_ok n w p \<Longrightarrow> w \<le> w' \<Longrightarrow> stale_ok n w' p"
  by (cases p) auto

lemma stale_update:
  assumes "list_all (stale_ok n w) ps" and "stale_ok n w' p" and "w \<le> w'"
  shows "list_all (stale_ok n w') (ps[i := p])"
  using assms set_update_subset_insert [of ps i p] by (auto simp: list_all_iff intro: stale_mono)

lemma writes_le: "writes ps \<le> sum_list (map has_pushed ps)" "sum_list (map has_pushed ps) \<le> length ps"
proof -
  have "wrote p \<le> has_pushed p" "has_pushed p \<le> 1" for p by (cases p; simp)+
  then show "writes ps \<le> sum_list (map has_pushed ps)" "sum_list (map has_pushed ps) \<le> length ps"
    unfolding writes_def by (induction ps) (auto intro!: add_mono simp del: One_nat_def dest: le_trans, metis add.commute add_mono plus_1_eq_Suc)
qed

lemma all_pushed: "sum_list (map has_pushed ps) = length ps \<Longrightarrow> i < length ps \<Longrightarrow> ps ! i \<noteq> Unpushed"
  using pushed_update [of i ps Finished] writes_le(2) [of "ps[i := Finished]"] by auto

lemma race_stale: "race_inv n s \<Longrightarrow> i < length (pushers s) \<Longrightarrow> stale_ok n (writes (pushers s)) (pushers s ! i)"
  unfolding race_inv_def list_all_length by blast

lemma race_inv_step:
  assumes inv: "race_inv n s" and "race_step s s'"
  shows "race_inv n s'"
  using assms(2)
proof cases
  case (Chan_push i)
  then show ?thesis
    using inv writes_update [of i "pushers s" Pushed] pushed_update [of i "pushers s" Pushed]
      stale_update [of n "writes (pushers s)" "pushers s" "writes (pushers s)" Pushed i]
    by (auto simp: race_inv_def)
next
  case (Chan_push_closed i)
  then show ?thesis using inv all_pushed [of "pushers s" i] by (auto simp: race_inv_def)
next
  case (Load i)
  then show ?thesis
    using inv writes_update [of i "pushers s" "Loaded (limit_word s)"] pushed_update [of i "pushers s" "Loaded (limit_word s)"]
      stale_update [of n "writes (pushers s)" "pushers s" "writes (pushers s)" "Loaded (limit_word s)" i]
    by (auto simp: race_inv_def)
next
  case (Store i l l')
  have "stale_ok n (writes (pushers s)) (pushers s ! i)" using race_stale [OF inv] Store(2) .
  then have "n \<le> l' + (writes (pushers s) + 1)" using Store by (auto split: if_splits)
  then show ?thesis
    using inv Store writes_update [of i "pushers s" "Stored l'"] pushed_update [of i "pushers s" "Stored l'"]
      stale_update [of n "writes (pushers s)" "pushers s" "writes (pushers s) + 1" "Stored l'" i]
    by (auto simp: race_inv_def)
next
  case (Test i l')
  have "stale_ok n (writes (pushers s)) (pushers s ! i)" using race_stale [OF inv] Test(2) .
  then have "l' = 0 \<Longrightarrow> n_pushed s = n"
    using Test inv writes_le [of "pushers s"] by (simp add: race_inv_def)
  then show ?thesis
    using inv Test writes_update [of i "pushers s" Finished] pushed_update [of i "pushers s" Finished]
      stale_update [of n "writes (pushers s)" "pushers s" "writes (pushers s)" Finished i]
    by (auto simp: race_inv_def)
qed (use inv in \<open>auto simp: race_inv_def\<close>)

interpretation race: inductive_invariant "\<lambda>s. s = race_start n" race_step "race_inv n" for n
proof
  have "writes (replicate n Unpushed) = 0" "sum_list (map has_pushed (replicate n Unpushed)) = 0"
    by (simp_all add: writes_def sum_list_replicate)
  then show "race_inv n s" if "s = race_start n" for s
    using that by (auto simp: race_inv_def race_start_def list_all_iff)
qed (rule race_inv_step)

section \<open>The close can be lost\<close>

text \<open>
  A fiber that runs without interruption counts down correctly; the reader then takes its item, so
  that the channel never fills.
\<close>

definition race_at :: "nat \<Rightarrow> nat \<Rightarrow> nat \<Rightarrow> pusher list \<Rightarrow> race" where
  "race_at l p t ps =
     \<lparr> limit_word = l, n_pushed = p, n_taken = t, is_closed = False, pushers = ps, reader_done = False \<rparr>"

lemma race_at_steps:
  "i < length ps \<Longrightarrow> ps ! i = Unpushed \<Longrightarrow> p < t + 63 \<Longrightarrow> race_step (race_at l p t ps) (race_at l (Suc p) t (ps[i := Pushed]))"
  "i < length ps \<Longrightarrow> ps ! i = Pushed \<Longrightarrow> race_step (race_at l p t ps) (race_at l p t (ps[i := Loaded l]))"
  "i < length ps \<Longrightarrow> ps ! i = Loaded (Suc k) \<Longrightarrow> race_step (race_at l p t ps) (race_at k p t (ps[i := Stored k]))"
  "i < length ps \<Longrightarrow> ps ! i = Stored (Suc k) \<Longrightarrow> race_step (race_at l p t ps) (race_at l p t (ps[i := Finished]))"
  "t < p \<Longrightarrow> race_step (race_at l p t ps) (race_at l p (Suc t) ps)"
  using Chan_push [of i "race_at l p t ps"] Load [of i "race_at l p t ps"] Store [of i "race_at l p t ps" "Suc k" k]
    Test [of i "race_at l p t ps" "Suc k"] Take [of "race_at l p t ps"]
  by (simp_all add: race_at_def)

lemmas race_at_run = race_at_steps [THEN r_into_rtranclp [where r = race_step]]

lemma fiber_alone:
  assumes "i < length ps" "ps ! i = Unpushed"
  shows "race_step\<^sup>*\<^sup>* (race_at (Suc (Suc l)) p p ps) (race_at (Suc l) (Suc p) (Suc p) (ps[i := Finished]))"
proof -
  have "race_step\<^sup>*\<^sup>* (race_at (Suc (Suc l)) p p ps) (race_at (Suc (Suc l)) (Suc p) p (ps[i := Pushed]))"
    using assms by (intro race_at_run(1)) simp_all
  also have "race_step\<^sup>*\<^sup>* \<dots> (race_at (Suc (Suc l)) (Suc p) p (ps[i := Loaded (Suc (Suc l))]))"
    using race_at_run(2) [of i "ps[i := Pushed]"] assms(1) by simp
  also have "race_step\<^sup>*\<^sup>* \<dots> (race_at (Suc l) (Suc p) p (ps[i := Stored (Suc l)]))"
    using race_at_run(3) [of i "ps[i := Loaded (Suc (Suc l))]"] assms(1) by simp
  also have "race_step\<^sup>*\<^sup>* \<dots> (race_at (Suc l) (Suc p) p (ps[i := Finished]))"
    using race_at_run(4) [of i "ps[i := Stored (Suc l)]"] assms(1) by simp
  also have "race_step\<^sup>*\<^sup>* \<dots> (race_at (Suc l) (Suc p) (Suc p) (ps[i := Finished]))"
    by (rule race_at_run(5)) simp
  finally show ?thesis .
qed

lemma fibers_alone:
  "race_step\<^sup>*\<^sup>* (race_at (Suc k) p p (ps @ replicate k Unpushed)) (race_at 1 (p + k) (p + k) (ps @ replicate k Finished))"
proof (induction k arbitrary: p ps)
  case (Suc k)
  have "race_step\<^sup>*\<^sup>* (race_at (Suc (Suc k)) p p (ps @ replicate (Suc k) Unpushed))
      (race_at (Suc k) (Suc p) (Suc p) ((ps @ [Finished]) @ replicate k Unpushed))"
    using fiber_alone [of "length ps" "ps @ replicate (Suc k) Unpushed" k p] by (simp add: list_update_append)
  also have "race_step\<^sup>*\<^sup>* \<dots> (race_at 1 (Suc p + k) (Suc p + k) ((ps @ [Finished]) @ replicate k Finished))"
    by (rule Suc.IH)
  finally show ?case by simp
qed simp

text \<open>Two fibers that load the counter before either has stored it count as one.\<close>

lemma two_race:
  "race_step\<^sup>*\<^sup>* (race_at (Suc (Suc m)) 0 0 (Unpushed # Unpushed # us)) (race_at (Suc m) 2 2 (Finished # Finished # us))"
proof -
  let ?n = "Suc (Suc m)"
  have "race_step\<^sup>*\<^sup>* (race_at ?n 0 0 (Unpushed # Unpushed # us)) (race_at ?n 1 0 (Pushed # Unpushed # us))"
    using race_at_run(1) [of 0 "Unpushed # Unpushed # us" 0 0 ?n] by simp
  also have "race_step\<^sup>*\<^sup>* \<dots> (race_at ?n 2 0 (Pushed # Pushed # us))"
    using race_at_run(1) [of 1 "Pushed # Unpushed # us" 1 0 ?n] by (simp add: numeral_2_eq_2)
  also have "race_step\<^sup>*\<^sup>* \<dots> (race_at ?n 2 0 (Loaded ?n # Pushed # us))"
    using race_at_run(2) [of 0 "Pushed # Pushed # us" ?n 2 0] by simp
  also have "race_step\<^sup>*\<^sup>* \<dots> (race_at ?n 2 0 (Loaded ?n # Loaded ?n # us))"
    using race_at_run(2) [of 1 "Loaded ?n # Pushed # us" ?n 2 0] by simp
  also have "race_step\<^sup>*\<^sup>* \<dots> (race_at (Suc m) 2 0 (Stored (Suc m) # Loaded ?n # us))"
    using race_at_run(3) [of 0 "Loaded ?n # Loaded ?n # us" "Suc m" ?n 2 0] by simp
  also have "race_step\<^sup>*\<^sup>* \<dots> (race_at (Suc m) 2 0 (Stored (Suc m) # Stored (Suc m) # us))"
    using race_at_run(3) [of 1 "Stored (Suc m) # Loaded ?n # us" "Suc m" "Suc m" 2 0] by simp
  also have "race_step\<^sup>*\<^sup>* \<dots> (race_at (Suc m) 2 0 (Finished # Stored (Suc m) # us))"
    using race_at_run(4) [of 0 "Stored (Suc m) # Stored (Suc m) # us" m "Suc m" 2 0] by simp
  also have "race_step\<^sup>*\<^sup>* \<dots> (race_at (Suc m) 2 0 (Finished # Finished # us))"
    using race_at_run(4) [of 1 "Finished # Stored (Suc m) # us" m "Suc m" 2 0] by simp
  also have "race_step\<^sup>*\<^sup>* \<dots> (race_at (Suc m) 2 1 (Finished # Finished # us))"
    using race_at_run(5) [of 0 2] by simp
  also have "race_step\<^sup>*\<^sup>* \<dots> (race_at (Suc m) 2 2 (Finished # Finished # us))"
    using race_at_run(5) [of 1 2] by (simp add: numeral_2_eq_2)
  finally show ?thesis .
qed

lemma lost_close:
  "race_step\<^sup>*\<^sup>* (race_start (Suc (Suc m))) (race_at 1 (Suc (Suc m)) (Suc (Suc m)) (replicate (Suc (Suc m)) Finished))"
proof -
  have "race_start (Suc (Suc m)) = race_at (Suc (Suc m)) 0 0 (Unpushed # Unpushed # replicate m Unpushed)"
    by (simp add: race_start_def race_at_def)
  also have "race_step\<^sup>*\<^sup>* \<dots> (race_at (Suc m) 2 2 (Finished # Finished # replicate m Unpushed))"
    by (rule two_race)
  also have "race_step\<^sup>*\<^sup>* \<dots> (race_at 1 (2 + m) (2 + m) (Finished # Finished # replicate m Finished))"
    using fibers_alone [of m 2 "[Finished, Finished]"] by simp
  finally show ?thesis by simp
qed

inductive_cases race_stepE: "race_step s s'"

lemma lost_close_stuck: "\<not> race_step (race_at l n n (replicate k Finished)) s'"
  by (auto simp: race_at_def elim!: race_stepE)

text \<open>
  C20: fibers on several threads race on the counter of \<open>nchannel\<close>. In every interleaving the
  channel holds at most the 63 items it has room for and is closed only after all \<open>n\<close> results have been pushed, so a reader that sees it closed
  has taken all of them; but for every \<open>n \<ge> 2\<close> there is an interleaving in which two
  decrements count as one: every fiber ends, the reader has taken all \<open>n\<close> results, the channel
  is never closed and the reader waits for ever.
\<close>

theorem nchannel_race:
  "(race_step\<^sup>*\<^sup>* (race_start n) s \<longrightarrow> n_taken s \<le> n_pushed s \<and> n_pushed s \<le> n_taken s + 63
      \<and> (is_closed s \<longrightarrow> n_pushed s = n) \<and> (reader_done s \<longrightarrow> n_taken s = n))
   \<and> (2 \<le> n \<longrightarrow> (\<exists>s. race_step\<^sup>*\<^sup>* (race_start n) s \<and> (\<nexists>s'. race_step s s') \<and> pushers s = replicate n Finished
        \<and> n_taken s = n \<and> \<not> is_closed s \<and> \<not> reader_done s))"
proof (intro conjI impI)
  assume "race_step\<^sup>*\<^sup>* (race_start n) s"
  then have "race_inv n s" by (rule race.reachable_inv [OF refl])
  then show "n_taken s \<le> n_pushed s" "n_pushed s \<le> n_taken s + 63"
    "is_closed s \<Longrightarrow> n_pushed s = n" "reader_done s \<Longrightarrow> n_taken s = n"
    by (auto simp: race_inv_def)
next
  assume "2 \<le> n"
  then obtain m where "n = Suc (Suc m)" by (metis add_2_eq_Suc le_Suc_ex)
  then show "\<exists>s. race_step\<^sup>*\<^sup>* (race_start n) s \<and> (\<nexists>s'. race_step s s') \<and> pushers s = replicate n Finished
        \<and> n_taken s = n \<and> \<not> is_closed s \<and> \<not> reader_done s"
    using lost_close [of m] lost_close_stuck [of 1 n n]
    by (intro exI [of _ "race_at 1 n n (replicate n Finished)"] conjI) (simp_all add: race_at_def del: replicate_Suc)
qed

theorem nchannel_race_witness:
  "\<exists>s. race_step\<^sup>*\<^sup>* (race_start 100) s \<and> (\<nexists>s'. race_step s s') \<and> n_taken s = 100 \<and> \<not> is_closed s \<and> \<not> reader_done s"
  using nchannel_race [of 100] by auto

end
