(* ===== verification/Fiber_Promise.thy ===== *)
theory Fiber_Promise
  imports Prelude
begin

text \<open>
  The completion token \<open>use_future\<close> for fibers (\<open>common/fiber/use_fiber_future.hpp\<close>,
  \<open>common/fiber/impl/use_fiber_future.hpp\<close>): the completion handlers that store the outcome of
  an asynchronous operation in a promise, the executor that stores an exception, and the
  packaged form with a function. The promise and its shared state are those of
  \<open>third_party/include/boost/fiber/future\<close>.

  The branches of the preprocessor are those of a compiler with variadic templates and
  exceptions. The tuple of results is a list of values: empty for \<open>void\<close>, one value for a
  single result.
\<close>

section \<open>Promises\<close>

datatype 'e exn = System_error nat | User 'e
  | Promise_already_satisfied | Future_already_retrieved | Broken_promise

datatype ('v, 'e) shared_state = Pending | Has_value 'v | Has_exception "'e exn"

record ('v, 'e) promise =
  shared :: "('v, 'e) shared_state"
  obtained :: bool

definition create_promise :: "('v, 'e) promise" where
  "create_promise = \<lparr> shared = Pending, obtained = False \<rparr>"

definition set_value :: "'v \<Rightarrow> ('v, 'e) promise \<Rightarrow> 'e exn + ('v, 'e) promise" where
  "set_value v p =
     (if shared p \<noteq> Pending then Inl Promise_already_satisfied else Inr (p\<lparr>shared := Has_value v\<rparr>))"

definition set_exception :: "'e exn \<Rightarrow> ('v, 'e) promise \<Rightarrow> 'e exn + ('v, 'e) promise" where
  "set_exception e p =
     (if shared p \<noteq> Pending then Inl Promise_already_satisfied else Inr (p\<lparr>shared := Has_exception e\<rparr>))"

definition get_future :: "('v, 'e) promise \<Rightarrow> 'e exn + ('v, 'e) promise" where
  "get_future p =
     (if obtained p then Inl Future_already_retrieved else Inr (p\<lparr>obtained := True\<rparr>))"

text \<open>
  The destructor, when the last handler that shares the promise is gone; and \<open>future::get\<close>,
  which suspends the caller (\<open>None\<close>) until the state is ready.
\<close>

definition promise_destroy :: "('v, 'e) promise \<Rightarrow> ('v, 'e) promise" where
  "promise_destroy p =
     (if obtained p \<and> shared p = Pending then p\<lparr>shared := Has_exception Broken_promise\<rparr> else p)"

definition future_get :: "('v, 'e) promise \<Rightarrow> ('e exn + 'v) option" where
  "future_get p =
     (case shared p of Pending \<Rightarrow> None | Has_value v \<Rightarrow> Some (Inr v) | Has_exception e \<Rightarrow> Some (Inl e))"

section \<open>Completion handlers\<close>

text \<open>
  A completion signature is the list of the kinds of its arguments; an argument is an error
  code (0 for success), an exception pointer, or a value.
\<close>

datatype kind = K_ec | K_ex | K_val

datatype ('a, 'e) arg = Ec nat | Ex "'e exn option" | Val 'a

fun kind_of :: "('a, 'e) arg \<Rightarrow> kind" where
  "kind_of (Ec n) = K_ec"
| "kind_of (Ex e) = K_ex"
| "kind_of (Val a) = K_val"

type_synonym ('a, 'e) results = "('a, 'e) arg list"

type_synonym ('a, 'e) fpromise = "(('a, 'e) results, 'e) promise"

type_synonym ('a, 'e) effect = "('a, 'e) fpromise \<Rightarrow> 'e exn + ('a, 'e) fpromise"

definition promise_handler_0 :: "('a, 'e) effect" where
  "promise_handler_0 p = set_value [] p"

definition promise_handler_ec_0 :: "nat \<Rightarrow> ('a, 'e) effect" where
  "promise_handler_ec_0 ec p = (if ec \<noteq> 0 then set_exception (System_error ec) p else set_value [] p)"

definition promise_handler_ex_0 :: "'e exn option \<Rightarrow> ('a, 'e) effect" where
  "promise_handler_ex_0 ex p =
     (case ex of Some e \<Rightarrow> set_exception e p | None \<Rightarrow> set_value [] p)"

definition promise_handler_1 :: "('a, 'e) arg \<Rightarrow> ('a, 'e) effect" where
  "promise_handler_1 arg p = set_value [arg] p"

definition promise_handler_ec_1 :: "nat \<Rightarrow> ('a, 'e) arg \<Rightarrow> ('a, 'e) effect" where
  "promise_handler_ec_1 ec arg p =
     (if ec \<noteq> 0 then set_exception (System_error ec) p else set_value [arg] p)"

definition promise_handler_ex_1 :: "'e exn option \<Rightarrow> ('a, 'e) arg \<Rightarrow> ('a, 'e) effect" where
  "promise_handler_ex_1 ex arg p =
     (case ex of Some e \<Rightarrow> set_exception e p | None \<Rightarrow> set_value [arg] p)"

definition promise_handler_n :: "('a, 'e) results \<Rightarrow> ('a, 'e) effect" where
  "promise_handler_n args p = set_value args p"

definition promise_handler_ec_n :: "nat \<Rightarrow> ('a, 'e) results \<Rightarrow> ('a, 'e) effect" where
  "promise_handler_ec_n ec args p =
     (if ec \<noteq> 0 then set_exception (System_error ec) p else set_value args p)"

definition promise_handler_ex_n :: "'e exn option \<Rightarrow> ('a, 'e) results \<Rightarrow> ('a, 'e) effect" where
  "promise_handler_ex_n ex args p =
     (case ex of Some e \<Rightarrow> set_exception e p | None \<Rightarrow> set_value args p)"

text \<open>
  The handler class selected for a signature: the most specialised of the partial
  specialisations that match.
\<close>

datatype handler = H_0 | H_ec_0 | H_ex_0 | H_1 | H_ec_1 | H_ex_1 | H_n | H_ec_n | H_ex_n

fun promise_handler_selector :: "kind list \<Rightarrow> handler" where
  "promise_handler_selector [] = H_0"
| "promise_handler_selector [K_ec] = H_ec_0"
| "promise_handler_selector [K_ex] = H_ex_0"
| "promise_handler_selector [K_val] = H_1"
| "promise_handler_selector [K_ec, k] = H_ec_1"
| "promise_handler_selector [K_ex, k] = H_ex_1"
| "promise_handler_selector (K_ec # ks) = H_ec_n"
| "promise_handler_selector (K_ex # ks) = H_ex_n"
| "promise_handler_selector ks = H_n"

text \<open>A call of a handler; \<open>None\<close> is a call that does not type-check.\<close>

fun handler_call :: "handler \<Rightarrow> ('a, 'e) results \<Rightarrow> ('a, 'e) effect option" where
  "handler_call H_0 [] = Some promise_handler_0"
| "handler_call H_ec_0 [Ec ec] = Some (promise_handler_ec_0 ec)"
| "handler_call H_ex_0 [Ex ex] = Some (promise_handler_ex_0 ex)"
| "handler_call H_1 [arg] = Some (promise_handler_1 arg)"
| "handler_call H_ec_1 [Ec ec, arg] = Some (promise_handler_ec_1 ec arg)"
| "handler_call H_ex_1 [Ex ex, arg] = Some (promise_handler_ex_1 ex arg)"
| "handler_call H_n args = Some (promise_handler_n args)"
| "handler_call H_ec_n (Ec ec # args) = Some (promise_handler_ec_n ec args)"
| "handler_call H_ex_n (Ex ex # args) = Some (promise_handler_ex_n ex args)"
| "handler_call h args = None"

text \<open>The kinds of the tuple of the future, per handler class.\<close>

fun future_kinds :: "kind list \<Rightarrow> kind list" where
  "future_kinds (K_ec # ks) = ks"
| "future_kinds (K_ex # ks) = ks"
| "future_kinds ks = ks"

section \<open>Executors and packaged functions\<close>

text \<open>
  A function object that runs with the promise in scope: it may change the promise (a bound
  completion handler does) and may throw.
\<close>

type_synonym ('v, 'e) action = "('v, 'e) promise \<Rightarrow> ('v, 'e) promise \<times> 'e exn option"

definition promise_invoker :: "('v, 'e) action \<Rightarrow> ('v, 'e) action" where
  "promise_invoker f p =
     (case f p of
        (p', None) \<Rightarrow> (p', None)
      | (p', Some e) \<Rightarrow> (case set_exception e p' of Inl e' \<Rightarrow> (p', Some e') | Inr p'' \<Rightarrow> (p'', None)))"

text \<open>
  The executor runs a function at once (\<open>dispatch\<close>) or hands it to the system executor
  (\<open>post\<close>, \<open>defer\<close>), whose queue of work is a list.
\<close>

definition executor_dispatch :: "('v, 'e) action \<Rightarrow> ('v, 'e) action" where
  "executor_dispatch f p = promise_invoker f p"

definition executor_post :: "('v, 'e) action \<Rightarrow> ('v, 'e) action list \<Rightarrow> ('v, 'e) action list" where
  "executor_post f queue = queue @ [promise_invoker f]"

definition executor_defer :: "('v, 'e) action \<Rightarrow> ('v, 'e) action list \<Rightarrow> ('v, 'e) action list" where
  "executor_defer f queue = queue @ [promise_invoker f]"

definition asio_handler_invoke :: "('v, 'e) action \<Rightarrow> ('v, 'e) action" where
  "asio_handler_invoke f p = executor_dispatch f p"

text \<open>\<open>promise_invoke_and_set\<close>, for a function with a result and for one without.\<close>

definition promise_invoke_and_set :: "('b \<Rightarrow> 'e exn + 'v) \<Rightarrow> 'b \<Rightarrow> ('v, 'e) action" where
  "promise_invoke_and_set f args p =
     (case bind_res (f args) (\<lambda>v. set_value v p) of
        Inr p' \<Rightarrow> (p', None)
      | Inl e \<Rightarrow> (case set_exception e p of Inl e' \<Rightarrow> (p, Some e') | Inr p' \<Rightarrow> (p', None)))"

definition promise_invoke_and_set_void :: "('b \<Rightarrow> 'e exn + unit) \<Rightarrow> 'b \<Rightarrow> (unit, 'e) action" where
  "promise_invoke_and_set_void f args p =
     (case bind_res (f args) (\<lambda>_. set_value () p) of
        Inr p' \<Rightarrow> (p', None)
      | Inl e \<Rightarrow> (case set_exception e p of Inl e' \<Rightarrow> (p, Some e') | Inr p' \<Rightarrow> (p', None)))"

definition packaged_handler :: "('b \<Rightarrow> 'e exn + 'v) \<Rightarrow> 'b \<Rightarrow> ('v, 'e) action" where
  "packaged_handler f args p = promise_invoke_and_set f args p"

text \<open>
  The initiating function makes the handler and its promise and takes the future
  (\<open>promise_async_result\<close>, \<open>packaged_async_result\<close>) before the operation starts.
\<close>

definition promise_async_result :: "'e exn + ('v, 'e) promise" where
  "promise_async_result = get_future create_promise"

section \<open>The contract of a promise\<close>

text \<open>
  A promise is a cell that is written once: \<open>settle\<close> writes an empty cell and is refused by a
  full one. Whatever the order of the attempts, the first decides what is read.
\<close>

locale write_once =
  fixes read :: "'p \<Rightarrow> 'r option"
    and settle :: "'r \<Rightarrow> 'p \<Rightarrow> 'x + 'p"
    and refused :: 'x
  assumes settle_empty: "read p = None \<Longrightarrow> \<exists>p'. settle r p = Inr p' \<and> read p' = Some r"
    and settle_full: "read p = Some q \<Longrightarrow> settle r p = Inl refused"
begin

lemma settle_iff: "settle r p = Inr p' \<Longrightarrow> read p = None \<and> read p' = Some r"
  using settle_empty [of p r] settle_full [of p _ r] by (cases "read p") auto

lemma settle_refused_iff: "settle r p = Inl x \<longleftrightarrow> read p \<noteq> None \<and> x = refused"
  using settle_empty [of p r] settle_full [of p _ r] by (cases "read p") auto

end

definition settle :: "'e exn + 'v \<Rightarrow> ('v, 'e) promise \<Rightarrow> 'e exn + ('v, 'e) promise" where
  "settle r p = (case r of Inl e \<Rightarrow> set_exception e p | Inr v \<Rightarrow> set_value v p)"

interpretation promise: write_once future_get settle Promise_already_satisfied
proof
  fix p :: "('v, 'e) promise" and r q
  show "\<exists>p'. settle r p = Inr p' \<and> future_get p' = Some r" if "future_get p = None"
    using that
    by (cases r) (auto simp: settle_def future_get_def set_value_def set_exception_def split: shared_state.splits)
  show "settle r p = Inl Promise_already_satisfied" if "future_get p = Some q"
    using that
    by (cases r) (auto simp: settle_def future_get_def set_value_def set_exception_def split: shared_state.splits)
qed

text \<open>What a completion means: an error becomes an exception, the other arguments the value.\<close>

fun completion_result :: "('a, 'e) results \<Rightarrow> 'e exn + ('a, 'e) results" where
  "completion_result (Ec ec # args) = (if ec \<noteq> 0 then Inl (System_error ec) else Inr args)"
| "completion_result (Ex (Some e) # args) = Inl e"
| "completion_result (Ex None # args) = Inr args"
| "completion_result args = Inr args"

lemmas handler_defs = promise_handler_0_def promise_handler_ec_0_def promise_handler_ex_0_def
  promise_handler_1_def promise_handler_ec_1_def promise_handler_ex_1_def
  promise_handler_n_def promise_handler_ec_n_def promise_handler_ex_n_def

lemma handler_settles:
  "\<exists>h. handler_call (promise_handler_selector (map kind_of args)) args = Some h
     \<and> (\<forall>p. h p = settle (completion_result args) p)"
proof (cases args)
  case (Cons a as)
  then show ?thesis
  proof (cases as)
    case Nil
    with Cons show ?thesis by (cases a) (auto simp: handler_defs settle_def split: option.splits)
  next
    case (Cons b bs)
    with \<open>args = a # as\<close> show ?thesis
      by (cases a; cases bs) (auto simp: handler_defs settle_def split: option.splits)
  qed
qed (simp add: handler_defs settle_def)

lemma completion_result_kinds:
  "completion_result args = Inr vs \<Longrightarrow> map kind_of vs = future_kinds (map kind_of args)"
  by (induction args rule: completion_result.induct) (auto split: if_splits)

text \<open>
  C39: for every completion signature the handler class selected accepts the arguments of the
  operation, and on a promise that is not yet satisfied its call leaves the future ready: with
  the arguments after the error as its tuple, of the types of the signature, when there is no
  error, and with the exception (\<open>system_error\<close> of the code) otherwise. On a satisfied promise
  the call throws \<open>promise_already_satisfied\<close> and changes nothing.
\<close>

theorem use_future_typed:
  "case handler_call (promise_handler_selector (map kind_of args)) args of
     None \<Rightarrow> False
   | Some h \<Rightarrow>
       (case h p of
          Inl e \<Rightarrow> e = Promise_already_satisfied \<and> future_get p \<noteq> None
        | Inr p' \<Rightarrow> future_get p = None \<and> future_get p' = Some (completion_result args)
            \<and> (case completion_result args of
                 Inr vs \<Rightarrow> map kind_of vs = future_kinds (map kind_of args)
               | Inl e \<Rightarrow> (\<exists>n. args \<noteq> [] \<and> hd args = Ec n \<and> n \<noteq> 0 \<and> e = System_error n)
                   \<or> args \<noteq> [] \<and> hd args = Ex (Some e)))"
proof -
  obtain h where h: "handler_call (promise_handler_selector (map kind_of args)) args = Some h"
    "\<And>p. h p = settle (completion_result args) p"
    using handler_settles by blast
  have err: "(\<exists>n. args \<noteq> [] \<and> hd args = Ec n \<and> n \<noteq> 0 \<and> e = System_error n)
      \<or> args \<noteq> [] \<and> hd args = Ex (Some e)" if "completion_result args = Inl e" for e
    using that by (induction args rule: completion_result.induct) (auto split: if_splits)
  show ?thesis
    using promise.settle_iff [of "completion_result args" p] promise.settle_refused_iff [of "completion_result args" p]
      completion_result_kinds [of args] err
    by (auto simp: h split: sum.splits)
qed

section \<open>The life of a future\<close>

text \<open>
  What can happen to a promise whose future has been taken: the operation completes (its
  handler runs through \<open>asio_handler_invoke\<close>), a function run by the executor of the handler
  throws, or the last handler is destroyed.
\<close>

datatype ('a, 'e) promise_event = Op_completed "('a, 'e) results" | Fn_threw "'e exn" | Handler_dropped

definition bound_handler :: "('a, 'e) results \<Rightarrow> (('a, 'e) results, 'e) action" where
  "bound_handler args p =
     (case handler_call (promise_handler_selector (map kind_of args)) args of
        None \<Rightarrow> (p, None)
      | Some h \<Rightarrow> (case h p of Inl e \<Rightarrow> (p, Some e) | Inr p' \<Rightarrow> (p', None)))"

fun handle_event :: "('a, 'e) promise_event \<Rightarrow> (('a, 'e) results, 'e) action" where
  "handle_event (Op_completed args) p = asio_handler_invoke (bound_handler args) p"
| "handle_event (Fn_threw e) p = asio_handler_invoke (\<lambda>p. (p, Some e)) p"
| "handle_event Handler_dropped p = (promise_destroy p, None)"

fun handle_events :: "('a, 'e) promise_event list \<Rightarrow> ('a, 'e) fpromise \<Rightarrow> ('a, 'e) fpromise \<times> 'e exn list" where
  "handle_events [] p = (p, [])"
| "handle_events (ev # evs) p =
     (case handle_event ev p of (p', x) \<Rightarrow>
        (case handle_events evs p' of (q, xs) \<Rightarrow>
           (q, (case x of None \<Rightarrow> xs | Some e \<Rightarrow> e # xs))))"

fun event_result :: "('a, 'e) promise_event \<Rightarrow> 'e exn + ('a, 'e) results" where
  "event_result (Op_completed args) = completion_result args"
| "event_result (Fn_threw e) = Inl e"
| "event_result Handler_dropped = Inl Broken_promise"

lemma invoker_settle: "promise_invoker f p =
    (case f p of (p', None) \<Rightarrow> (p', None)
     | (p', Some e) \<Rightarrow> (case settle (Inl e) p' of Inl e' \<Rightarrow> (p', Some e') | Inr p'' \<Rightarrow> (p'', None)))"
  by (auto simp: promise_invoker_def settle_def split: prod.splits option.splits)

lemma bound_handler_settle:
  "bound_handler args p = (case settle (completion_result args) p of Inl e \<Rightarrow> (p, Some e) | Inr p' \<Rightarrow> (p', None))"
  using handler_settles [of args] by (auto simp: bound_handler_def)

lemma settle_obtained: "settle r p = Inr p' \<Longrightarrow> obtained p' = obtained p"
  by (auto simp: settle_def set_value_def set_exception_def split: sum.splits if_splits)

lemma event_empty:
  assumes "future_get p = None" "obtained p"
  shows "\<exists>p'. handle_event ev p = (p', None) \<and> future_get p' = Some (event_result ev) \<and> obtained p'"
proof (cases ev)
  case (Op_completed args)
  obtain p' where "settle (completion_result args) p = Inr p'" "future_get p' = Some (completion_result args)"
    using promise.settle_empty [OF assms(1)] by blast
  with Op_completed assms(2) show ?thesis
    by (simp add: asio_handler_invoke_def executor_dispatch_def invoker_settle bound_handler_settle settle_obtained)
next
  case (Fn_threw e)
  obtain p' where "settle (Inl e) p = Inr p'" "future_get p' = Some (Inl e)"
    using promise.settle_empty [OF assms(1)] by blast
  with Fn_threw assms(2) show ?thesis
    by (simp add: asio_handler_invoke_def executor_dispatch_def invoker_settle settle_obtained)
next
  case Handler_dropped
  with assms show ?thesis by (simp add: promise_destroy_def future_get_def split: shared_state.splits)
qed

lemma event_full:
  assumes "future_get p = Some r"
  shows "handle_event ev p = (p, if ev = Handler_dropped then None else Some Promise_already_satisfied)"
  using promise.settle_full [OF assms] assms
  by (cases ev) (auto simp: asio_handler_invoke_def executor_dispatch_def invoker_settle
      bound_handler_settle promise_destroy_def future_get_def)

lemma events_full:
  assumes "future_get p = Some r"
  shows "handle_events evs p
    = (p, replicate (length (filter (\<lambda>ev. ev \<noteq> Handler_dropped) evs)) Promise_already_satisfied)"
  using event_full [OF assms] by (induction evs) auto

lemma async_result_fresh: "promise_async_result = Inr \<lparr> shared = Pending, obtained = True \<rparr>"
  by (simp add: promise_async_result_def get_future_def create_promise_def)

text \<open>
  C17: the future an initiating function returns delivers the outcome of the first thing that
  happens to its promise: the completion of the operation, an exception in a function run by
  the handler's executor, or \<open>broken_promise\<close> when the handler is destroyed uncalled; until
  then \<open>get\<close> waits. Nothing escapes the first; every later completion or exception changes
  nothing and leaves the executor as \<open>promise_already_satisfied\<close>.
\<close>

theorem use_future_first_event:
  "case promise_async_result of
     Inl e \<Rightarrow> False
   | Inr p \<Rightarrow>
       (case handle_events evs p of (q, escaped) \<Rightarrow>
          future_get q = (case evs of [] \<Rightarrow> None | ev # _ \<Rightarrow> Some (event_result ev))
          \<and> escaped = replicate (length (filter (\<lambda>ev. ev \<noteq> Handler_dropped) (tl evs))) Promise_already_satisfied)"
proof (cases evs)
  case Nil
  then show ?thesis by (simp add: async_result_fresh future_get_def)
next
  case (Cons ev evs')
  let ?p = "\<lparr> shared = Pending, obtained = True \<rparr> :: ('b, 'a) fpromise"
  have "future_get ?p = None" "obtained ?p" by (simp_all add: future_get_def)
  then obtain q where q: "handle_event ev ?p = (q, None)" "future_get q = Some (event_result ev)"
    using event_empty by blast
  from Cons events_full [OF q(2)] q show ?thesis by (simp add: async_result_fresh)
qed

text \<open>
  The packaged form: on a fresh promise the outcome of the function, value or exception, is
  what the future delivers, and nothing escapes; on a satisfied one the function runs all the
  same and \<open>promise_already_satisfied\<close> escapes.
\<close>

lemma packaged_handler_outcome:
  "packaged_handler f args p =
    (case settle (f args) p of Inr p' \<Rightarrow> (p', None) | Inl _ \<Rightarrow> (p, Some Promise_already_satisfied))"
proof (cases "future_get p")
  case None
  then obtain p' where "settle (f args) p = Inr p'" using promise.settle_empty [of p "f args"] by blast
  then show ?thesis
    by (cases "f args") (auto simp: packaged_handler_def promise_invoke_and_set_def settle_def)
next
  case (Some r)
  then have "set_value v p = Inl Promise_already_satisfied" "set_exception e p = Inl Promise_already_satisfied" for v e
    by (auto simp: future_get_def set_value_def set_exception_def)
  then show ?thesis
    by (cases "f args") (auto simp: packaged_handler_def promise_invoke_and_set_def settle_def)
qed

end
