(* ===== verification/Fiber_Token.thy ===== *)
theory Fiber_Token
  imports Fiber_Promise
begin

text \<open>
  The completion tokens of \<open>use_future\<close> at work (\<open>common/fiber/use_fiber_future.hpp\<close>,
  \<open>common/fiber/impl/use_fiber_future.hpp\<close>): the token with its allocator, the token that
  packages a function, the handlers they make, and the promises the handlers share through
  reference-counted pointers. Several operations are in flight at once; handlers are copied,
  called and destroyed in any order. An address is an index into the list of promises.
\<close>

section \<open>Tokens\<close>

text \<open>The default allocator stands for \<open>std::allocator<void>\<close> (\<open>std_allocator_void\<close>).\<close>

datatype 'al alloc = Std_allocator | Other_allocator 'al

record 'al use_future_t =
  allocator :: "'al alloc"

definition use_future :: "'al use_future_t" where
  "use_future = \<lparr> allocator = Std_allocator \<rparr>"

definition subscript :: "'al use_future_t \<Rightarrow> 'bl alloc \<Rightarrow> 'bl use_future_t" where
  "subscript u a = \<lparr> allocator = a \<rparr>"

definition rebind :: "'al use_future_t \<Rightarrow> 'bl alloc \<Rightarrow> 'bl use_future_t" where
  "rebind u a = \<lparr> allocator = a \<rparr>"

definition get_allocator :: "'al use_future_t \<Rightarrow> 'al alloc" where
  "get_allocator u = allocator u"

text \<open>A packaged function takes the arguments of the completion and may throw.\<close>

type_synonym ('a, 'e) completion = "('a, 'e) results \<Rightarrow> 'e exn + ('a, 'e) results"

record ('al, 'a, 'e) packaged_token =
  token_function :: "('a, 'e) completion"
  token_allocator :: "'al alloc"

definition package :: "'al use_future_t \<Rightarrow> ('a, 'e) completion \<Rightarrow> ('al, 'a, 'e) packaged_token" where
  "package u f = \<lparr> token_function = f, token_allocator = allocator u \<rparr>"

datatype ('al, 'a, 'e) token =
    Plain "'al use_future_t"
  | Packaged "('al, 'a, 'e) packaged_token"

section \<open>Shared promises\<close>

record ('al, 'a, 'e) cell =
  cell_promise :: "('a, 'e) fpromise"
  use_count :: nat
  cell_allocator :: "'al alloc"

type_synonym ('al, 'a, 'e) heap = "('al, 'a, 'e) cell list"

definition allocate_promise :: "'al alloc \<Rightarrow> ('al, 'a, 'e) heap \<Rightarrow> nat \<times> ('al, 'a, 'e) heap" where
  "allocate_promise a heap =
     (length heap, heap @ [\<lparr> cell_promise = create_promise, use_count = 1, cell_allocator = a \<rparr>])"

text \<open>The last pointer that goes destroys the promise.\<close>

definition copy_pointer :: "('al, 'a, 'e) cell \<Rightarrow> ('al, 'a, 'e) cell" where
  "copy_pointer c = c\<lparr> use_count := use_count c + 1 \<rparr>"

definition drop_pointer :: "('al, 'a, 'e) cell \<Rightarrow> ('al, 'a, 'e) cell" where
  "drop_pointer c =
     (let n = use_count c - 1
      in c\<lparr> use_count := n, cell_promise := (if n = 0 then promise_destroy (cell_promise c) else cell_promise c) \<rparr>)"

section \<open>Handlers and executors\<close>

record ('al, 'a, 'e) token_handler =
  promise_ptr :: nat
  handler_operator :: "('a, 'e) results \<Rightarrow> (('a, 'e) results, 'e) action"
  handler_allocator :: "'al alloc"

definition make_promise_handler ::
  "'al use_future_t \<Rightarrow> ('al, 'a, 'e) heap \<Rightarrow> ('al, 'a, 'e) token_handler \<times> ('al, 'a, 'e) heap" where
  "make_promise_handler u heap =
     (case allocate_promise (get_allocator u) heap of (p, heap') \<Rightarrow>
        (\<lparr> promise_ptr = p, handler_operator = bound_handler, handler_allocator = get_allocator u \<rparr>, heap'))"

definition make_packaged_handler ::
  "('al, 'a, 'e) packaged_token \<Rightarrow> ('al, 'a, 'e) heap \<Rightarrow> ('al, 'a, 'e) token_handler \<times> ('al, 'a, 'e) heap" where
  "make_packaged_handler t heap =
     (case allocate_promise (token_allocator t) heap of (p, heap') \<Rightarrow>
        (\<lparr> promise_ptr = p, handler_operator = packaged_handler (token_function t), handler_allocator = token_allocator t \<rparr>,
         heap'))"

text \<open>The executor of a handler is known by the promise it stores exceptions in.\<close>

definition get_executor :: "('al, 'a, 'e) token_handler \<Rightarrow> nat" where
  "get_executor h = promise_ptr h"

definition executor_equal :: "nat \<Rightarrow> nat \<Rightarrow> bool" where
  "executor_equal a b \<longleftrightarrow> a = b"

definition executor_unequal :: "nat \<Rightarrow> nat \<Rightarrow> bool" where
  "executor_unequal a b \<longleftrightarrow> a \<noteq> b"

text \<open>
  \<open>async_result\<close> takes the future of a new handler. Its shared state stays reachable for the
  future, so the future is read at the same address.
\<close>

definition take_future ::
  "('al, 'a, 'e) token_handler \<times> ('al, 'a, 'e) heap \<Rightarrow> 'e exn + ('al, 'a, 'e) token_handler \<times> ('al, 'a, 'e) heap" where
  "take_future hh =
     (case hh of (h, heap) \<Rightarrow>
        let c = heap ! promise_ptr h
        in bind_res (get_future (cell_promise c)) (\<lambda>p'.
             Inr (h, heap[promise_ptr h := c\<lparr> cell_promise := p' \<rparr>])))"

fun async_result ::
  "('al, 'a, 'e) token \<Rightarrow> ('al, 'a, 'e) heap \<Rightarrow> 'e exn + ('al, 'a, 'e) token_handler \<times> ('al, 'a, 'e) heap" where
  "async_result (Plain u) heap = take_future (make_promise_handler u heap)"
| "async_result (Packaged t) heap = take_future (make_packaged_handler t heap)"

text \<open>Operations initiated one after the other.\<close>

fun initiate ::
  "('al, 'a, 'e) token list \<Rightarrow> ('al, 'a, 'e) heap \<Rightarrow> 'e exn + ('al, 'a, 'e) token_handler list \<times> ('al, 'a, 'e) heap" where
  "initiate [] heap = Inr ([], heap)"
| "initiate (t # ts) heap =
     bind_res (async_result t heap) (\<lambda>(h, heap1).
       bind_res (initiate ts heap1) (\<lambda>(hs, heap2). Inr (h # hs, heap2)))"

section \<open>Operations in flight\<close>

text \<open>
  What happens to the handler of an operation, named by its index. A handler that is gone
  can do nothing: the result is \<^const>\<open>None\<close>. The second component is an exception that leaves
  the executor.
\<close>

datatype ('a, 'e) handler_event =
    Handler_copied
  | Handler_destroyed
  | Handler_invoked "('a, 'e) results"
  | Executor_threw "'e exn"

definition on_promise :: "(('a, 'e) results, 'e) action \<Rightarrow> ('al, 'a, 'e) cell \<Rightarrow> ('al, 'a, 'e) cell \<times> 'e exn option" where
  "on_promise f c = (case f (cell_promise c) of (p', x) \<Rightarrow> (c\<lparr> cell_promise := p' \<rparr>, x))"

fun cell_event ::
  "('al, 'a, 'e) token_handler \<Rightarrow> ('a, 'e) handler_event \<Rightarrow> ('al, 'a, 'e) cell \<Rightarrow> ('al, 'a, 'e) cell \<times> 'e exn option" where
  "cell_event h Handler_copied c = (copy_pointer c, None)"
| "cell_event h Handler_destroyed c = (drop_pointer c, None)"
| "cell_event h (Handler_invoked args) c = on_promise (asio_handler_invoke (handler_operator h args)) c"
| "cell_event h (Executor_threw e) c = on_promise (asio_handler_invoke (\<lambda>p. (p, Some e))) c"

fun in_flight ::
  "('al, 'a, 'e) token_handler list \<Rightarrow> (nat \<times> ('a, 'e) handler_event) list \<Rightarrow> ('al, 'a, 'e) heap
     \<Rightarrow> ('al, 'a, 'e) heap option" where
  "in_flight hs [] heap = Some heap"
| "in_flight hs ((i, ev) # evs) heap =
     (if i < length hs \<and> use_count (heap ! promise_ptr (hs ! i)) > 0
      then let p = promise_ptr (hs ! i)
           in in_flight hs evs (heap[p := fst (cell_event (hs ! i) ev (heap ! p))])
      else None)"

section \<open>Each future depends on its own operation only\<close>

text \<open>What the future of one operation delivers, from the events of that operation alone.\<close>

fun token_result :: "('al, 'a, 'e) token \<Rightarrow> ('a, 'e) completion" where
  "token_result (Plain u) args = completion_result args"
| "token_result (Packaged t) args = token_function t args"

fun token_allocator_of :: "('al, 'a, 'e) token \<Rightarrow> 'al alloc" where
  "token_allocator_of (Plain u) = allocator u"
| "token_allocator_of (Packaged t) = token_allocator t"

fun outcome_of :: "('a, 'e) completion \<Rightarrow> nat \<Rightarrow> ('a, 'e) handler_event list \<Rightarrow> ('e exn + ('a, 'e) results) option" where
  "outcome_of f n [] = None"
| "outcome_of f n (Handler_copied # evs) = outcome_of f (n + 1) evs"
| "outcome_of f n (Handler_destroyed # evs) =
     (if n = 1 then Some (Inl Broken_promise) else outcome_of f (n - 1) evs)"
| "outcome_of f n (Handler_invoked args # evs) = Some (f args)"
| "outcome_of f n (Executor_threw e # evs) = Some (Inl e)"

definition serves :: "('al, 'a, 'e) token_handler \<Rightarrow> ('a, 'e) completion \<Rightarrow> bool" where
  "serves h f \<longleftrightarrow> (\<forall>args p. handler_operator h args p =
     (case settle (f args) p of Inl e \<Rightarrow> (p, Some Promise_already_satisfied) | Inr p' \<Rightarrow> (p', None)))"

lemma invoke_settles:
  assumes "\<And>p. op p = (case settle r p of Inl e \<Rightarrow> (p, Some Promise_already_satisfied) | Inr p' \<Rightarrow> (p', None))"
  shows "future_get (fst (asio_handler_invoke op p)) = (if future_get p = None then Some r else future_get p)
    \<and> obtained (fst (asio_handler_invoke op p)) = obtained p"
proof (cases "future_get p")
  case None
  then obtain p' where "settle r p = Inr p'" "future_get p' = Some r" using promise.settle_empty [of p r] by blast
  then show ?thesis
    using None by (simp add: asio_handler_invoke_def executor_dispatch_def invoker_settle assms settle_obtained)
next
  case (Some q)
  then show ?thesis
    using promise.settle_full [OF Some] by (simp add: asio_handler_invoke_def executor_dispatch_def invoker_settle assms)
qed

lemma throw_settles:
  "future_get (fst (asio_handler_invoke (\<lambda>p. (p, Some e)) p)) = (if future_get p = None then Some (Inl e) else future_get p)
    \<and> obtained (fst (asio_handler_invoke (\<lambda>p. (p, Some e)) p)) = obtained p"
proof (cases "future_get p")
  case None
  then obtain p' where "settle (Inl e) p = Inr p'" "future_get p' = Some (Inl e)" using promise.settle_empty [of p "Inl e"] by blast
  then show ?thesis
    using None by (simp add: asio_handler_invoke_def executor_dispatch_def invoker_settle settle_obtained)
next
  case (Some q)
  then show ?thesis
    using promise.settle_full [OF Some] by (simp add: asio_handler_invoke_def executor_dispatch_def invoker_settle)
qed

definition reads :: "('al, 'a, 'e) cell \<Rightarrow> ('a, 'e) completion \<Rightarrow> ('a, 'e) handler_event list \<Rightarrow> ('e exn + ('a, 'e) results) option" where
  "reads c f evs =
     (case future_get (cell_promise c) of Some r \<Rightarrow> Some r | None \<Rightarrow> outcome_of f (use_count c) evs)"

lemma drop_future:
  "obtained p \<Longrightarrow> future_get (promise_destroy p) = (if future_get p = None then Some (Inl Broken_promise) else future_get p)
     \<and> obtained (promise_destroy p)"
  by (simp add: promise_destroy_def future_get_def split: shared_state.splits)

lemma cell_event_reads:
  assumes "serves h f" and "obtained (cell_promise c)" and "use_count c > 0" and "fst (cell_event h ev c) = c'"
  shows "obtained (cell_promise c') \<and> cell_allocator c' = cell_allocator c \<and> reads c f (ev # evs) = reads c' f evs"
proof (cases ev)
  case Handler_copied
  then show ?thesis using assms by (auto simp: copy_pointer_def reads_def split: option.splits)
next
  case Handler_destroyed
  then show ?thesis
    using assms drop_future [OF assms(2)]
    by (auto simp: drop_pointer_def reads_def Let_def split: option.splits)
next
  case (Handler_invoked args)
  have "future_get (cell_promise c') = (if future_get (cell_promise c) = None then Some (f args) else future_get (cell_promise c))
      \<and> obtained (cell_promise c') = obtained (cell_promise c)"
    using invoke_settles [of "handler_operator h args" "f args" "cell_promise c"] assms(1,4) Handler_invoked
    by (auto simp: serves_def on_promise_def split: prod.splits)
  then show ?thesis
    using assms Handler_invoked by (auto simp: reads_def on_promise_def split: option.splits prod.splits)
next
  case (Executor_threw e)
  have "future_get (cell_promise c') = (if future_get (cell_promise c) = None then Some (Inl e) else future_get (cell_promise c))
      \<and> obtained (cell_promise c') = obtained (cell_promise c)"
    using throw_settles [of e "cell_promise c"] assms(4) Executor_threw
    by (auto simp: on_promise_def split: prod.splits)
  then show ?thesis
    using assms Executor_threw by (auto simp: reads_def on_promise_def split: option.splits prod.splits)
qed

text \<open>The handlers as \<open>initiate\<close> makes them: their promises are apart.\<close>

definition set_up ::
  "('al, 'a, 'e) token list \<Rightarrow> nat \<Rightarrow> ('al, 'a, 'e) token_handler list \<Rightarrow> ('al, 'a, 'e) heap \<Rightarrow> bool" where
  "set_up ts k hs heap \<longleftrightarrow> length hs = length ts \<and> length heap = k + length ts
     \<and> (\<forall>i < length ts. promise_ptr (hs ! i) = k + i \<and> serves (hs ! i) (token_result (ts ! i))
         \<and> handler_allocator (hs ! i) = token_allocator_of (ts ! i)
         \<and> heap ! (k + i) = \<lparr> cell_promise = \<lparr> shared = Pending, obtained = True \<rparr>, use_count = 1,
             cell_allocator = token_allocator_of (ts ! i) \<rparr>)"

lemma serves_bound: "\<forall>args p. op args p = bound_handler args p \<Longrightarrow>
    serves \<lparr> promise_ptr = q, handler_operator = op, handler_allocator = a \<rparr> completion_result"
  using promise.settle_refused_iff by (fastforce simp: serves_def bound_handler_settle split: sum.splits)

lemma serves_packaged:
  "serves \<lparr> promise_ptr = q, handler_operator = packaged_handler f, handler_allocator = a \<rparr> f"
  by (auto simp: serves_def packaged_handler_outcome split: sum.splits)

lemma async_result_made:
  "\<exists>h. async_result t heap = Inr (h, heap @ [\<lparr> cell_promise = \<lparr> shared = Pending, obtained = True \<rparr>,
        use_count = 1, cell_allocator = token_allocator_of t \<rparr>])
     \<and> promise_ptr h = length heap \<and> serves h (token_result t) \<and> handler_allocator h = token_allocator_of t"
proof (cases t)
  case (Plain u)
  have "token_result t = completion_result" using Plain by (simp add: fun_eq_iff)
  then show ?thesis
    using Plain by (simp add: make_promise_handler_def take_future_def allocate_promise_def get_future_def
        create_promise_def get_allocator_def serves_bound)
next
  case (Packaged u)
  have "token_result t = token_function u" using Packaged by (simp add: fun_eq_iff)
  then show ?thesis
    using Packaged by (simp add: make_packaged_handler_def take_future_def allocate_promise_def get_future_def
        create_promise_def serves_packaged)
qed

lemma initiate_set_up:
  "\<exists>hs heap'. initiate ts heap = Inr (hs, heap') \<and> set_up ts (length heap) hs heap' \<and> take (length heap) heap' = heap"
proof (induction ts arbitrary: heap)
  case (Cons t ts)
  obtain h where h: "async_result t heap = Inr (h, heap @ [\<lparr> cell_promise = \<lparr> shared = Pending, obtained = True \<rparr>,
        use_count = 1, cell_allocator = token_allocator_of t \<rparr>])" (is "_ = Inr (h, heap @ [?c])")
      "promise_ptr h = length heap" "serves h (token_result t)" "handler_allocator h = token_allocator_of t"
    using async_result_made by blast
  obtain hs heap' where rest: "initiate ts (heap @ [?c]) = Inr (hs, heap')"
      "set_up ts (length (heap @ [?c])) hs heap'" "take (length (heap @ [?c])) heap' = heap @ [?c]"
    using Cons.IH by blast
  have first: "heap' ! length heap = ?c" "take (length heap) heap' = heap"
    using rest(3) by (metis length_append_singleton lessI nth_append_length nth_take,
      metis append_eq_conv_conj length_append_singleton lessI less_or_eq_imp_le min.absorb1 take_take)
  have "set_up (t # ts) (length heap) (h # hs) heap'"
    using rest(2) h first unfolding set_up_def by (auto simp: nth_Cons less_Suc_eq_0_disj)
  then show ?case using h(1) rest(1) first(2) by simp
qed (simp add: set_up_def)

lemma in_flight_reads:
  assumes "in_flight hs evs heap = Some heap'" and "i < length hs" and "serves (hs ! i) f"
    and "\<forall>j < length hs. promise_ptr (hs ! j) = j" and "length heap = length hs" and "obtained (cell_promise (heap ! i))"
  shows "future_get (cell_promise (heap' ! i)) = reads (heap ! i) f (map snd (filter (\<lambda>e. fst e = i) evs))
    \<and> cell_allocator (heap' ! i) = cell_allocator (heap ! i)"
  using assms(1,5,6)
proof (induction evs arbitrary: heap)
  case Nil
  then show ?case by (simp add: reads_def split: option.splits)
next
  case (Cons e evs)
  obtain j ev where e: "e = (j, ev)" by (cases e)
  have j: "j < length hs" "use_count (heap ! j) > 0"
    using Cons.prems(1) assms(4) by (auto simp: e split: if_splits)
  define heap1 where "heap1 = heap[j := fst (cell_event (hs ! j) ev (heap ! j))]"
  have run: "in_flight hs evs heap1 = Some heap'"
    using Cons.prems(1) j assms(4) by (simp add: e heap1_def)
  have len: "length heap1 = length hs" using Cons.prems(2) by (simp add: heap1_def)
  show ?case
  proof (cases "j = i")
    case True
    then have "heap1 ! i = fst (cell_event (hs ! i) ev (heap ! i))" using j Cons.prems(2) by (simp add: heap1_def)
    then show ?thesis
      using Cons.IH [OF run len] cell_event_reads [OF assms(3) Cons.prems(3), of ev "heap1 ! i"] True j e by simp
  next
    case False
    then have "heap1 ! i = heap ! i" by (simp add: heap1_def)
    then show ?thesis using Cons.IH [OF run len] Cons.prems(3) False e by simp
  qed
qed

text \<open>
  C18: any number of operations may be in flight with \<open>use_future\<close> or \<open>use_future(f)\<close>. However the
  events of their handlers interleave, the future of each operation delivers what its own events
  alone decide: the outcome of the completion (the result or the exception of \<open>f\<close> in the
  packaged form), the first exception thrown in its executor, or \<open>broken_promise\<close> when the last
  copy of its handler is destroyed without any of these; until then it waits. Its promise
  comes from the allocator of its token.
\<close>

theorem futures_independent:
  assumes "initiate ts [] = Inr (hs, heap0)" and "in_flight hs evs heap0 = Some heap" and "i < length ts"
  shows "future_get (cell_promise (heap ! promise_ptr (hs ! i)))
      = outcome_of (token_result (ts ! i)) 1 (map snd (filter (\<lambda>e. fst e = i) evs))
    \<and> cell_allocator (heap ! promise_ptr (hs ! i)) = token_allocator_of (ts ! i)"
proof -
  have up: "set_up ts 0 hs heap0" using initiate_set_up [of ts "[]"] assms(1) by auto
  then have i: "heap0 ! i = \<lparr> cell_promise = \<lparr> shared = Pending, obtained = True \<rparr>, use_count = 1,
      cell_allocator = token_allocator_of (ts ! i) \<rparr>" "promise_ptr (hs ! i) = i" "serves (hs ! i) (token_result (ts ! i))"
    using assms(3) by (simp_all add: set_up_def)
  have "\<forall>j < length hs. promise_ptr (hs ! j) = j" "length heap0 = length hs" "i < length hs"
    using up assms(3) by (simp_all add: set_up_def)
  then show ?thesis
    using in_flight_reads [OF assms(2) _ i(3)] i by (simp add: reads_def future_get_def)
qed

text \<open>Two handlers made by \<open>async_result\<close> never have equal executors, and a copy has the executor of its original.\<close>

lemma executors_apart:
  assumes "initiate ts [] = Inr (hs, heap0)" and "i < length ts" and "j < length ts"
  shows "executor_equal (get_executor (hs ! i)) (get_executor (hs ! j)) \<longleftrightarrow> i = j"
    and "executor_unequal (get_executor (hs ! i)) (get_executor (hs ! j)) \<longleftrightarrow> i \<noteq> j"
  using initiate_set_up [of ts "[]"] assms by (auto simp: set_up_def executor_equal_def executor_unequal_def get_executor_def)

theorem futures_independent_witness:
  "\<exists>hs heap0 heap.
     initiate [Plain (rebind (use_future :: unit use_future_t) (Other_allocator (1 :: nat))), Packaged (package use_future (\<lambda>_. Inl (User ''x'')))] []
       = Inr (hs, heap0 :: (nat, nat, string) heap)
     \<and> in_flight hs [(0, Handler_copied), (1, Handler_invoked [Ec 5]), (0, Handler_destroyed), (0, Handler_destroyed)] heap0 = Some heap
     \<and> future_get (cell_promise (heap ! promise_ptr (hs ! 0))) = Some (Inl Broken_promise)
     \<and> future_get (cell_promise (heap ! promise_ptr (hs ! 1))) = Some (Inl (User ''x''))
     \<and> cell_allocator (heap ! promise_ptr (hs ! 0)) = Other_allocator 1"
proof -
  let ?ts = "[Plain (rebind (use_future :: unit use_future_t) (Other_allocator 1)), Packaged (package use_future (\<lambda>_. Inl (User ''x'')))]
    :: (nat, nat, string) token list"
  let ?evs = "[(0, Handler_copied), (1, Handler_invoked [Ec 5]), (0, Handler_destroyed), (0, Handler_destroyed)]"
  obtain hs heap0 where s: "initiate ?ts [] = Inr (hs, heap0)" and up: "set_up ?ts 0 hs heap0"
    using initiate_set_up [of ?ts "[]"] by auto
  have "length hs = 2" "promise_ptr (hs ! 0) = 0" "promise_ptr (hs ! 1) = 1" "length heap0 = 2"
      "use_count (heap0 ! 0) = 1" "use_count (heap0 ! 1) = 1"
    using up by (auto simp: set_up_def)
  then obtain heap where r: "in_flight hs ?evs heap0 = Some heap"
    by (simp add: copy_pointer_def drop_pointer_def on_promise_def Let_def split: prod.splits)
  show ?thesis
    using futures_independent [OF s r, of 0] futures_independent [OF s r, of 1] s r
    by (auto simp: package_def rebind_def)
qed

end
