(* ===== verification/Fiber_Frame.thy ===== *)
theory Fiber_Frame
  imports Prelude
begin

text \<open>
  The frame that runs a program on fibers (\<open>common/fiber/fiber_frame_context.hpp\<close>): \<open>init\<close>
  starts threads that wait for the stop flag (and meanwhile run fibers), \<open>notify_stop\<close> sets
  the flag and wakes them, \<open>wait\<close> waits for the flag and joins them. The choice of the
  scheduling algorithm has no counterpart in the model.
\<close>

section \<open>The frame\<close>

text \<open>
  A thread in \<open>m_cnd_stop.wait\<close> tests the flag with the mutex held, sleeps (entered before the
  mutex is released), or has left it.
\<close>

datatype stop_waiter = Tests | Sleeps | Left

record frame =
  m_running :: bool
  workers :: "stop_waiter list"
  main_waiter :: stop_waiter
  joined :: nat
  notifiers :: nat

definition frame_init :: "int \<Rightarrow> frame" where
  "frame_init run_thread_count =
     \<lparr> m_running = True,
       workers = (if run_thread_count < 2 then [] else replicate (nat (run_thread_count - 1)) Tests),
       main_waiter = Tests, joined = 0, notifiers = 0 \<rparr>"

definition test_flag :: "frame \<Rightarrow> stop_waiter" where
  "test_flag s = (if m_running s then Sleeps else Left)"

definition wake :: "stop_waiter \<Rightarrow> stop_waiter" where
  "wake w = (if w = Sleeps then Tests else w)"

definition stop_set :: "frame \<Rightarrow> frame" where
  "stop_set s = s\<lparr>m_running := False, notifiers := notifiers s + 1\<rparr>"

definition stop_notify_all :: "frame \<Rightarrow> frame" where
  "stop_notify_all s =
     s\<lparr>workers := map wake (workers s), main_waiter := wake (main_waiter s), notifiers := notifiers s - 1\<rparr>"

text \<open>The steps the frame takes by itself, and the calls of \<open>notify_stop\<close>.\<close>

inductive frame_step :: "frame \<Rightarrow> frame \<Rightarrow> bool" where
  Worker_tests: "i < length (workers s) \<Longrightarrow> workers s ! i = Tests
    \<Longrightarrow> frame_step s (s\<lparr>workers := (workers s)[i := test_flag s]\<rparr>)"
| Main_tests: "main_waiter s = Tests \<Longrightarrow> frame_step s (s\<lparr>main_waiter := test_flag s\<rparr>)"
| Notify_all: "notifiers s > 0 \<Longrightarrow> frame_step s (stop_notify_all s)"
| Join: "main_waiter s = Left \<Longrightarrow> joined s < length (workers s) \<Longrightarrow> workers s ! joined s = Left
    \<Longrightarrow> frame_step s (s\<lparr>joined := joined s + 1\<rparr>)"

inductive frame_or_stop :: "frame \<Rightarrow> frame \<Rightarrow> bool" where
  Own: "frame_step s s' \<Longrightarrow> frame_or_stop s s'"
| Stop: "frame_or_stop s (stop_set s)"

definition wait_returned :: "frame \<Rightarrow> bool" where
  "wait_returned s \<longleftrightarrow> main_waiter s = Left \<and> joined s = length (workers s)"

definition frame_idle :: "frame \<Rightarrow> bool" where
  "frame_idle s \<longleftrightarrow> (\<forall>s'. \<not> frame_step s s')"

section \<open>Stopping\<close>

definition frame_inv :: "frame \<Rightarrow> bool" where
  "frame_inv s \<longleftrightarrow> joined s \<le> length (workers s)
     \<and> (m_running s \<longrightarrow> main_waiter s \<noteq> Left \<and> Left \<notin> set (workers s) \<and> joined s = 0)
     \<and> (\<not> m_running s \<and> notifiers s = 0 \<longrightarrow> main_waiter s \<noteq> Sleeps \<and> Sleeps \<notin> set (workers s))"

lemma wake_iff [simp]: "wake w = Left \<longleftrightarrow> w = Left" "Left = wake w \<longleftrightarrow> w = Left" "wake w \<noteq> Sleeps" "Sleeps \<noteq> wake w"
  by (auto simp: wake_def)

lemma frame_inv_step:
  assumes "frame_inv s" "frame_or_stop s s'"
  shows "frame_inv s'"
  using assms(2)
proof cases
  case Stop
  with assms(1) show ?thesis by (auto simp: frame_inv_def stop_set_def)
next
  case Own
  from Own show ?thesis
  proof cases
    case (Worker_tests i)
    have "set ((workers s)[i := test_flag s]) \<subseteq> insert (test_flag s) (set (workers s))"
      by (rule set_update_subset_insert)
    with Worker_tests assms(1) show ?thesis
      by (auto simp: frame_inv_def test_flag_def split: if_splits)
  next
    case Main_tests
    with assms(1) show ?thesis by (auto simp: frame_inv_def test_flag_def)
  next
    case Notify_all
    with assms(1) show ?thesis by (auto simp: frame_inv_def stop_notify_all_def)
  next
    case Join
    then have "Left \<in> set (workers s)" by (metis nth_mem)
    with Join assms(1) show ?thesis by (auto simp: frame_inv_def)
  qed
qed

interpretation stop_frame: inductive_invariant "\<lambda>s. s = frame_init n" frame_or_stop frame_inv for n
proof
  show "frame_inv s" if "s = frame_init n" for s
    using that by (auto simp: frame_inv_def frame_init_def)
qed (rule frame_inv_step)

lemma idle_returned:
  assumes inv: "frame_inv s" and stop: "\<not> m_running s" and idle: "frame_idle s"
  shows "wait_returned s"
proof -
  have no: "\<not> frame_step s s'" for s' using idle by (simp add: frame_idle_def)
  have n: "notifiers s = 0" using no Notify_all [of s] by auto
  have m: "main_waiter s = Left"
    using no Main_tests [of s] inv stop n by (cases "main_waiter s") (auto simp: frame_inv_def)
  have w: "workers s ! i = Left" if "i < length (workers s)" for i
    using that no Worker_tests [OF that] inv stop n nth_mem [OF that]
    by (cases "workers s ! i") (auto simp: frame_inv_def)
  have "joined s = length (workers s)"
    using no Join [OF m] w [of "joined s"] inv by (auto simp: frame_inv_def le_less)
  with m show ?thesis by (simp add: wait_returned_def)
qed

text \<open>Once the flag is cleared the frame comes to rest: every own step lowers a measure.\<close>

fun waiter_work :: "stop_waiter \<Rightarrow> nat" where
  "waiter_work Sleeps = 2"
| "waiter_work Tests = 1"
| "waiter_work Left = 0"

definition frame_work :: "frame \<Rightarrow> nat" where
  "frame_work s = sum_list (map waiter_work (workers s)) + waiter_work (main_waiter s)
     + notifiers s + (length (workers s) - joined s)"

lemma wake_work: "waiter_work (wake w) \<le> waiter_work w"
  by (cases w) (auto simp: wake_def)

lemma frame_work_step:
  assumes "\<not> m_running s" "frame_step s s'"
  shows "\<not> m_running s' \<and> frame_work s' < frame_work s"
  using assms(2)
proof cases
  case (Worker_tests i)
  with assms(1) sum_list_map_update [of i "workers s" waiter_work Left] show ?thesis
    by (simp add: frame_work_def test_flag_def)
next
  case Notify_all
  have "sum_list (map (waiter_work \<circ> wake) (workers s)) \<le> sum_list (map waiter_work (workers s))"
    by (intro sum_list_mono) (simp add: wake_work)
  with Notify_all assms(1) wake_work [of "main_waiter s"] show ?thesis
    by (simp add: frame_work_def stop_notify_all_def)
qed (use assms(1) in \<open>auto simp: frame_work_def test_flag_def\<close>)

lemma frame_work_bound:
  "(frame_step ^^ k) s t \<Longrightarrow> \<not> m_running s \<Longrightarrow> \<not> m_running t \<and> k + frame_work t \<le> frame_work s"
proof (induction k arbitrary: t)
  case (Suc k)
  then obtain u where "(frame_step ^^ k) s u" "frame_step u t" by auto
  with Suc frame_work_step [of u t] show ?case by fastforce
qed simp

lemma own_steps: "(frame_step ^^ k) s t \<Longrightarrow> frame_or_stop\<^sup>*\<^sup>* s t"
proof (induction k arbitrary: t)
  case (Suc k)
  then obtain u where "(frame_step ^^ k) s u" "frame_step u t" by auto
  with Suc.IH show ?case by (meson Own rtranclp.rtrancl_into_rtrancl)
qed simp

text \<open>
  C40: however the threads, the main thread and the calls of \<open>notify_stop\<close> interleave, \<open>wait\<close>
  returns only after \<open>notify_stop\<close> has been called, and no wake-up is lost: from then on the
  frame takes only a bounded number of steps, and when it can take no more, \<open>wait\<close> has
  returned and every thread has been joined.
\<close>

theorem frame_stops:
  assumes "frame_or_stop\<^sup>*\<^sup>* (frame_init n) s"
  shows "if m_running s then main_waiter s \<noteq> Left \<and> joined s = 0
    else \<forall>k t. (frame_step ^^ k) s t \<longrightarrow> k \<le> frame_work s \<and> (frame_idle t \<longrightarrow> wait_returned t)"
proof -
  have inv: "frame_inv u" if "frame_or_stop\<^sup>*\<^sup>* s u" for u
    using stop_frame.reachable_inv [of "frame_init n" n u] rtranclp_trans [OF assms that] by simp
  have "k \<le> frame_work s \<and> (frame_idle t \<longrightarrow> wait_returned t)"
    if "\<not> m_running s" "(frame_step ^^ k) s t" for k t
    using frame_work_bound [OF that(2,1)] idle_returned [OF inv [OF own_steps [OF that(2)]]] by auto
  with inv [OF rtranclp.rtrancl_refl] show ?thesis by (auto simp: frame_inv_def)
qed

theorem frame_stops_witness:
  "\<exists>s. frame_or_stop\<^sup>*\<^sup>* (frame_init 2) s \<and> \<not> m_running s \<and> frame_work s = 4
     \<and> (\<forall>k t. (frame_step ^^ k) s t \<longrightarrow> k \<le> 4)"
proof -
  let ?s = "stop_set (frame_init 2)"
  have r: "frame_or_stop\<^sup>*\<^sup>* (frame_init 2) ?s" by (rule r_into_rtranclp, rule Stop)
  have w: "\<not> m_running ?s" "frame_work ?s = 4"
    by (simp_all add: stop_set_def frame_init_def frame_work_def)
  then show ?thesis using frame_stops [OF r] r by auto
qed

end
