(* ===== verification/Logger.thy ===== *)
theory Logger
  imports Prelude
begin

text \<open>
  The logging set-up (\<open>common/logger.cpp\<close>): the names of the log files, the text of a record,
  the filter, and the datagram the syslog sink sends. The attributes of a record (time, thread,
  fiber), the decomposition of a path, the end of the last complete character in a piece of text
  (which depends on the locale) and the failures of the socket are arguments. The sinks are those of
  Log_Core.
\<close>

section \<open>Severities\<close>

datatype severity = Trace | Debug | Info | Warning | Error | Fatal

fun severity_number :: "severity \<Rightarrow> nat" where
  "severity_number Trace = 0"
| "severity_number Debug = 1"
| "severity_number Info = 2"
| "severity_number Warning = 3"
| "severity_number Error = 4"
| "severity_number Fatal = 5"

fun severity_text :: "severity \<Rightarrow> string" where
  "severity_text Trace = ''trace''"
| "severity_text Debug = ''debug''"
| "severity_text Info = ''info''"
| "severity_text Warning = ''warning''"
| "severity_text Error = ''error''"
| "severity_text Fatal = ''fatal''"

definition passes_filter :: "severity \<Rightarrow> severity \<Rightarrow> bool" where
  "passes_filter filter_level s \<longleftrightarrow> severity_number filter_level \<le> severity_number s"

text \<open>
  The map of \<open>add_syslogging\<close>; a severity it does not list has the default of
  \<open>custom_severity_mapping\<close>, which is \<open>info\<close>.
\<close>

fun syslog_mapping :: "severity \<Rightarrow> nat" where
  "syslog_mapping Debug = 7"
| "syslog_mapping Info = 6"
| "syslog_mapping Warning = 4"
| "syslog_mapping Error = 3"
| "syslog_mapping Fatal = 2"
| "syslog_mapping Trace = 6"

section \<open>The text of a record\<close>

text \<open>
  The string buffer of the formatting stream keeps its text below a size (that a string can have at
  all). \<open>boundary s n\<close> is the length of the longest beginning of \<open>s\<close>, of at most \<open>n\<close> bytes, that consists of
  complete characters of the stream's locale: \<open>length_until_boundary\<close>, which asks the locale.
  Appending too long a text cuts it there and sets the overflow flag; lowering the size
  cuts the text that is stored.
\<close>

definition sstream_append ::
  "(string \<Rightarrow> nat \<Rightarrow> nat) \<Rightarrow> nat \<Rightarrow> string \<Rightarrow> string \<Rightarrow> string \<times> bool" where
  "sstream_append boundary max_size storage s =
     (let left = max_size - length storage
      in if length s \<le> left then (storage @ s, False) else (storage @ take (boundary s left) s, True))"

definition ensure_max_size :: "(string \<Rightarrow> nat \<Rightarrow> nat) \<Rightarrow> nat \<Rightarrow> string \<Rightarrow> string" where
  "ensure_max_size boundary max_size storage =
     (if length storage > max_size then take (boundary storage max_size) storage else storage)"

text \<open>
  \<open>max_size_decor\<close> writes a message behind what is stored. A message that is too long is cut, cut
  again to make room for the marker, and ended with it.
\<close>

definition max_size_decor :: "(string \<Rightarrow> nat \<Rightarrow> nat) \<Rightarrow> nat \<Rightarrow> string \<Rightarrow> string \<Rightarrow> string \<Rightarrow> string" where
  "max_size_decor boundary limit marker storage msg =
     (let max_size = length storage + limit;
          (text, overflow) = sstream_append boundary max_size storage msg
      in if overflow
         then if marker \<noteq> [] then ensure_max_size boundary (max_size - length marker) text @ marker else text
         else text)"

definition record_head :: "string \<Rightarrow> severity \<Rightarrow> string \<Rightarrow> string \<Rightarrow> string" where
  "record_head ts sev pid fid =
     ''['' @ ts @ '']'' @ ''['' @ severity_text sev @ '']'' @ ''['' @ pid @ '']'' @ ''['' @ fid @ '']'' @ '' ''"

definition format_record ::
  "(string \<Rightarrow> nat \<Rightarrow> nat) \<Rightarrow> string \<Rightarrow> severity \<Rightarrow> string \<Rightarrow> string \<Rightarrow> string \<Rightarrow> string" where
  "format_record boundary ts sev pid fid msg =
     max_size_decor boundary (1024 * 50) ''>>>'' (record_head ts sev pid fid) msg"

definition format_syslog_record :: "string \<Rightarrow> severity \<Rightarrow> string \<Rightarrow> string \<Rightarrow> string \<Rightarrow> string" where
  "format_syslog_record ts sev pid fid msg = record_head ts sev pid fid @ msg"

definition log_file_name :: "string \<Rightarrow> string \<Rightarrow> string \<Rightarrow> string" where
  "log_file_name parent_path stem extension_name = parent_path @ ''/'' @ stem @ ''_%6N'' @ extension_name"

section \<open>The datagram\<close>

text \<open>The conversions of \<open>printf\<close> that the format uses.\<close>

definition fmt_d :: "int \<Rightarrow> string" where
  "fmt_d n = (if n < 0 then ''-'' @ nat_dec (nat (- n)) else nat_dec (nat n))"

definition fmt_4d :: "int \<Rightarrow> string" where
  "fmt_4d n = replicate (4 - length (fmt_d n)) (CHR '' '') @ fmt_d n"

definition fmt_02d :: "int \<Rightarrow> string" where
  "fmt_02d n = (if n < 0 then fmt_d n else replicate (2 - length (fmt_d n)) (CHR ''0'') @ fmt_d n)"

record tm =
  tm_year :: int
  tm_mon :: int
  tm_mday :: int
  tm_hour :: int
  tm_min :: int
  tm_sec :: int

record syslog_backend =
  m_local_hostname :: string
  m_process_name :: string
  m_process_id :: string
  m_msg_id :: string
  m_facility :: nat

text \<open>\<open>set_target_address\<close> fills the names in; an empty name becomes the nil value.\<close>

definition set_target_address :: "string \<Rightarrow> string \<Rightarrow> string \<Rightarrow> syslog_backend" where
  "set_target_address process_name process_id host_name =
     \<lparr> m_local_hostname = (if host_name = [] then ''-'' else host_name),
       m_process_name = (if process_name = [] then ''-'' else process_name),
       m_process_id = process_id, m_msg_id = ''-'', m_facility = 8 \<rparr>"

definition syslog_text :: "syslog_backend \<Rightarrow> nat \<Rightarrow> tm \<Rightarrow> string \<Rightarrow> string" where
  "syslog_text b lev t msg =
     ''<'' @ fmt_d (int (or (m_facility b) lev)) @ ''>1 '' @ fmt_4d (tm_year t + 1900) @ ''-''
     @ fmt_02d (tm_mon t + 1) @ ''-'' @ fmt_02d (tm_mday t) @ ''T'' @ fmt_02d (tm_hour t) @ '':''
     @ fmt_02d (tm_min t) @ '':'' @ fmt_02d (tm_sec t) @ '' '' @ c_str (m_local_hostname b) @ '' ''
     @ c_str (m_process_name b) @ '' '' @ c_str (m_process_id b) @ '' '' @ c_str (m_msg_id b)
     @ '' - '' @ c_str msg"

text \<open>
  \<open>snprintf\<close> into a buffer of 2048 bytes returns the length of the whole text (negative when it
  does not fit an \<open>int\<close>) and stores what fits, with a terminating null; \<open>send\<close> sends what is
  stored, without the null.
\<close>

definition snprintf_packet :: "string \<Rightarrow> int \<times> string" where
  "snprintf_packet s = (if length s < 2 ^ 31 then (int (length s), take 2047 s) else (- 1, []))"

text \<open>
  \<open>send_to\<close> throws when the datagram cannot be sent; the argument of that name gives the
  exception, if any. The result is the datagram that was sent, if any.
\<close>

definition syslog_send ::
  "(string \<Rightarrow> 'e option) \<Rightarrow> syslog_backend \<Rightarrow> nat \<Rightarrow> tm \<Rightarrow> string \<Rightarrow> 'e + string option" where
  "syslog_send send_to b lev t msg =
     (case snprintf_packet (syslog_text b lev t msg) of (n, packet) \<Rightarrow>
        if n > 0
        then let datagram = take (if nat n \<ge> 2048 then 2048 - 1 else nat n) packet
             in case send_to datagram of Some e \<Rightarrow> Inl e | None \<Rightarrow> Inr (Some datagram)
        else Inr None)"

definition syslog_consume ::
  "(string \<Rightarrow> 'e option) \<Rightarrow> syslog_backend \<Rightarrow> severity \<Rightarrow> tm \<Rightarrow> string \<Rightarrow> 'e + string option" where
  "syslog_consume send_to b sev t msg = syslog_send send_to b (syslog_mapping sev) t msg"

section \<open>Results\<close>

text \<open>
  A message within the limit is written as it is; of a longer one a beginning is written,
  followed by the marker, within the limit.
\<close>

lemma max_size_decor_short:
  "length msg \<le> limit \<Longrightarrow> max_size_decor boundary limit marker storage msg = storage @ msg"
  by (simp add: max_size_decor_def sstream_append_def)

lemma max_size_decor_long:
  assumes boundary: "\<And>s n. boundary s n \<le> n" and "limit < length msg" and "marker \<noteq> []" and "length marker \<le> limit"
  shows "\<exists>k \<le> length storage + (limit - length marker).
    max_size_decor boundary limit marker storage msg = take k (storage @ msg) @ marker"
proof -
  let ?text = "storage @ take (boundary msg limit) msg" and ?m = "length storage + limit - length marker"
  define j where "j = length storage + boundary msg limit"
  have beg: "?text = take j (storage @ msg)" by (simp add: j_def)
  have len: "length ?text = j" using boundary [of msg limit] assms(2) by (simp add: j_def)
  have "ensure_max_size boundary ?m ?text = take (if j > ?m then boundary ?text ?m else j) (storage @ msg)"
  proof (cases "j > ?m")
    case True
    have "boundary ?text ?m \<le> j" using boundary [of ?text ?m] True by simp
    then have "take (boundary ?text ?m) ?text = take (boundary ?text ?m) (storage @ msg)"
      unfolding beg by (simp only: take_take min.absorb1)
    with True len show ?thesis by (simp only: ensure_max_size_def if_True)
  next
    case False
    then show ?thesis using len beg by (simp only: ensure_max_size_def if_False)
  qed
  moreover have "(if j > ?m then boundary ?text ?m else j) \<le> ?m"
    using boundary [of ?text ?m] by simp
  moreover have "max_size_decor boundary limit marker storage msg = ensure_max_size boundary ?m ?text @ marker"
    using assms(2,3) by (simp add: max_size_decor_def sstream_append_def)
  ultimately show ?thesis
    using assms(4) by (metis Nat.add_diff_assoc)
qed

lemma record_shape:
  assumes "\<And>s n. boundary s n \<le> n"
  shows "if length msg \<le> 51200
    then format_record boundary ts sev pid fid msg = record_head ts sev pid fid @ msg
    else \<exists>k \<le> length (record_head ts sev pid fid) + 51197.
      format_record boundary ts sev pid fid msg = take k (record_head ts sev pid fid @ msg) @ ''>>>''"
  using max_size_decor_short [of msg 51200 boundary "''>>>''" "record_head ts sev pid fid"]
    max_size_decor_long [of boundary 51200 msg "''>>>''" "record_head ts sev pid fid", OF assms]
  by (simp add: format_record_def)

text \<open>A log path without a directory puts the log files into the root directory.\<close>

lemma log_file_in_root: "log_file_name '''' stem ext = ''/'' @ stem @ ''_%6N'' @ ext"
  by (simp add: log_file_name_def)

lemma syslog_priority: "or (8::nat) (syslog_mapping sev) = 8 + syslog_mapping sev"
  by (cases sev) simp_all

lemma syslog_consume_packet:
  assumes "length (syslog_text (set_target_address name pid host) (syslog_mapping sev) t msg) < 2 ^ 31"
    and "packet = take 2047 (syslog_text (set_target_address name pid host) (syslog_mapping sev) t msg)"
  shows "syslog_consume send_to (set_target_address name pid host) sev t msg
    = (case send_to packet of Some e \<Rightarrow> Inl e | None \<Rightarrow> Inr (Some packet))"
proof -
  let ?s = "syslog_text (set_target_address name pid host) (syslog_mapping sev) t msg"
  have "0 < length ?s" by (simp add: syslog_text_def)
  moreover have "take (if nat (int (length ?s)) \<ge> 2048 then 2048 - 1 else nat (int (length ?s))) (take 2047 ?s) = packet"
    using assms(2) by (simp add: min_def)
  ultimately show ?thesis
    using assms(1)
    by (simp only: syslog_consume_def syslog_send_def snprintf_packet_def Let_def if_True prod.case of_nat_0_less_iff)
qed

text \<open>
  The syslog sink sends, for every record it consumes (whose text fits an \<open>int\<close>), one
  datagram, unless sending throws: the RFC 5424 text cut after 2047 bytes. It begins with the priority in decimal
  between angle brackets, from which the facility \<open>user\<close> (1) and the severity of the record
  can be read back, and the version 1.
\<close>

lemma syslog_datagram:
  assumes "length (syslog_text (set_target_address name pid host) (syslog_mapping sev) t msg) < 2 ^ 31"
  shows "\<exists>pri packet rest. syslog_consume send_to (set_target_address name pid host) sev t msg
        = (case send_to packet of Some e \<Rightarrow> Inl e | None \<Rightarrow> Inr (Some packet))
    \<and> packet = take 2047 (syslog_text (set_target_address name pid host) (syslog_mapping sev) t msg)
    \<and> packet = ''<'' @ nat_dec pri @ ''>1 '' @ rest
    \<and> pri div 8 = 1 \<and> pri mod 8 = syslog_mapping sev"
proof -
  let ?b = "set_target_address name pid host"
  let ?s = "syslog_text ?b (syslog_mapping sev) t msg"
  let ?pri = "8 + syslog_mapping sev"
  have lev: "syslog_mapping sev < 8" by (cases sev) auto
  have "\<exists>rest. ?s = ''<'' @ nat_dec ?pri @ ''>1 '' @ rest"
    by (simp add: syslog_text_def fmt_d_def set_target_address_def syslog_priority nat_add_distrib)
  then obtain rest where s: "?s = ''<'' @ nat_dec ?pri @ ''>1 '' @ rest" by blast
  have short: "length (nat_dec ?pri) \<le> 2"
    by (cases sev) (simp_all add: nat_dec.simps)
  have "syslog_consume send_to ?b sev t msg
      = (case send_to (take 2047 ?s) of Some e \<Rightarrow> Inl e | None \<Rightarrow> Inr (Some (take 2047 ?s)))"
    using assms by (intro syslog_consume_packet) simp_all
  moreover have "take 2047 ?s = ''<'' @ nat_dec ?pri @ ''>1 '' @ take (2047 - (length (nat_dec ?pri) + 4)) rest"
    unfolding s using short by (simp add: take_Cons')
  ultimately show ?thesis
    using lev by (intro exI [of _ ?pri] exI [of _ "take 2047 ?s"] exI conjI) simp_all
qed

lemma syslog_datagram_example:
  "\<exists>pri packet rest.
     syslog_consume (\<lambda>d. None) (set_target_address ''jkit'' ''42'' [])
       Error \<lparr> tm_year = 124, tm_mon = 0, tm_mday = 9, tm_hour = 1, tm_min = 2, tm_sec = 3 \<rparr> ''boom''
       = (Inr (Some packet) :: unit + string option)
     \<and> packet = ''<'' @ nat_dec pri @ ''>1 '' @ rest \<and> pri div 8 = 1 \<and> pri mod 8 = 3"
proof -
  let ?t = "\<lparr> tm_year = 124, tm_mon = 0, tm_mday = 9, tm_hour = 1, tm_min = 2, tm_sec = 3 \<rparr>"
  have "length (syslog_text (set_target_address ''jkit'' ''42'' []) (syslog_mapping Error) ?t ''boom'') = 44"
    by code_simp
  then show ?thesis
    using syslog_datagram [of "''jkit''" "''42''" "[]" Error ?t "''boom''" "\<lambda>d. None :: unit option"] by auto
qed

end
