(* ===== verification/Log_Core.thy ===== *)
theory Log_Core
  imports Logger "HOL-Library.Multiset"
begin

text \<open>
  The logging core (\<open>common/logger.cpp\<close>, \<open>common/logger.h\<close>): the sinks that \<open>init_logging\<close> and
  \<open>add_syslogging\<close> register, in the order in which other threads can see the changes, and the
  functions that write a record. The logging library is seen through its headers and its
  documented behaviour: a record is opened when a sink accepts its severity, its text is streamed
  only then, and it is dropped when streaming throws; no exception handler is installed, so an
  exception of a sink is passed on to the caller. The core itself, which pushes a record to the
  sinks, is not among the sources: it is an argument, with what its documentation says as a
  hypothesis. The decomposition of paths, the parser of addresses, \<open>boost::format\<close> and the failures
  of files, console and sockets are arguments too. The file operations of \<open>init_logging\<close> itself are
  taken to succeed, and the sinks are the synchronous ones.
\<close>

section \<open>Sinks\<close>

datatype formatter = Decorated_record | Syslog_record

record file_backend =
  file_name :: string
  rotation_size :: nat
  file_auto_flush :: bool
  collector_target :: string
  max_size :: nat
  min_free_space :: nat

datatype 'a backend =
    File_backend file_backend
  | Console_backend bool
  | Syslog_udp_backend syslog_backend 'a nat

text \<open>A sink without a filter accepts every record, one without a formatter writes the message.\<close>

record 'a sink =
  sink_backend :: "'a backend"
  sink_filter :: "severity option"
  sink_formatter :: "formatter option"

record 'a core =
  global_attributes :: "string list"
  core_sinks :: "'a sink list"

definition empty_core :: "'a core" where
  "empty_core = \<lparr> global_attributes = [], core_sinks = [] \<rparr>"

definition add_global_attribute :: "string \<Rightarrow> 'a core \<Rightarrow> 'a core" where
  "add_global_attribute a c =
     (if a \<in> set (global_attributes c) then c
      else c\<lparr> global_attributes := global_attributes c @ [a] \<rparr>)"

definition add_sink :: "'a backend \<Rightarrow> 'a core \<Rightarrow> 'a core" where
  "add_sink b c = c\<lparr> core_sinks := core_sinks c @
     [\<lparr> sink_backend = b, sink_filter = None, sink_formatter = None \<rparr>] \<rparr>"

definition update_sink :: "nat \<Rightarrow> ('a sink \<Rightarrow> 'a sink) \<Rightarrow> 'a core \<Rightarrow> 'a core" where
  "update_sink i f c = c\<lparr> core_sinks := (core_sinks c)[i := f (core_sinks c ! i)] \<rparr>"

definition set_filter :: "nat \<Rightarrow> severity \<Rightarrow> 'a core \<Rightarrow> 'a core" where
  "set_filter i l = update_sink i (\<lambda>s. s\<lparr> sink_filter := Some l \<rparr>)"

definition set_formatter :: "nat \<Rightarrow> formatter \<Rightarrow> 'a core \<Rightarrow> 'a core" where
  "set_formatter i f = update_sink i (\<lambda>s. s\<lparr> sink_formatter := Some f \<rparr>)"

section \<open>The set-up\<close>

record path_parts =
  parent_path :: string
  stem :: string
  extension_name :: string

definition log_file_backend :: "path_parts \<Rightarrow> file_backend" where
  "log_file_backend p =
     \<lparr> file_name = log_file_name (parent_path p) (stem p) (extension_name p),
       rotation_size = 50 * 1024 * 1024, file_auto_flush = True,
       collector_target = parent_path p, max_size = 5 * 1024 * 1024 * 1024,
       min_free_space = 100 * 1024 * 1024 \<rparr>"

text \<open>
  The attributes that \<open>add_common_attributes\<close> registers, then the two of the program. Each
  element of the list is a change of the core that a record written meanwhile can see: the
  sinks are added before their filters and formatters are set.
\<close>

definition init_logging_steps ::
  "bool \<Rightarrow> (string \<Rightarrow> path_parts) \<Rightarrow> string \<Rightarrow> severity \<Rightarrow> nat \<Rightarrow> ('a core \<Rightarrow> 'a core) list" where
  "init_logging_steps forbidden_auto_flush path log_path filter_level n =
     [ add_global_attribute ''LineID'', add_global_attribute ''TimeStamp'',
       add_global_attribute ''ProcessID'', add_global_attribute ''ThreadID'',
       add_global_attribute ''ThreadPID'', add_global_attribute ''FiberID'',
       add_sink (File_backend (log_file_backend (path log_path))),
       set_filter n filter_level, set_formatter n Decorated_record,
       add_sink (Console_backend (\<not> forbidden_auto_flush)),
       set_filter (Suc n) filter_level, set_formatter (Suc n) Decorated_record ]"

definition init_logging ::
  "bool \<Rightarrow> (string \<Rightarrow> path_parts) \<Rightarrow> string \<Rightarrow> severity \<Rightarrow> 'a core \<Rightarrow> 'a core" where
  "init_logging forbidden_auto_flush path log_path filter_level c =
     fold (\<lambda>f. f) (init_logging_steps forbidden_auto_flush path log_path filter_level
                     (length (core_sinks c))) c"

text \<open>
  \<open>add_syslogging\<close> passes its \<open>int\<close> port as an \<open>unsigned short\<close>. An address that does not parse, and
  a socket that cannot be opened, throw before the sink is added.
\<close>

record identity =
  process_name :: string
  process_id :: string
  host_name :: string

definition port_of_int :: "int \<Rightarrow> nat" where
  "port_of_int p = nat (p mod 65536)"

definition add_syslogging ::
  "(string \<Rightarrow> 'e + 'a) \<Rightarrow> ('a \<Rightarrow> 'e option) \<Rightarrow> identity \<Rightarrow> string \<Rightarrow> int \<Rightarrow> severity \<Rightarrow> 'a core \<Rightarrow> 'e + 'a core" where
  "add_syslogging from_string open_socket me ip port filter_level c =
     bind_res (from_string ip) (\<lambda>addr.
     case open_socket addr of
       Some e \<Rightarrow> Inl e
     | None \<Rightarrow>
         let b = set_target_address (process_name me) (process_id me) (host_name me);
             n = length (core_sinks c)
         in Inr (set_formatter n Syslog_record (set_filter n filter_level
                  (add_sink (Syslog_udp_backend b addr (port_of_int port)) c))))"

section \<open>Writing a record\<close>

record attributes =
  time_stamp :: string
  thread_pid :: string
  fiber_id :: string
  now :: tm

datatype 'a delivery =
    To_file string string
  | To_console string
  | To_syslog 'a nat string
  | To_default severity string

text \<open>
  What the program runs on: the boundaries of the characters of the locale, the operations that
  fail, with their exception, and the core's way of pushing a record to the sinks that accepted
  it, given what each sink does with it (the list is what has been delivered so far).
\<close>

record ('a, 'e) platform =
  char_boundary :: "string \<Rightarrow> nat \<Rightarrow> nat"
  io_error :: "'a delivery \<Rightarrow> 'e option"
  push_to_sinks :: "('a sink \<Rightarrow> 'e + 'a delivery list) \<Rightarrow> 'a sink list \<Rightarrow> 'a delivery list \<times> 'e option"

definition will_consume :: "severity \<Rightarrow> 'a sink \<Rightarrow> bool" where
  "will_consume sev s = (case sink_filter s of None \<Rightarrow> True | Some l \<Rightarrow> passes_filter l sev)"

definition sink_text ::
  "('a, 'e) platform \<Rightarrow> attributes \<Rightarrow> severity \<Rightarrow> string \<Rightarrow> 'a sink \<Rightarrow> string" where
  "sink_text env a sev msg s =
     (case sink_formatter s of
        None \<Rightarrow> msg
      | Some Decorated_record \<Rightarrow>
          format_record (char_boundary env) (time_stamp a) sev (thread_pid a) (fiber_id a) msg
      | Some Syslog_record \<Rightarrow> format_syslog_record (time_stamp a) sev (thread_pid a) (fiber_id a) msg)"

definition attempt :: "('a, 'e) platform \<Rightarrow> 'a delivery \<Rightarrow> 'e + 'a delivery list" where
  "attempt env d = (case io_error env d of Some e \<Rightarrow> Inl e | None \<Rightarrow> Inr [d])"

text \<open>
  \<open>feed_record\<close>: the record is formatted and handed to the backend; no exception handler is set,
  so an exception of the backend is thrown on.
\<close>

definition sink_consume ::
  "('a, 'e) platform \<Rightarrow> attributes \<Rightarrow> severity \<Rightarrow> string \<Rightarrow> 'a sink \<Rightarrow> 'e + 'a delivery list" where
  "sink_consume env a sev msg s =
     (case sink_backend s of
        File_backend f \<Rightarrow> attempt env (To_file (file_name f) (sink_text env a sev msg s))
      | Console_backend _ \<Rightarrow> attempt env (To_console (sink_text env a sev msg s))
      | Syslog_udp_backend b addr port \<Rightarrow>
          bind_res (syslog_consume (\<lambda>packet. io_error env (To_syslog addr port packet)) b sev (now a)
                     (sink_text env a sev msg s))
            (\<lambda>sent. Inr (case sent of None \<Rightarrow> [] | Some packet \<Rightarrow> [To_syslog addr port packet])))"

text \<open>A core without sinks uses the default sink of the library.\<close>

definition record_opens :: "severity \<Rightarrow> 'a core \<Rightarrow> bool" where
  "record_opens sev c \<longleftrightarrow> core_sinks c = [] \<or> list_ex (will_consume sev) (core_sinks c)"

definition push_record ::
  "('a, 'e) platform \<Rightarrow> attributes \<Rightarrow> severity \<Rightarrow> string \<Rightarrow> 'a core \<Rightarrow> 'a delivery list \<times> 'e option" where
  "push_record env a sev msg c =
     (if core_sinks c = []
      then case attempt env (To_default sev msg) of Inl e \<Rightarrow> ([], Some e) | Inr ds \<Rightarrow> (ds, None)
      else push_to_sinks env (sink_consume env a sev msg) (filter (will_consume sev) (core_sinks c)))"

text \<open>A call gives what it delivered and the exception it ended with, if any.\<close>

definition log_trivial ::
  "severity \<Rightarrow> 'e + string \<Rightarrow> ('a, 'e) platform \<Rightarrow> attributes \<Rightarrow> 'a core \<Rightarrow> 'a delivery list \<times> 'e option" where
  "log_trivial sev streamed env a c =
     (if record_opens sev c
      then case streamed of Inl e \<Rightarrow> ([], Some e) | Inr msg \<Rightarrow> push_record env a sev msg c
      else ([], None))"

definition log_prefix :: "string \<Rightarrow> int \<Rightarrow> 'e + string \<Rightarrow> 'e + string" where
  "log_prefix file line text =
     bind_res text (\<lambda>t. Inr (file @ '',line '' @ fmt_d line @ '','' @ t))"

definition log_trace where
  "log_trace format fmt args = log_trivial Trace (format fmt args)"

definition log_debug where
  "log_debug format fmt args = log_trivial Debug (format fmt args)"

definition log_info where
  "log_info format fmt args = log_trivial Info (format fmt args)"

definition log_warning where
  "log_warning format fmt args = log_trivial Warning (format fmt args)"

definition log_warning_prefix where
  "log_warning_prefix format file line fmt args =
     log_trivial Warning (log_prefix file line (format fmt args))"

definition log_error where
  "log_error format fmt args = log_trivial Error (format fmt args)"

definition log_error_with_prefix where
  "log_error_with_prefix format file line fmt args =
     log_trivial Error (log_prefix file line (format fmt args))"

definition log_fatal where
  "log_fatal format fmt args = log_trivial Fatal (format fmt args)"

definition log_fatal_prefix where
  "log_fatal_prefix format file line fmt args =
     log_trivial Fatal (log_prefix file line (format fmt args))"

text \<open>The functions with the severity and the prefix that their names promise.\<close>

definition log_functions where
  "log_functions format file line =
     [(Trace, '''', log_trace format), (Debug, '''', log_debug format), (Info, '''', log_info format),
      (Warning, '''', log_warning format), (Error, '''', log_error format), (Fatal, '''', log_fatal format),
      (Warning, file @ '',line '' @ fmt_d line @ '','', log_warning_prefix format file line),
      (Error, file @ '',line '' @ fmt_d line @ '','', log_error_with_prefix format file line),
      (Fatal, file @ '',line '' @ fmt_d line @ '','', log_fatal_prefix format file line)]"

lemmas log_function_defs =
  log_trace_def log_debug_def log_info_def log_warning_def log_error_def log_fatal_def
  log_warning_prefix_def log_error_with_prefix_def log_fatal_prefix_def

section \<open>The core after the set-up\<close>

lemma update_last_sink [simp]:
  "length (core_sinks c) = n \<Longrightarrow>
     update_sink n f (add_sink b c) = c\<lparr> core_sinks := core_sinks c @
       [f \<lparr> sink_backend = b, sink_filter = None, sink_formatter = None \<rparr>] \<rparr>"
  by (auto simp: update_sink_def add_sink_def nth_append)

lemma update_appended_sink [simp]:
  "length ss = n \<Longrightarrow>
     update_sink n f (c\<lparr> core_sinks := ss @ [s] \<rparr>) = c\<lparr> core_sinks := ss @ [f s] \<rparr>"
  by (auto simp: update_sink_def nth_append)

lemma sinks_add_global_attribute [simp]: "core_sinks (add_global_attribute a c) = core_sinks c"
  by (simp add: add_global_attribute_def)

definition init_sinks :: "bool \<Rightarrow> path_parts \<Rightarrow> severity \<Rightarrow> 'a sink list" where
  "init_sinks forbidden_auto_flush p l =
     [\<lparr> sink_backend = File_backend (log_file_backend p), sink_filter = Some l,
        sink_formatter = Some Decorated_record \<rparr>,
      \<lparr> sink_backend = Console_backend (\<not> forbidden_auto_flush), sink_filter = Some l,
        sink_formatter = Some Decorated_record \<rparr>]"

lemma init_logging_sinks:
  "core_sinks (init_logging fb path p l c) = core_sinks c @ init_sinks fb (path p) l"
  by (simp add: init_logging_def init_logging_steps_def set_filter_def set_formatter_def init_sinks_def
      update_sink_def add_sink_def nth_append list_update_append)

lemma add_syslogging_sinks:
  "add_syslogging from_string open_socket me ip port l c = Inr c' \<Longrightarrow>
     \<exists>addr. from_string ip = Inr addr \<and> open_socket addr = None \<and> core_sinks c' = core_sinks c @
       [\<lparr> sink_backend = Syslog_udp_backend
            (set_target_address (process_name me) (process_id me) (host_name me)) addr (port_of_int port),
          sink_filter = Some l, sink_formatter = Some Syslog_record \<rparr>]"
  by (auto simp: add_syslogging_def set_filter_def set_formatter_def Let_def bind_res_def
      split: sum.splits option.splits)

text \<open>
  When the address does not parse or the socket cannot be opened, the call throws that error, and
  the core is as it was.
\<close>

lemma add_syslogging_throws:
  "add_syslogging from_string open_socket me ip port l c = Inl e \<longleftrightarrow>
     from_string ip = Inl e \<or> (\<exists>addr. from_string ip = Inr addr \<and> open_socket addr = Some e)"
  by (auto simp: add_syslogging_def Let_def bind_res_def split: sum.splits option.splits)

text \<open>The second call of \<open>init_logging\<close> adds its sinks again, so every record is written twice.\<close>

lemma init_logging_twice:
  "core_sinks (init_logging fb path p l (init_logging fb path p l empty_core))
     = init_sinks fb (path p) l @ init_sinks fb (path p) l"
  by (simp add: init_logging_sinks empty_core_def)

text \<open>
  What the documentation of the core promises: the record is pushed to each of the sinks, in an
  order of the core's choice, and without an exception handler the first exception ends the call.
\<close>

fun feed :: "('s \<Rightarrow> 'e + 'd list) \<Rightarrow> 's list \<Rightarrow> 'd list \<times> 'e option" where
  "feed f [] = ([], None)"
| "feed f (s # ss) =
     (case f s of
        Inl e \<Rightarrow> ([], Some e)
      | Inr ds \<Rightarrow> (case feed f ss of (ds', x) \<Rightarrow> (ds @ ds', x)))"

definition core_law :: "('a, 'e) platform \<Rightarrow> bool" where
  "core_law env \<longleftrightarrow> (\<forall>f ss. \<exists>ss'. mset ss' = mset ss \<and> push_to_sinks env f ss = feed f ss')"

text \<open>
  A record that another thread writes after the file sink has been added and before its filter
  has been set goes to the file whatever its severity, without time stamp or severity.
\<close>

lemma init_logging_window:
  assumes "core_law env" and "io_error env (To_file (file_name (log_file_backend (path p))) msg) = None"
  shows "push_record env a sev msg (fold (\<lambda>f. f) (take 7 (init_logging_steps fb path p l 0)) empty_core)
     = ([To_file (file_name (log_file_backend (path p))) msg], None)"
proof -
  let ?s = "\<lparr> sink_backend = File_backend (log_file_backend (path p)), sink_filter = None, sink_formatter = None \<rparr>"
  have "push_to_sinks env f [?s] = feed f [?s]" for f
  proof -
    obtain ss' where "mset ss' = mset [?s]" "push_to_sinks env f [?s] = feed f ss'"
      using assms(1) unfolding core_law_def by blast
    moreover from this(1) have "ss' = [?s]" by simp
    ultimately show ?thesis by simp
  qed
  then show ?thesis
    using assms(2)
    by (simp add: init_logging_steps_def push_record_def add_sink_def empty_core_def add_global_attribute_def
        will_consume_def sink_consume_def sink_text_def attempt_def)
qed

lemma log_function_trivial:
  assumes "(sev, pre, log) \<in> set (log_functions format file line)"
  shows "log fmt args = log_trivial sev (bind_res (format fmt args) (\<lambda>t. Inr (pre @ t)))"
proof -
  have [simp]: "bind_res r Inr = r" for r :: "'e + string"
    by (cases r) (simp_all add: bind_res_def)
  show ?thesis
    using assms by (auto simp: log_functions_def log_function_defs log_prefix_def fun_eq_iff)
qed

section \<open>What a call writes\<close>

text \<open>
  The reference: operations attempted one after the other, the first that fails ends with its
  exception.
\<close>

fun deliver :: "('d \<Rightarrow> 'e option) \<Rightarrow> 'd list \<Rightarrow> 'd list \<times> 'e option" where
  "deliver err [] = ([], None)"
| "deliver err (d # ds) =
     (case err d of
        Some e \<Rightarrow> ([], Some e)
      | None \<Rightarrow> (case deliver err ds of (ds', x) \<Rightarrow> (d # ds', x)))"

lemma deliver_ok: "(\<And>d. d \<in> set ds \<Longrightarrow> err d = None) \<Longrightarrow> deliver err ds = (ds, None)"
  by (induction ds) simp_all

lemma deliver_fails:
  "x \<in> set ds \<Longrightarrow> err x = Some e \<Longrightarrow> (\<And>d e'. d \<in> set ds \<Longrightarrow> err d = Some e' \<Longrightarrow> e' = e) \<Longrightarrow>
     snd (deliver err ds) = Some e"
proof (induction ds)
  case (Cons d ds)
  show ?case
  proof (cases "err d")
    case None
    with Cons.prems have "x \<in> set ds" by auto
    then have "snd (deliver err ds) = Some e"
      using Cons.prems by (intro Cons.IH) auto
    then show ?thesis using None by (cases "deliver err ds") simp
  next
    case (Some e')
    then have "e' = e" using Cons.prems(3) [of d e'] by simp
    then show ?thesis using Some by simp
  qed
qed simp

lemma feed_deliver:
  assumes "\<And>s. s \<in> set ss \<Longrightarrow> f s = (case err (g s) of Some e \<Rightarrow> Inl e | None \<Rightarrow> Inr [g s])"
  shows "feed f ss = deliver err (map g ss)"
  using assms by (induction ss) (simp_all split: option.splits prod.splits)

lemma push_deliver:
  assumes "core_law env"
    and "\<And>s. s \<in> set ss \<Longrightarrow> f s = (case io_error env (g s) of Some e \<Rightarrow> Inl e | None \<Rightarrow> Inr [g s])"
  shows "\<exists>ds. mset ds = mset (map g ss) \<and> push_to_sinks env f ss = deliver (io_error env) ds"
proof -
  obtain ss' where ss': "mset ss' = mset ss" "push_to_sinks env f ss = feed f ss'"
    using assms(1) unfolding core_law_def by blast
  have "set ss' = set ss" using ss'(1) by (rule mset_eq_setD)
  then have "feed f ss' = deliver (io_error env) (map g ss')"
    using assms(2) by (intro feed_deliver) blast
  then show ?thesis using ss' by (intro exI [of _ "map g ss'"]) simp
qed

lemma init_sinks_open: "list_ex (will_consume sev) (init_sinks fb p l) \<longleftrightarrow> passes_filter l sev"
  by (simp add: init_sinks_def will_consume_def)

lemma init_sinks_nonempty [simp]: "init_sinks fb p l \<noteq> []"
  by (simp add: init_sinks_def)

text \<open>
  What a sink of the program attempts to deliver, given the line for file and console and the
  datagram.
\<close>

definition sink_delivery :: "string \<Rightarrow> string \<Rightarrow> 'a sink \<Rightarrow> 'a delivery" where
  "sink_delivery line datagram s =
     (case sink_backend s of
        File_backend f \<Rightarrow> To_file (file_name f) line
      | Console_backend _ \<Rightarrow> To_console line
      | Syslog_udp_backend b addr port \<Rightarrow> To_syslog addr port datagram)"

lemma sink_consume_program:
  assumes sinks: "s \<in> set (init_sinks fb p l1) \<or> s =
      \<lparr> sink_backend = Syslog_udp_backend (set_target_address name pid host) addr port,
        sink_filter = Some l2, sink_formatter = Some Syslog_record \<rparr>"
    and line: "line = format_record (char_boundary env) (time_stamp a) sev (thread_pid a) (fiber_id a) msg"
    and datagram: "datagram = take 2047 (syslog_text (set_target_address name pid host) (syslog_mapping sev) (now a)
          (record_head (time_stamp a) sev (thread_pid a) (fiber_id a) @ msg))"
    and short: "length (syslog_text (set_target_address name pid host) (syslog_mapping sev) (now a)
          (record_head (time_stamp a) sev (thread_pid a) (fiber_id a) @ msg)) < 2 ^ 31"
  shows "sink_consume env a sev msg s =
    (case io_error env (sink_delivery line datagram s) of
       Some e \<Rightarrow> Inl e | None \<Rightarrow> Inr [sink_delivery line datagram s])"
  using sinks
proof
  assume "s \<in> set (init_sinks fb p l1)"
  then show ?thesis
    by (auto simp: init_sinks_def sink_consume_def sink_text_def attempt_def sink_delivery_def line
        split: option.splits)
next
  assume s: "s = \<lparr> sink_backend = Syslog_udp_backend (set_target_address name pid host) addr port,
        sink_filter = Some l2, sink_formatter = Some Syslog_record \<rparr>"
  show ?thesis
    using syslog_consume_packet [OF short datagram, of "\<lambda>packet. io_error env (To_syslog addr port packet)"]
    by (simp add: s sink_consume_def sink_text_def format_syslog_record_def sink_delivery_def split: option.splits)
qed

text \<open>
  C21: with the file, console and syslog sinks set up, a call of any of the nine logging functions
  whose format succeeds attempts exactly one line for the file and one for the console when its
  severity reaches the first level, and one datagram for the syslog server when it reaches the
  second level, in an order of the core's choice. The first of these operations that fails ends the
  call with its exception, and those after it are not attempted; when none fails, all of them
  are delivered and the call returns. The line is the head of the record and the message after the
  prefix of the function; a message of more than 51200 bytes is cut, at a place that depends on
  the locale, and marked, so that it takes at most 51200 bytes after the head. The datagram carries
  the whole message up to the size of its buffer. A format that fails makes the call throw
  when a sink would have taken the record and is not even noticed otherwise; nothing is written
  in either case.
\<close>

theorem log_delivery:
  assumes "(sev, pre, log) \<in> set (log_functions format file line)"
    and "add_syslogging from_string open_socket me ip port l2 (init_logging fb path log_path l1 empty_core) = Inr c"
    and "from_string ip = Inr addr"
    and "core_law env" and "\<And>s n. char_boundary env s n \<le> n"
    and "\<forall>t. format fmt args = Inr t \<longrightarrow>
      length (syslog_text (set_target_address (process_name me) (process_id me) (host_name me))
        (syslog_mapping sev) (now a) (record_head (time_stamp a) sev (thread_pid a) (fiber_id a) @ pre @ t)) < 2 ^ 31"
  shows "case format fmt args of
       Inl e \<Rightarrow> log fmt args env a c = ([], if passes_filter l1 sev \<or> passes_filter l2 sev then Some e else None)
     | Inr t \<Rightarrow>
         (let head = record_head (time_stamp a) sev (thread_pid a) (fiber_id a);
              b = set_target_address (process_name me) (process_id me) (host_name me)
          in \<exists>text ds.
            (if length (pre @ t) \<le> 51200 then text = head @ pre @ t
             else \<exists>k \<le> length head + 51197. text = take k (head @ pre @ t) @ ''>>>'') \<and>
            mset ds =
              mset ((if passes_filter l1 sev
                     then [To_file (parent_path (path log_path) @ ''/'' @ stem (path log_path) @ ''_%6N''
                                    @ extension_name (path log_path)) text, To_console text]
                     else [])
                  @ (if passes_filter l2 sev
                     then [To_syslog addr (port_of_int port)
                             (take 2047 (syslog_text b (syslog_mapping sev) (now a) (head @ pre @ t)))]
                     else [])) \<and>
            log fmt args env a c = deliver (io_error env) ds \<and>
            ((\<forall>d \<in> set ds. io_error env d = None) \<longrightarrow> log fmt args env a c = (ds, None)))"
proof -
  let ?b = "set_target_address (process_name me) (process_id me) (host_name me)"
  let ?s = "\<lparr> sink_backend = Syslog_udp_backend ?b addr (port_of_int port), sink_filter = Some l2,
              sink_formatter = Some Syslog_record \<rparr>"
  have sinks: "core_sinks c = init_sinks fb (path log_path) l1 @ [?s]"
    using add_syslogging_sinks [OF assms(2)] assms(3) by (auto simp add: init_logging_sinks empty_core_def)
  have opens: "record_opens sev c \<longleftrightarrow> passes_filter l1 sev \<or> passes_filter l2 sev"
    by (simp add: record_opens_def sinks init_sinks_open) (simp add: will_consume_def)
  show ?thesis
  proof (cases "format fmt args")
    case (Inl e)
    then show ?thesis by (simp add: log_function_trivial [OF assms(1)] log_trivial_def opens)
  next
    case (Inr t)
    let ?head = "record_head (time_stamp a) sev (thread_pid a) (fiber_id a)"
    define l where "l = format_record (char_boundary env) (time_stamp a) sev (thread_pid a) (fiber_id a) (pre @ t)"
    define d where "d = take 2047 (syslog_text ?b (syslog_mapping sev) (now a) (?head @ pre @ t))"
    let ?ss = "filter (will_consume sev) (init_sinks fb (path log_path) l1 @ [?s])"
    have consume: "sink_consume env a sev (pre @ t) s = (case io_error env (sink_delivery l d s) of
        Some e \<Rightarrow> Inl e | None \<Rightarrow> Inr [sink_delivery l d s])" if "s \<in> set ?ss" for s
      using that
      by (intro sink_consume_program [where fb = fb and p = "path log_path" and ?l1.0 = l1 and ?l2.0 = l2
            and addr = addr and port = "port_of_int port", OF _ l_def d_def assms(6) [rule_format, OF Inr]])
         (auto split: if_splits)
    obtain ds where ds: "mset ds = mset (map (sink_delivery l d) ?ss)"
        "push_to_sinks env (sink_consume env a sev (pre @ t)) ?ss = deliver (io_error env) ds"
      using push_deliver [where f = "sink_consume env a sev (pre @ t)" and g = "sink_delivery l d" and ss = ?ss,
          OF assms(4) consume] by blast
    have expected: "map (sink_delivery l d) ?ss = (if passes_filter l1 sev
         then [To_file (parent_path (path log_path) @ ''/'' @ stem (path log_path) @ ''_%6N''
                        @ extension_name (path log_path)) l, To_console l] else [])
         @ (if passes_filter l2 sev then [To_syslog addr (port_of_int port) d] else [])"
      by (simp add: init_sinks_def will_consume_def sink_delivery_def log_file_backend_def log_file_name_def)
    have run: "log fmt args env a c = deliver (io_error env) ds"
    proof (cases "passes_filter l1 sev \<or> passes_filter l2 sev")
      case True
      then show ?thesis
        using Inr ds(2) by (simp add: log_function_trivial [OF assms(1)] log_trivial_def opens push_record_def sinks)
    next
      case False
      then have "mset ds = mset []" using ds(1) by (simp only: expected if_False de_Morgan_disj append_Nil)
      then have "ds = []" by simp
      then show ?thesis using False Inr by (simp add: log_function_trivial [OF assms(1)] log_trivial_def opens)
    qed
    show ?thesis
      unfolding Inr sum.case Let_def d_def [symmetric]
      using record_shape [of "char_boundary env" "pre @ t" "time_stamp a" sev "thread_pid a" "fiber_id a", OF assms(5)]
      by (intro exI [of _ l] exI [of _ ds] conjI)
         (simp_all only: l_def [symmetric] ds(1) expected run simp_thms, auto intro: deliver_ok)
  qed
qed

definition witness_attributes :: attributes where
  "witness_attributes = \<lparr> time_stamp = ''t'', thread_pid = ''7'', fiber_id = ''f'',
     now = \<lparr> tm_year = 124, tm_mon = 0, tm_mday = 9, tm_hour = 1, tm_min = 2, tm_sec = 3 \<rparr> \<rparr>"

text \<open>A platform of single bytes, on which nothing fails but writing to the console.\<close>

definition witness_platform :: "(string, string) platform" where
  "witness_platform =
     \<lparr> char_boundary = (\<lambda>s n. n),
       io_error = (\<lambda>d. case d of To_console s \<Rightarrow> Some ''console'' | _ \<Rightarrow> None),
       push_to_sinks = feed \<rparr>"

theorem log_delivery_witness:
  "\<exists>c. add_syslogging Inr (\<lambda>addr. None) \<lparr> process_name = ''p'', process_id = ''1'', host_name = [] \<rparr>
       ''10.0.0.1'' 66050 Error
       (init_logging False (\<lambda>p. \<lparr> parent_path = ''/var'', stem = ''a'', extension_name = ''.log'' \<rparr>) ''/var/a.log'' Debug empty_core)
       = (Inr c :: string + string core)
     \<and> snd (log_warning_prefix (\<lambda>fmt args. Inr fmt) ''x.cpp'' 7 ''m'' ([] :: unit list) witness_platform witness_attributes c)
       = Some ''console''"
proof -
  let ?me = "\<lparr> process_name = ''p'', process_id = ''1'', host_name = [] \<rparr>"
  let ?format = "\<lambda>fmt (args :: unit list). Inr fmt :: string + string"
  let ?path = "\<lambda>p :: string. \<lparr> parent_path = ''/var'', stem = ''a'', extension_name = ''.log'' \<rparr>"
  have seven: "fmt_d 7 = ''7''" by code_simp
  have mem: "(Warning, ''x.cpp,line 7,'', log_warning_prefix ?format ''x.cpp'' 7)
      \<in> set (log_functions ?format ''x.cpp'' 7)"
    by (simp add: log_functions_def seven)
  obtain c where c: "add_syslogging Inr (\<lambda>addr. None) ?me ''10.0.0.1'' 66050 Error
      (init_logging False ?path ''/var/a.log'' Debug (empty_core :: string core)) = (Inr c :: string + string core)"
    by (simp add: add_syslogging_def Let_def)
  have "length (syslog_text (set_target_address (process_name ?me) (process_id ?me) (host_name ?me))
      (syslog_mapping Warning) (now witness_attributes)
      (record_head (time_stamp witness_attributes) Warning (thread_pid witness_attributes)
        (fiber_id witness_attributes) @ ''x.cpp,line 7,'' @ ''m'')) = 69"
    by code_simp
  then have short: "length (syslog_text (set_target_address (process_name ?me) (process_id ?me) (host_name ?me))
      (syslog_mapping Warning) (now witness_attributes)
      (record_head (time_stamp witness_attributes) Warning (thread_pid witness_attributes)
        (fiber_id witness_attributes) @ ''x.cpp,line 7,'' @ ''m'')) < 2 ^ 31"
    by (rule ssubst) simp
  have law: "core_law witness_platform"
    by (auto simp: core_law_def witness_platform_def)
  have char: "char_boundary witness_platform s n \<le> n" for s n
    by (simp add: witness_platform_def)
  have filters: "passes_filter Debug Warning" "\<not> passes_filter Error Warning"
    by (simp_all add: passes_filter_def)
  have name: "''/var'' @ ''/'' @ ''a'' @ ''_%6N'' @ ''.log'' = ''/var/a_%6N.log''" by simp
  have fits: "\<forall>t. ?format ''m'' [] = Inr t \<longrightarrow>
      length (syslog_text (set_target_address (process_name ?me) (process_id ?me) (host_name ?me))
      (syslog_mapping Warning) (now witness_attributes)
      (record_head (time_stamp witness_attributes) Warning (thread_pid witness_attributes)
        (fiber_id witness_attributes) @ ''x.cpp,line 7,'' @ t)) < 2 ^ 31"
    using short by (simp only: sum.inject simp_thms)
  note res = log_delivery [where fmt = "''m''" and args = "[]", OF mem c refl law char fits,
      unfolded sum.case Let_def path_parts.select_convs]
  obtain tx ds where ds: "mset ds = mset [To_file ''/var/a_%6N.log'' tx, To_console tx]"
      "log_warning_prefix ?format ''x.cpp'' 7 ''m'' [] witness_platform witness_attributes c
        = deliver (io_error witness_platform) ds"
    using res by (elim exE conjE, simp only: filters name if_True if_False append_Nil2)
  have "set ds = set [To_file ''/var/a_%6N.log'' tx, To_console tx]"
    using ds(1) by (rule mset_eq_setD)
  then have "snd (deliver (io_error witness_platform) ds) = Some ''console''"
    by (intro deliver_fails [of "To_console tx"]) (auto simp: witness_platform_def split: delivery.splits)
  then show ?thesis using c ds(2) by auto
qed

end
