(* ===== verification/Db_Helper.thy ===== *)
theory Db_Helper
  imports Json_Roundtrip
begin

text \<open>
  The database helper (\<open>db/soci_pgsql.hpp\<close>): the conversions between column values and the
  program's types, and \<open>DBHelper\<close> with its pool of sessions.

  The SOCI library is not among the sources. Its connection pool is the parameter of the
  operations that use it, as the record \<open>pool_ops\<close> of its functions. The conversions of times,
  of floating-point numbers and of the text of a UUID are arguments too.
\<close>

section \<open>Column conversions\<close>

text \<open>
  \<open>from_base\<close> assigns to a variable that has a value already, its first argument; the
  indicator says whether the column is null. \<open>to_base\<close> returns the base value and the
  indicator; where it does not assign the base value, that is what it was before.
\<close>

datatype indicator = I_ok | I_null

definition bool_from_base :: "bool \<Rightarrow> int \<Rightarrow> indicator \<Rightarrow> bool" where
  "bool_from_base mi i ind = (if ind = I_null then False else (if i \<noteq> 0 then True else False))"

definition bool_to_base :: "bool \<Rightarrow> int \<times> indicator" where
  "bool_to_base mi = (if mi then 1 else 0, I_ok)"

definition ptime_from_base :: "('tm \<Rightarrow> 't) \<Rightarrow> 't \<Rightarrow> 'tm \<Rightarrow> indicator \<Rightarrow> 't" where
  "ptime_from_base ptime_from_tm mi i ind = (if ind = I_null then mi else ptime_from_tm i)"

definition ptime_to_base :: "('t \<Rightarrow> bool) \<Rightarrow> ('t \<Rightarrow> 'tm) \<Rightarrow> 't \<Rightarrow> 'tm \<Rightarrow> 'tm \<times> indicator" where
  "ptime_to_base is_not_a_date_time to_tm mi i =
     (if is_not_a_date_time mi then (i, I_null) else (to_tm mi, I_ok))"

definition json_from_base ::
  "(string \<Rightarrow> 'f) \<Rightarrow> ('f \<Rightarrow> bool) \<Rightarrow> 'f json \<Rightarrow> string \<Rightarrow> indicator \<Rightarrow> json_error + 'f json" where
  "json_from_base strtof isfinite mi i ind = (if ind = I_null then Inr mi else parse strtof isfinite i)"

definition json_to_base ::
  "('f \<Rightarrow> string) \<Rightarrow> 'f json \<Rightarrow> string \<Rightarrow> json_error + (string \<times> indicator)" where
  "json_to_base fmt mi i =
     (if mi = Null then Inr (i, I_null) else bind_res (dump fmt mi) (\<lambda>s. Inr (s, I_ok)))"

definition uuid_from_base :: "'u \<Rightarrow> (string \<Rightarrow> 'x + 'u) \<Rightarrow> 'u \<Rightarrow> string \<Rightarrow> indicator \<Rightarrow> 'x + 'u" where
  "uuid_from_base nil_uuid of_text mi i ind = (if ind = I_null then Inr nil_uuid else of_text i)"

definition uuid_to_base :: "('u \<Rightarrow> string) \<Rightarrow> 'u \<Rightarrow> string \<times> indicator" where
  "uuid_to_base to_text mi = (to_text mi, I_ok)"

text \<open>
  A JSON value written to a column and read back into a variable that held the value \<open>old\<close>
  is the value itself as the parser gives it when it is not the JSON null. The JSON null
  becomes the SQL null, and reading that leaves \<open>old\<close>, so that the null is lost unless
  \<open>old\<close> was null.
\<close>

lemma json_column_roundtrip:
  assumes "float_roundtrip fmt strtof isfinite" and "json_ok mi"
    and "json_to_base fmt mi i = Inr (s, ind)"
  shows "json_from_base strtof isfinite old s ind = Inr (if mi = Null then old else reread isfinite mi)"
  using assms(3) json_text.read_write [of fmt strtof isfinite mi] assms(1,2)
  by (auto simp: json_to_base_def json_from_base_def exn_simps split: if_splits)

lemma json_column_roundtrip_example:
  "json_to_base (\<lambda>f :: unit. ''null'') (Boolean True) '''' = Inr (''true'', I_ok)
   \<and> json_from_base (\<lambda>s. ()) (\<lambda>f. False) Null ''true'' I_ok = Inr (Boolean True)"
proof -
  have t: "json_to_base (\<lambda>f :: unit. ''null'') (Boolean True) '''' = Inr (''true'', I_ok)"
    by (simp add: json_to_base_def)
  moreover have "float_roundtrip (\<lambda>f. ''null'') (\<lambda>s. ()) (\<lambda>f. False)" by (simp add: float_roundtrip_def)
  ultimately show ?thesis
    using json_column_roundtrip [of "\<lambda>f. ''null''" "\<lambda>s. ()" "\<lambda>f. False" "Boolean True" "''''" "''true''" I_ok Null]
    by simp
qed

text \<open>The other conversions: booleans always come back, a time that is no time does not.\<close>

lemma bool_column_roundtrip: "case bool_to_base mi of (i, ind) \<Rightarrow> bool_from_base old i ind = mi"
  by (simp add: bool_to_base_def bool_from_base_def)

lemma ptime_column_roundtrip:
  "(\<And>t. \<not> nad t \<Longrightarrow> from_tm (to_tm t) = t) \<Longrightarrow>
    (case ptime_to_base nad to_tm mi i of (i', ind) \<Rightarrow> ptime_from_base from_tm old i' ind = (if nad mi then old else mi))"
  by (simp add: ptime_to_base_def ptime_from_base_def)

lemma uuid_column_roundtrip:
  "(\<And>u. of_text (to_text u) = Inr u) \<Longrightarrow>
    (case uuid_to_base to_text mi of (s, ind) \<Rightarrow> uuid_from_base nil of_text old s ind = Inr mi)"
  by (simp add: uuid_to_base_def uuid_from_base_def)

section \<open>Sessions\<close>

text \<open>
  The pool and the sessions in it are one value of type \<open>'p\<close>; a session is referred to by its
  address, of type \<open>'s\<close>, which \<open>at\<close> gives for a position. \<^const>\<open>None\<close> of \<open>lease\<close> is a call that
  waits for ever, of \<open>try_lease\<close> one that times out.
\<close>

record ('p, 's, 'x, 'cb) pool_ops =
  make_pool :: "nat \<Rightarrow> 'x + 'p"
  pool_at :: "'p \<Rightarrow> nat \<Rightarrow> 's"
  open_session :: "'p \<Rightarrow> 's \<Rightarrow> string \<Rightarrow> 'x + 'p"
  set_failover_callback :: "'p \<Rightarrow> 's \<Rightarrow> 'cb \<Rightarrow> 'p"
  lease :: "'p \<Rightarrow> ('p \<times> nat) option"
  try_lease :: "'p \<Rightarrow> int \<Rightarrow> ('p \<times> nat) option"
  give_back :: "'p \<Rightarrow> nat \<Rightarrow> 'p"

record ('p, 'cb) db_helper =
  m_failover :: "'cb option"
  m_conn_str :: string
  m_connect_num :: int
  m_pool :: "'p option"

text \<open>
  \<open>DbSessionPtr\<close>: a unique pointer to a session of the pool, with a deleter that has captured the
  position.
\<close>

record 's DbSessionPtr =
  session_ref :: 's
  deleter_pos :: nat

definition DBHelper :: "('p, 'cb) db_helper" where
  "DBHelper = \<lparr> m_failover = None, m_conn_str = [], m_connect_num = 1, m_pool = None \<rparr>"

definition set_params :: "string \<Rightarrow> int \<Rightarrow> ('p, 'cb) db_helper \<Rightarrow> ('p, 'cb) db_helper" where
  "set_params conn_str conn_num h = h\<lparr>m_conn_str := conn_str, m_connect_num := conn_num\<rparr>"

definition set_failover :: "'cb \<Rightarrow> ('p, 'cb) db_helper \<Rightarrow> ('p, 'cb) db_helper" where
  "set_failover cb h = h\<lparr>m_failover := Some cb\<rparr>"

definition conn_str :: "('p, 'cb) db_helper \<Rightarrow> string" where
  "conn_str h = m_conn_str h"

text \<open>\<open>pool()\<close> dereferences the pointer; before \<open>start\<close> it is null.\<close>

definition pool :: "('p, 'cb) db_helper \<Rightarrow> 'p option" where
  "pool h = m_pool h"

text \<open>
  The loop of \<open>start\<close>, over the positions that are left. When opening a session throws, the
  pool stays as it is then.
\<close>

fun start_loop ::
  "('p, 's, 'x, 'cb) pool_ops \<Rightarrow> string \<Rightarrow> 'cb option \<Rightarrow> nat list \<Rightarrow> 'p \<Rightarrow> 'p \<times> 'x option" where
  "start_loop ops cs failover [] p = (p, None)"
| "start_loop ops cs failover (i # is) p =
     (let sql = pool_at ops p i in
      case open_session ops p sql cs of
        Inl e \<Rightarrow> (p, Some e)
      | Inr p' \<Rightarrow>
          start_loop ops cs failover is
            (case failover of None \<Rightarrow> p' | Some cb \<Rightarrow> set_failover_callback ops p' sql cb))"

text \<open>The number of connections is converted to a \<open>size_t\<close>: a negative one wraps.\<close>

definition pool_size :: "int \<Rightarrow> nat" where
  "pool_size n = nat (n mod 2 ^ 64)"

lemma pool_size_id: "0 \<le> n \<Longrightarrow> n < 2 ^ 64 \<Longrightarrow> int (pool_size n) = n"
  by (simp add: pool_size_def)

lemma pool_size_negative: "pool_size (- 1) = 2 ^ 64 - 1"
  by (simp add: pool_size_def)

definition db_start :: "('p, 's, 'x, 'cb) pool_ops \<Rightarrow> ('p, 'cb) db_helper \<Rightarrow> ('p, 'cb) db_helper \<times> 'x option" where
  "db_start ops h =
     (case make_pool ops (pool_size (m_connect_num h)) of
        Inl e \<Rightarrow> (h, Some e)
      | Inr p \<Rightarrow>
          (case start_loop ops (m_conn_str h) (m_failover h) [0..<pool_size (m_connect_num h)] p of
             (p', x) \<Rightarrow> (h\<lparr>m_pool := Some p'\<rparr>, x)))"

text \<open>
  \<^const>\<open>None\<close> is a call that waits for ever, or dereferences the null pointer of a helper that was
  not started.
\<close>

definition db_session ::
  "('p, 's, 'x, 'cb) pool_ops \<Rightarrow> ('p, 'cb) db_helper \<Rightarrow> (('p, 'cb) db_helper \<times> 's DbSessionPtr) option" where
  "db_session ops h =
     Option.bind (m_pool h) (\<lambda>p.
     Option.bind (lease ops p) (\<lambda>(p', pos).
       let pooledSession = pool_at ops p' pos
       in Some (h\<lparr>m_pool := Some p'\<rparr>, \<lparr>session_ref = pooledSession, deleter_pos = pos\<rparr>)))"

definition session_timeout ::
  "('p, 's, 'x, 'cb) pool_ops \<Rightarrow> int \<Rightarrow> ('p, 'cb) db_helper
    \<Rightarrow> (('p, 'cb) db_helper \<times> 's DbSessionPtr option) option" where
  "session_timeout ops timeout h =
     map_option (\<lambda>p. case try_lease ops p timeout of
         None \<Rightarrow> (h, None)
       | Some (p', pos) \<Rightarrow>
           let pooledSession = pool_at ops p' pos
           in (h\<lparr>m_pool := Some p'\<rparr>, Some \<lparr>session_ref = pooledSession, deleter_pos = pos\<rparr>)) (m_pool h)"

text \<open>The deleter gives the position back to the pool that the helper has at that time.\<close>

definition session_destroy ::
  "('p, 's, 'x, 'cb) pool_ops \<Rightarrow> 's DbSessionPtr \<Rightarrow> ('p, 'cb) db_helper \<Rightarrow> ('p, 'cb) db_helper" where
  "session_destroy ops s h = h\<lparr>m_pool := map_option (\<lambda>p. give_back ops p (deleter_pos s)) (m_pool h)\<rparr>"

text \<open>
  A \<open>start\<close> in which every session opens has opened each session of the pool once, in order,
  with the connection string and then with the failover callback when there is one. When
  session \<open>k\<close> cannot be opened, exactly those before it have been opened, and the helper is
  left with this pool.
\<close>

definition open_with :: "('p, 's, 'x, 'cb) pool_ops \<Rightarrow> string \<Rightarrow> 'cb option \<Rightarrow> 'p \<Rightarrow> nat \<Rightarrow> 'p" where
  "open_with ops cs failover p i =
     (case open_session ops p (pool_at ops p i) cs of
        Inl e \<Rightarrow> p
      | Inr p' \<Rightarrow> (case failover of None \<Rightarrow> p' | Some cb \<Rightarrow> set_failover_callback ops p' (pool_at ops p i) cb))"

lemma start_loop_opens:
  "start_loop ops cs failover is p = (p', None) \<Longrightarrow> p' = foldl (open_with ops cs failover) p is"
  by (induction "is" arbitrary: p) (auto simp: open_with_def Let_def split: sum.splits option.splits)

lemma start_loop_fails:
  "start_loop ops cs failover is p = (p', Some e) \<Longrightarrow>
     \<exists>k < length is. p' = foldl (open_with ops cs failover) p (take k is)
       \<and> open_session ops p' (pool_at ops p' (is ! k)) cs = Inl e"
proof (induction "is" arbitrary: p)
  case (Cons i "is")
  show ?case
  proof (cases "open_session ops p (pool_at ops p i) cs")
    case (Inl e')
    then show ?thesis using Cons.prems by (intro exI [of _ 0]) (simp add: Let_def)
  next
    case (Inr q)
    let ?q = "open_with ops cs failover p i"
    have "start_loop ops cs failover is ?q = (p', Some e)" using Cons.prems Inr by (simp add: open_with_def Let_def)
    then obtain k where "k < length is" "p' = foldl (open_with ops cs failover) ?q (take k is)"
        "open_session ops p' (pool_at ops p' (is ! k)) cs = Inl e"
      using Cons.IH by blast
    then show ?thesis by (intro exI [of _ "Suc k"]) simp
  qed
qed simp

section \<open>Sessions are exclusive\<close>

text \<open>
  The calls on a helper, in any order. The state is the helper, the session pointers that exist,
  and the connection string of the last call of \<open>start\<close> when that call did not throw.
  \<^const>\<open>None\<close> is a command that does not return.
\<close>

datatype 'cb db_call =
    Call_set_params string int
  | Call_set_failover 'cb
  | Call_start
  | Get_session
  | Get_session_timeout int
  | Destroy_session nat

type_synonym ('p, 's, 'cb) db_state = "('p, 'cb) db_helper \<times> 's DbSessionPtr list \<times> string option"

fun db_command ::
  "('p, 's, 'x, 'cb) pool_ops \<Rightarrow> 'cb db_call \<Rightarrow> ('p, 's, 'cb) db_state \<Rightarrow> ('p, 's, 'cb) db_state option" where
  "db_command ops (Call_set_params cs n) (h, live, st) = Some (set_params cs n h, live, st)"
| "db_command ops (Call_set_failover cb) (h, live, st) = Some (set_failover cb h, live, st)"
| "db_command ops Call_start (h, live, st) =
     (case db_start ops h of (h', x) \<Rightarrow> Some (h', live, if x = None then Some (m_conn_str h) else None))"
| "db_command ops Get_session (h, live, st) = map_option (\<lambda>(h', s). (h', live @ [s], st)) (db_session ops h)"
| "db_command ops (Get_session_timeout t) (h, live, st) =
     map_option (\<lambda>(h', r). (h', live @ (case r of None \<Rightarrow> [] | Some s \<Rightarrow> [s]), st)) (session_timeout ops t h)"
| "db_command ops (Destroy_session k) (h, live, st) =
     (if k < length live then Some (session_destroy ops (live ! k) h, take k live @ drop (Suc k) live, st) else None)"

fun db_commands ::
  "('p, 's, 'x, 'cb) pool_ops \<Rightarrow> 'cb db_call list \<Rightarrow> ('p, 's, 'cb) db_state \<Rightarrow> ('p, 's, 'cb) db_state option" where
  "db_commands ops [] s = Some s"
| "db_commands ops (c # cs) s = Option.bind (db_command ops c s) (db_commands ops cs)"

text \<open>\<open>start\<close> replaces the pool: it may only be called when no session pointer is alive.\<close>

fun idle_starts :: "('p, 's, 'x, 'cb) pool_ops \<Rightarrow> 'cb db_call list \<Rightarrow> ('p, 's, 'cb) db_state \<Rightarrow> bool" where
  "idle_starts ops [] s = True"
| "idle_starts ops (c # cs) s =
     ((c = Call_start \<longrightarrow> fst (snd s) = []) \<and>
      (case db_command ops c s of None \<Rightarrow> True | Some s' \<Rightarrow> idle_starts ops cs s'))"

text \<open>
  What the documentation of the pool promises, where \<open>busy\<close> are the leased positions, \<open>sz\<close> the
  number of sessions and \<open>opened\<close> the connection string with which a session was opened: a lease
  picks a position of the pool that is free, \<open>give_back\<close> frees it, a new pool is free and has
  as many different sessions as were asked for, and nothing else changes what is leased. The pool
  says nothing about who uses which session: that is the work of \<open>DBHelper\<close>.
\<close>

definition same_sessions ::
  "('p, 's, 'x, 'cb) pool_ops \<Rightarrow> ('p \<Rightarrow> nat) \<Rightarrow> ('p \<Rightarrow> 's \<Rightarrow> string option) \<Rightarrow> 'p \<Rightarrow> 'p \<Rightarrow> bool" where
  "same_sessions ops sz opened p p' \<longleftrightarrow>
     pool_at ops p' = pool_at ops p \<and> sz p' = sz p \<and> opened p' = opened p"

definition pool_laws ::
  "('p, 's, 'x, 'cb) pool_ops \<Rightarrow> ('p \<Rightarrow> nat set) \<Rightarrow> ('p \<Rightarrow> nat) \<Rightarrow> ('p \<Rightarrow> 's \<Rightarrow> string option) \<Rightarrow> bool" where
  "pool_laws ops busy sz opened \<longleftrightarrow>
     (\<forall>p p' i. lease ops p = Some (p', i) \<longrightarrow>
        i < sz p \<and> i \<notin> busy p \<and> busy p' = insert i (busy p) \<and> same_sessions ops sz opened p p') \<and>
     (\<forall>p t p' i. try_lease ops p t = Some (p', i) \<longrightarrow>
        i < sz p \<and> i \<notin> busy p \<and> busy p' = insert i (busy p) \<and> same_sessions ops sz opened p p') \<and>
     (\<forall>p i. i \<in> busy p \<longrightarrow>
        busy (give_back ops p i) = busy p - {i} \<and> same_sessions ops sz opened p (give_back ops p i)) \<and>
     (\<forall>n p. make_pool ops n = Inr p \<longrightarrow> busy p = {} \<and> sz p = n \<and> inj_on (pool_at ops p) {..<n}) \<and>
     (\<forall>p s cs p'. open_session ops p s cs = Inr p' \<longrightarrow>
        busy p' = busy p \<and> pool_at ops p' = pool_at ops p \<and> sz p' = sz p \<and> opened p' = (opened p)(s \<mapsto> cs)) \<and>
     (\<forall>p s cb. busy (set_failover_callback ops p s cb) = busy p
        \<and> same_sessions ops sz opened p (set_failover_callback ops p s cb))"

lemma pool_lawsD:
  assumes "pool_laws ops busy sz opened"
  shows "lease ops p = Some (p', i) \<Longrightarrow>
      i < sz p \<and> i \<notin> busy p \<and> busy p' = insert i (busy p) \<and> same_sessions ops sz opened p p'"
    and "try_lease ops p t = Some (p', i) \<Longrightarrow>
      i < sz p \<and> i \<notin> busy p \<and> busy p' = insert i (busy p) \<and> same_sessions ops sz opened p p'"
    and "i \<in> busy p \<Longrightarrow>
      busy (give_back ops p i) = busy p - {i} \<and> same_sessions ops sz opened p (give_back ops p i)"
    and "make_pool ops n = Inr p \<Longrightarrow> busy p = {} \<and> sz p = n \<and> inj_on (pool_at ops p) {..<n}"
    and "open_session ops p s cs = Inr p' \<Longrightarrow>
      busy p' = busy p \<and> pool_at ops p' = pool_at ops p \<and> sz p' = sz p \<and> opened p' = (opened p)(s \<mapsto> cs)"
    and "busy (set_failover_callback ops p s cb) = busy p
      \<and> same_sessions ops sz opened p (set_failover_callback ops p s cb)"
proof -
  note laws = assms [unfolded pool_laws_def]
  show "lease ops p = Some (p', i) \<Longrightarrow>
      i < sz p \<and> i \<notin> busy p \<and> busy p' = insert i (busy p) \<and> same_sessions ops sz opened p p'"
    using laws by (elim conjE) metis
  show "try_lease ops p t = Some (p', i) \<Longrightarrow>
      i < sz p \<and> i \<notin> busy p \<and> busy p' = insert i (busy p) \<and> same_sessions ops sz opened p p'"
    using laws by (elim conjE) metis
  show "i \<in> busy p \<Longrightarrow>
      busy (give_back ops p i) = busy p - {i} \<and> same_sessions ops sz opened p (give_back ops p i)"
    using laws by (elim conjE) simp
  show "make_pool ops n = Inr p \<Longrightarrow> busy p = {} \<and> sz p = n \<and> inj_on (pool_at ops p) {..<n}"
    using laws by (elim conjE) simp
  show "open_session ops p s cs = Inr p' \<Longrightarrow>
      busy p' = busy p \<and> pool_at ops p' = pool_at ops p \<and> sz p' = sz p \<and> opened p' = (opened p)(s \<mapsto> cs)"
    using laws by (elim conjE) metis
  show "busy (set_failover_callback ops p s cb) = busy p
      \<and> same_sessions ops sz opened p (set_failover_callback ops p s cb)"
    using laws by (elim conjE) simp
qed

text \<open>The loop of \<open>start\<close> leases nothing, and when it does not throw it has opened every position.\<close>

lemma open_one:
  assumes "pool_laws ops busy sz opened" and "open_session ops p s cs = Inr p'"
    and "q = (case failover of None \<Rightarrow> p' | Some cb \<Rightarrow> set_failover_callback ops p' s cb)"
  shows "busy q = busy p \<and> pool_at ops q = pool_at ops p \<and> sz q = sz p \<and> opened q = (opened p)(s \<mapsto> cs)"
  using pool_lawsD(5) [OF assms(1,2)] pool_lawsD(6) [OF assms(1), of p' s] assms(3)
  by (cases failover) (auto simp: same_sessions_def)

lemma start_loop_keeps:
  assumes "pool_laws ops busy sz opened" and "start_loop ops cs failover is p = (p', x)"
  shows "busy p' = busy p \<and> pool_at ops p' = pool_at ops p \<and> sz p' = sz p
    \<and> (\<forall>s. opened p s = Some cs \<longrightarrow> opened p' s = Some cs)
    \<and> (x = None \<longrightarrow> (\<forall>i \<in> set is. opened p' (pool_at ops p i) = Some cs))"
  using assms(2)
proof (induction "is" arbitrary: p)
  case (Cons i "is")
  show ?case
  proof (cases "open_session ops p (pool_at ops p i) cs")
    case (Inl e)
    then show ?thesis using Cons.prems by (auto simp: Let_def)
  next
    case (Inr p1)
    define q where "q = (case failover of None \<Rightarrow> p1 | Some cb \<Rightarrow> set_failover_callback ops p1 (pool_at ops p i) cb)"
    have q: "busy q = busy p" "pool_at ops q = pool_at ops p" "sz q = sz p"
        "opened q = (opened p)(pool_at ops p i \<mapsto> cs)"
      using open_one [OF assms(1) Inr q_def] by simp_all
    have "start_loop ops cs failover is q = (p', x)" using Cons.prems Inr by (simp add: q_def Let_def)
    from Cons.IH [OF this] show ?thesis using q by auto
  qed
qed simp

text \<open>
  The invariant: every live session pointer refers to the session at the position its deleter
  will give back, the leased positions are those of the live pointers, and after a \<open>start\<close> that did
  not throw every session of the pool is open.
\<close>

definition leases_ok :: "('p, 's, 'x, 'cb) pool_ops \<Rightarrow> ('p \<Rightarrow> nat set) \<Rightarrow> ('p \<Rightarrow> nat)
    \<Rightarrow> ('p \<Rightarrow> 's \<Rightarrow> string option) \<Rightarrow> ('p, 's, 'cb) db_state \<Rightarrow> bool" where
  "leases_ok ops busy sz opened s \<longleftrightarrow> (case s of (h, live, st) \<Rightarrow>
     distinct (map deleter_pos live) \<and>
     (case m_pool h of
        None \<Rightarrow> live = [] \<and> st = None
      | Some p \<Rightarrow> busy p = set (map deleter_pos live) \<and> inj_on (pool_at ops p) {..<sz p} \<and>
          (\<forall>s \<in> set live. deleter_pos s < sz p \<and> session_ref s = pool_at ops p (deleter_pos s)) \<and>
          (\<forall>cs. st = Some cs \<longrightarrow> (\<forall>i < sz p. opened p (pool_at ops p i) = Some cs))))"

lemma map_remove_nth:
  assumes "distinct (map f xs)" "k < length xs"
  shows "distinct (map f (take k xs @ drop (Suc k) xs))"
    and "set (map f (take k xs @ drop (Suc k) xs)) = set (map f xs) - {f (xs ! k)}"
proof -
  let ?ys = "take k xs @ xs ! k # drop (Suc k) xs"
  have "distinct (map f ?ys)" "set (map f xs) = set (map f ?ys)"
    using assms by (simp_all only: id_take_nth_drop [symmetric])
  then show "distinct (map f (take k xs @ drop (Suc k) xs))"
    and "set (map f (take k xs @ drop (Suc k) xs)) = set (map f xs) - {f (xs ! k)}"
    by auto
qed

lemma leases_ok_leased:
  assumes "leases_ok ops busy sz opened (h, live, st)" and "m_pool h = Some p"
    and "i < sz p \<and> i \<notin> busy p \<and> busy p' = insert i (busy p) \<and> same_sessions ops sz opened p p'"
  shows "leases_ok ops busy sz opened
    (h\<lparr>m_pool := Some p'\<rparr>, live @ [\<lparr>session_ref = pool_at ops p' i, deleter_pos = i\<rparr>], st)"
  using assms by (auto simp: leases_ok_def same_sessions_def)

lemma leases_ok_start:
  assumes laws: "pool_laws ops busy sz opened" and ok: "leases_ok ops busy sz opened (h, [], st)"
    and start: "db_start ops h = (h', x)"
  shows "leases_ok ops busy sz opened (h', [], if x = None then Some (m_conn_str h) else None)"
proof (cases "make_pool ops (pool_size (m_connect_num h))")
  case (Inl e)
  then show ?thesis using start ok by (auto simp: db_start_def leases_ok_def split: option.splits)
next
  case (Inr p)
  let ?n = "pool_size (m_connect_num h)"
  obtain q where q: "start_loop ops (m_conn_str h) (m_failover h) [0..<?n] p = (q, x)" "h' = h\<lparr>m_pool := Some q\<rparr>"
    using start Inr by (auto simp: db_start_def split: prod.splits)
  show ?thesis
    using start_loop_keeps [OF laws q(1)] pool_lawsD(4) [OF laws Inr] q(2) by (auto simp: leases_ok_def)
qed

lemma leases_ok_destroy:
  assumes laws: "pool_laws ops busy sz opened" and ok: "leases_ok ops busy sz opened (h, live, st)"
    and k: "k < length live"
  shows "leases_ok ops busy sz opened (session_destroy ops (live ! k) h, take k live @ drop (Suc k) live, st)"
proof -
  obtain p where p: "m_pool h = Some p"
    using ok k by (cases "m_pool h") (auto simp: leases_ok_def)
  have d: "distinct (map deleter_pos live)" and b: "busy p = set (map deleter_pos live)"
    using ok p by (auto simp: leases_ok_def)
  have "deleter_pos (live ! k) \<in> busy p" using b k by simp
  note gb = pool_lawsD(3) [OF laws this]
  have "set (take k live @ drop (Suc k) live) \<subseteq> set live"
    by (auto dest: in_set_takeD in_set_dropD)
  then show ?thesis
    using ok p gb b map_remove_nth [OF d k]
    by (auto simp: leases_ok_def session_destroy_def same_sessions_def simp del: set_append map_append set_map)
qed

lemma db_command_leases:
  assumes laws: "pool_laws ops busy sz opened" and ok: "leases_ok ops busy sz opened (h, live, st)"
    and idle: "c = Call_start \<Longrightarrow> live = []" and run: "db_command ops c (h, live, st) = Some s'"
  shows "leases_ok ops busy sz opened s'"
proof (cases c)
  case (Call_set_params cs n)
  then show ?thesis using ok run by (auto simp: leases_ok_def set_params_def)
next
  case (Call_set_failover cb)
  then show ?thesis using ok run by (auto simp: leases_ok_def set_failover_def)
next
  case Call_start
  then show ?thesis using leases_ok_start [OF laws] ok idle run by (auto split: prod.splits)
next
  case Get_session
  then obtain p p' pos where "m_pool h = Some p" "lease ops p = Some (p', pos)"
      "s' = (h\<lparr>m_pool := Some p'\<rparr>, live @ [\<lparr>session_ref = pool_at ops p' pos, deleter_pos = pos\<rparr>], st)"
    using run by (auto simp: db_session_def bind_eq_Some_conv Let_def)
  then show ?thesis using leases_ok_leased [OF ok] pool_lawsD(1) [OF laws] by blast
next
  case (Get_session_timeout t)
  then obtain p where p: "m_pool h = Some p" using run by (auto simp: session_timeout_def)
  show ?thesis
  proof (cases "try_lease ops p t")
    case None
    then show ?thesis using ok run p Get_session_timeout by (auto simp: session_timeout_def)
  next
    case (Some r)
    then show ?thesis
      using leases_ok_leased [OF ok p pool_lawsD(2) [OF laws]] run p Get_session_timeout
      by (cases r) (auto simp: session_timeout_def Let_def)
  qed
next
  case (Destroy_session k)
  then show ?thesis using leases_ok_destroy [OF laws ok] run by (auto split: if_splits)
qed

lemma db_commands_leases:
  assumes "pool_laws ops busy sz opened"
  shows "leases_ok ops busy sz opened s \<Longrightarrow> idle_starts ops cs s \<Longrightarrow> db_commands ops cs s = Some s' \<Longrightarrow>
    leases_ok ops busy sz opened s'"
proof (induction cs arbitrary: s)
  case (Cons c cs)
  then obtain s1 where step: "db_command ops c s = Some s1" "db_commands ops cs s1 = Some s'"
    by (auto simp: bind_eq_Some_conv)
  have "leases_ok ops busy sz opened s1"
    using Cons.prems(1,2) step(1) by (cases s) (auto intro: db_command_leases [OF assms])
  then show ?case using Cons.IH Cons.prems(2) step by simp
qed simp

text \<open>
  C22: the sessions of a helper are exclusive, provided that \<open>start\<close> is only called while no
  session is alive and that the pool does what its documentation says. Then, however the helper is
  configured and started and sessions are taken, with and without a timeout, and destroyed: no two
  live session pointers refer to the same session; each refers to the session of the present
  pool at the position that its deleter will give back; the positions leased from the pool are
  exactly those of the live pointers, so none is lost and none is given back twice; and when the
  last \<open>start\<close> did not throw, every live session was opened with the connection string that the
  helper had then.
\<close>

theorem db_sessions_exclusive:
  assumes "pool_laws ops busy sz opened"
    and "idle_starts ops cs (DBHelper, [], None)"
    and "db_commands ops cs (DBHelper, [], None) = Some (h, live, st)"
  shows "distinct (map session_ref live) \<and>
    (case pool h of
       None \<Rightarrow> live = []
     | Some p \<Rightarrow>
         distinct (map deleter_pos live) \<and> busy p = set (map deleter_pos live) \<and>
         (\<forall>s \<in> set live. session_ref s = pool_at ops p (deleter_pos s) \<and>
            (\<forall>c. st = Some c \<longrightarrow> opened p (session_ref s) = Some c)))"
proof -
  have "leases_ok ops busy sz opened (DBHelper, [], None)" by (simp add: leases_ok_def DBHelper_def)
  from db_commands_leases [OF assms(1) this assms(2,3)]
  have ok: "leases_ok ops busy sz opened (h, live, st)" .
  show ?thesis
  proof (cases "m_pool h")
    case None
    then show ?thesis using ok by (simp add: leases_ok_def pool_def)
  next
    case (Some p)
    have refs: "map session_ref live = map (pool_at ops p) (map deleter_pos live)"
      and inj: "inj_on (pool_at ops p) (set (map deleter_pos live))"
      using ok Some by (auto simp: leases_ok_def intro: inj_on_subset)
    have "distinct (map session_ref live)"
      unfolding refs using ok inj by (simp only: distinct_map leases_ok_def case_prod_conv)
    then show ?thesis using ok Some by (auto simp: leases_ok_def pool_def)
  qed
qed

text \<open>
  A pool for the witness: its size, the connection strings of the sessions that
  are open and the positions that are leased. A session is its position.
\<close>

definition list_pool :: "(nat \<times> (nat \<rightharpoonup> string) \<times> nat list, nat, unit, unit) pool_ops" where
  "list_pool =
     \<lparr> make_pool = (\<lambda>n. Inr (n, Map.empty, [])),
       pool_at = (\<lambda>p i. i),
       open_session = (\<lambda>(n, opened, leased) s cs. Inr (n, opened(s \<mapsto> cs), leased)),
       set_failover_callback = (\<lambda>p s cb. p),
       lease = (\<lambda>(n, opened, leased).
         map_option (\<lambda>i. ((n, opened, i # leased), i)) (find (\<lambda>i. i \<notin> set leased) [0..<n])),
       try_lease = (\<lambda>(n, opened, leased) t.
         map_option (\<lambda>i. ((n, opened, i # leased), i)) (find (\<lambda>i. i \<notin> set leased) [0..<n])),
       give_back = (\<lambda>(n, opened, leased) i. (n, opened, removeAll i leased)) \<rparr>"

lemma list_pool_laws:
  "pool_laws list_pool (\<lambda>(n, opened, leased). set leased) (\<lambda>(n, opened, leased). n) (\<lambda>(n, opened, leased). opened)"
  by (auto simp: pool_laws_def same_sessions_def list_pool_def find_Some_iff)

lemma pool_size_small: "pool_size 1 = 1" "pool_size 2 = 2"
  by (simp_all add: pool_size_def)

lemmas db_eval = db_start_def db_session_def session_timeout_def session_destroy_def set_params_def
  DBHelper_def pool_def list_pool_def pool_size_small upt_rec Let_def

theorem db_sessions_exclusive_witness:
  "\<exists>h live. db_commands list_pool
       [Call_set_params ''host=a'' 2, Call_start, Get_session, Get_session_timeout 5, Get_session_timeout 5, Destroy_session 0]
       (DBHelper, [], None) = Some (h, live, Some ''host=a'')
     \<and> distinct (map session_ref live)
     \<and> (\<exists>p. pool h = Some p \<and> (\<forall>s \<in> set live. (\<lambda>(n, opened, leased). opened) p (session_ref s) = Some ''host=a''))"
proof -
  let ?cs = "[Call_set_params ''host=a'' 2, Call_start, Get_session, Get_session_timeout 5, Get_session_timeout 5, Destroy_session 0]"
  obtain h live where run: "db_commands list_pool ?cs (DBHelper, [], None) = Some (h, live, Some ''host=a'')"
      and p: "pool h \<noteq> None"
    by (simp add: db_eval)
  have idle: "idle_starts list_pool ?cs (DBHelper, [], None)" by (simp add: db_eval)
  obtain p where p: "pool h = Some p" using p by blast
  have "distinct (map session_ref live)"
      "\<forall>s \<in> set live. (\<lambda>(n, opened, leased). opened) p (session_ref s) = Some ''host=a''"
    using db_sessions_exclusive [OF list_pool_laws idle run] by (simp_all only: p option.case) blast
  with run p show ?thesis by blast
qed

text \<open>
  The condition on \<open>start\<close> is needed: a session that outlives a second \<open>start\<close> gives its position
  back to the new pool, which may have leased it to someone else and then leases it again.
\<close>

lemma session_outlives_restart:
  assumes "db_start ops h = (h1, x)" and "m_pool h1 = Some p1"
  shows "pool (session_destroy ops s h1) = Some (give_back ops p1 (deleter_pos s))"
  using assms by (simp add: session_destroy_def pool_def)

lemma restart_leases_twice:
  "\<exists>h s. db_commands list_pool
     [Call_start, Get_session, Call_start, Get_session, Destroy_session 0, Get_session]
     (DBHelper, [], None) = Some (h, [s, s], Some [])"
  by (simp add: db_eval)

end
