(* ===== verification/Exception_Trace.thy ===== *)
theory Exception_Trace
  imports Main
begin

text \<open>
  Exceptions with a stack trace and an error code (\<open>common/exception_trace.hpp\<close>). The program
  attaches at most five frames of the stack of the caller and, optionally, a number; the
  exception container of the library keeps one item per tag, and attaching an item
  again replaces it. The stack at the call is an argument.
\<close>

record ('e, 'fr) error_info =
  exn_value :: 'e
  traced :: "'fr list option"
  global_error_code :: "int option"

text \<open>\<open>boost::enable_error_info\<close> on an exception without a container.\<close>

definition enable_error_info :: "'e \<Rightarrow> ('e, 'fr) error_info" where
  "enable_error_info e = \<lparr> exn_value = e, traced = None, global_error_code = None \<rparr>"

definition attach_trace :: "'fr list \<Rightarrow> ('e, 'fr) error_info \<Rightarrow> ('e, 'fr) error_info" where
  "attach_trace st x = x\<lparr> traced := Some st \<rparr>"

definition attach_code :: "int \<Rightarrow> ('e, 'fr) error_info \<Rightarrow> ('e, 'fr) error_info" where
  "attach_code c x = x\<lparr> global_error_code := Some c \<rparr>"

text \<open>\<open>stacktrace(skip, max_depth)\<close>.\<close>

definition stacktrace :: "nat \<Rightarrow> nat \<Rightarrow> 'fr list \<Rightarrow> 'fr list" where
  "stacktrace skip max_depth stack = take max_depth (drop skip stack)"

definition throw_with_trace_code :: "'fr list \<Rightarrow> 'e \<Rightarrow> int \<Rightarrow> ('e, 'fr) error_info + 'a" where
  "throw_with_trace_code stack e error_code =
     Inl (attach_code error_code (attach_trace (stacktrace 0 5 stack) (enable_error_info e)))"

definition throw_with_trace :: "'fr list \<Rightarrow> 'e \<Rightarrow> ('e, 'fr) error_info + 'a" where
  "throw_with_trace stack e = Inl (attach_trace (stacktrace 0 5 stack) (enable_error_info e))"

definition make_with_trace :: "'fr list \<Rightarrow> 'e \<Rightarrow> ('e, 'fr) error_info" where
  "make_with_trace stack e = attach_trace (stacktrace 0 5 stack) (enable_error_info e)"

definition make_with_trace_code :: "'fr list \<Rightarrow> 'e \<Rightarrow> int \<Rightarrow> ('e, 'fr) error_info" where
  "make_with_trace_code stack e error_code =
     attach_code error_code (attach_trace (stacktrace 0 5 stack) (enable_error_info e))"

text \<open>
  Throwing and making agree, and what a handler finds is the exception, a trace that is a
  prefix of the stack of at most five frames, and the code when there is one.
\<close>

lemma make_is_thrown:
  "throw_with_trace stack e = Inl (make_with_trace stack e)"
  "throw_with_trace_code stack e c = Inl (make_with_trace_code stack e c)"
  by (simp_all add: throw_with_trace_def make_with_trace_def throw_with_trace_code_def make_with_trace_code_def)

lemma trace_caught:
  assumes "throw_with_trace_code stack e c = (Inl x :: ('e, 'fr) error_info + 'a)"
  shows "exn_value x = e \<and> global_error_code x = Some c
    \<and> (\<exists>fr rest. traced x = Some fr \<and> stack = fr @ rest \<and> length fr = min 5 (length stack))"
proof -
  have "x = make_with_trace_code stack e c" using assms by (simp add: make_is_thrown)
  moreover have "stack = take 5 stack @ drop 5 stack" by simp
  ultimately show ?thesis
    by (auto simp: make_with_trace_code_def attach_code_def attach_trace_def enable_error_info_def stacktrace_def
        intro!: exI [of _ "drop 5 stack"] simp del: append_take_drop_id)
qed

end
