(* ===== verification/Example_Server.thy ===== *)
theory Example_Server
  imports Http_Client Json_Value Fiber_Frame Server_Lifecycle Log_Core
begin

text \<open>
  The example programs that serve (\<open>examples/http/server_main.cpp\<close>, \<open>server2_main.cpp\<close>) and the
  request of the example clients (\<open>client_main.cpp\<close>, \<open>client2_main.cpp\<close>): a composition of the
  server, the JSON values, the logger, the frame and the client. The matcher of regular
  expressions, the text of an exception and the decomposition of paths are arguments; the
  HTTP/2 server library is seen through what its handler passes to it.
\<close>

section \<open>Registering resources\<close>

text \<open>
  \<open>m_resource[regex][verb] = fn\<close> on maps that keep their keys in order; expressions are compared
  by their text (\<open>RegexOrderable\<close>). The order of the verbs inside an entry is not observed.
\<close>

definition RegexOrderable_less :: "string \<Rightarrow> string \<Rightarrow> bool" where
  "RegexOrderable_less a b \<longleftrightarrow> a < b"

definition register_resource ::
  "string \<Rightarrow> string \<Rightarrow> resource_call \<Rightarrow> (string \<times> (string \<times> resource_call) list) list
     \<Rightarrow> (string \<times> (string \<times> resource_call) list) list" where
  "register_resource regex verb fn rs =
     omap_set regex (omap_set verb fn (case map_of rs regex of None \<Rightarrow> [] | Some ms \<Rightarrow> ms)) rs"

section \<open>The server over HTTP\<close>

definition test_api_json :: "('f \<Rightarrow> string) \<Rightarrow> json_error + string" where
  "test_api_json to_chars =
     bind_res (assign_key Null ''error_code'' (Number_integer 0)) (dump to_chars)"

definition test_api :: "(json_error \<Rightarrow> string) \<Rightarrow> ('f \<Rightarrow> string) \<Rightarrow> resource_call" where
  "test_api what to_chars cxt =
     (case test_api_json to_chars of
        Inl e \<Rightarrow> Std_exception (what e) cxt
      | Inr body \<Rightarrow> Normal (cxt\<lparr>res := (res cxt)\<lparr>res_body := body\<rparr>\<rparr>))"

definition TestApi :: "(json_error \<Rightarrow> string) \<Rightarrow> ('f \<Rightarrow> string) \<Rightarrow> api_server" where
  "TestApi what to_chars =
     HttpApiServer (register_resource ''^/test_api$'' ''GET'' (test_api what to_chars) [])"

text \<open>\<open>TestApi\<close> keeps the empty bodies of \<open>first_process\<close> and \<open>last_process\<close>.\<close>

definition no_hook :: "http_context \<Rightarrow> http_context" where
  "no_hook cxt = cxt"

text \<open>
  What \<open>main\<close> has set up when it waits: the frame with three threads, the logging core and the
  started server.
\<close>

record 'a serving =
  serving_frame :: frame
  serving_log :: "'a core"
  serving_server :: Server_Lifecycle.server

definition server_main :: "bool \<Rightarrow> (string \<Rightarrow> path_parts) \<Rightarrow> 'a core \<Rightarrow> 'a serving" where
  "server_main forbidden_auto_flush path_of c =
     \<lparr> serving_frame = frame_init 3,
       serving_log = init_logging forbidden_auto_flush path_of ''./restful_server.log'' Debug c,
       serving_server = started \<rparr>"

section \<open>The server over HTTP/2\<close>

text \<open>
  The handler: the fields and the body it answers with, and the text it prints when the
  request ends. An empty piece of data is the end of the request.
\<close>

fun h2_on_data :: "string list \<Rightarrow> string \<Rightarrow> string list \<Rightarrow> string list" where
  "h2_on_data [] body printed = printed"
| "h2_on_data (d # ds) body printed =
     (if length d > 0 then h2_on_data ds (body @ d) printed
      else if body \<noteq> [] then h2_on_data ds body (printed @ [body])
      else h2_on_data ds body printed)"

record h2_answer =
  h2_status :: nat
  h2_fields :: "(string \<times> string) list"
  h2_body :: string

definition h2_test_api :: "('f \<Rightarrow> string) \<Rightarrow> json_error + h2_answer" where
  "h2_test_api to_chars =
     bind_res (test_api_json to_chars) (\<lambda>body.
       Inr \<lparr> h2_status = 200, h2_fields = [(''filed1'', ''value1''), (''field2'', ''value2'')], h2_body = body \<rparr>)"

text \<open>
  The exit status of \<open>main\<close>, given whether the certificate and the key load; the error of
  \<open>configure_tls_context_easy\<close> is not tested, and a failure to listen is only printed.
\<close>

definition server2_main :: "string option \<Rightarrow> string option \<Rightarrow> string option \<Rightarrow> nat \<times> string list" where
  "server2_main cert_error key_error listen_error =
     (case cert_error of Some m \<Rightarrow> (1, [''use_certificate_file: '' @ m]) | None \<Rightarrow>
      case key_error of Some m \<Rightarrow> (1, [''use_private_key_file: '' @ m]) | None \<Rightarrow>
      case listen_error of Some m \<Rightarrow> (0, [''listen_and_serve: '' @ m]) | None \<Rightarrow> (0, []))"

section \<open>The request of the clients\<close>

definition client_args :: "string \<Rightarrow> string \<Rightarrow> HttpReqArgument" where
  "client_args g_host g_port =
     \<lparr> host = g_host, port = g_port, dns_timeout = 5, conn_timeout = 3, req_timeout = 6 \<rparr>"

definition client2_args :: "string \<Rightarrow> string \<Rightarrow> HttpsReqArgument" where
  "client2_args g_host g_port =
     \<lparr> host = g_host, port = g_port, dns_timeout = 5, conn_timeout = 3, req_timeout = 6,
       handshake_timeout = 3, ssl_cert = [] \<rparr>"

definition client_request :: "string \<Rightarrow> string \<Rightarrow> request" where
  "client_request g_host g_target =
     \<lparr> req_method = ''GET'', req_target = g_target, req_version = 11,
       req_fields = no_fields\<lparr>other_fields := [(''Host'', g_host)]\<rparr>, req_expect = [], req_body = [] \<rparr>"

text \<open>
  The request of \<open>do_session\<close> in the two clients, on the cache of the program; \<^const>\<open>None\<close>
  is a request before \<open>init()\<close>.
\<close>

definition do_session :: "string \<Rightarrow> string \<Rightarrow> network \<Rightarrow> HttpCache option \<Rightarrow> (response \<times> HttpCache option) option" where
  "do_session g_host g_port n cache = h1_req n (client_args g_host g_port) cache"

definition do_session2 ::
  "string \<Rightarrow> string \<Rightarrow> network \<Rightarrow> bool \<Rightarrow> h2_event list \<Rightarrow> HttpCache option \<Rightarrow> (h2_result \<times> HttpCache option) option" where
  "do_session2 g_host g_port n submitted events cache =
     map_option (\<lambda>c. let (r, cs) = h2_req n (client2_args g_host g_port) submitted events (m_h2s_conns c)
                     in (r, Some (c\<lparr>m_h2s_conns := cs\<rparr>))) cache"

section \<open>Dispatch after registration\<close>

definition resources_ok :: "(string \<times> (string \<times> resource_call) list) list \<Rightarrow> bool" where
  "resources_ok rs \<longleftrightarrow> sorted_wrt RegexOrderable_less (map fst rs) \<and> list_all (\<lambda>(_, ms). omap_ok ms) rs"

lemma regex_order: "RegexOrderable_less = (<)"
  by (simp add: RegexOrderable_less_def fun_eq_iff)

lemma resources_ok_omap: "resources_ok rs \<Longrightarrow> omap_ok rs \<and> (\<forall>k ms. map_of rs k = Some ms \<longrightarrow> omap_ok ms)"
  by (auto simp: resources_ok_def omap_ok_def regex_order list_all_iff dest!: map_of_SomeD)

lemma set_omap_set: "set (omap_set k v ms) \<subseteq> insert (k, v) (set ms)"
  by (induction k v ms rule: omap_set.induct) auto

text \<open>Registering keeps the order of the maps and changes the entry of its verb and expression only.\<close>

lemma register_lookup:
  assumes "resources_ok rs"
  shows "resources_ok (register_resource regex verb fn rs)
    \<and> (map_of (register_resource regex verb fn rs) r = None \<longleftrightarrow> r \<noteq> regex \<and> map_of rs r = None)
    \<and> map_of (case map_of (register_resource regex verb fn rs) r of None \<Rightarrow> [] | Some ms \<Rightarrow> ms) v =
        (if r = regex \<and> v = verb then Some fn else map_of (case map_of rs r of None \<Rightarrow> [] | Some ms \<Rightarrow> ms) v)"
proof -
  let ?old = "case map_of rs regex of None \<Rightarrow> [] | Some ms \<Rightarrow> ms"
  note rs = resources_ok_omap [OF assms]
  have old: "omap_ok ?old" using rs by (auto simp: omap_ok_def split: option.splits)
  have "omap_ok (omap_set regex (omap_set verb fn ?old) rs)" using rs by (simp add: omap_ok_set)
  moreover have "list_all (\<lambda>(_, ms). omap_ok ms) (omap_set regex (omap_set verb fn ?old) rs)"
    using assms set_omap_set [of regex "omap_set verb fn ?old" rs] omap_ok_set [OF old, of verb fn]
    by (auto simp: resources_ok_def list_all_iff)
  ultimately have "resources_ok (register_resource regex verb fn rs)"
    by (simp add: resources_ok_def register_resource_def regex_order omap_ok_def)
  then show ?thesis
    using rs old by (auto simp: register_resource_def map_of_omap_set split: option.splits)
qed

text \<open>The body of the example: \<open>{"error_code":0}\<close>.\<close>

definition error_code_text :: string where
  "error_code_text = [CHR ''{'', CHR 0x22] @ ''error_code'' @ [CHR 0x22] @ '':0}''"

lemma test_api_json_text: "test_api_json to_chars = Inr error_code_text"
proof -
  have "dump_escaped ''error_code'' = Inr ''error_code''" by code_simp
  moreover have "dump_integer True 0 = ''0''" by code_simp
  ultimately show ?thesis by (simp add: test_api_json_def error_code_text_def)
qed

section \<open>A session of the example server\<close>

definition test_path :: "string \<Rightarrow> string" where
  "test_path target = takeWhile (\<lambda>c. c \<noteq> CHR ''?'') target"

lemma TestApi_resources:
  "call_resource regex_match (TestApi what to_chars) cxt =
     (if req_method (req cxt) = ''GET''
      then map_option (\<lambda>g. Normal (cxt\<lparr>path_params := g, res := (res cxt)\<lparr>res_body := error_code_text\<rparr>\<rparr>))
             (regex_match (path cxt) ''^/test_api$'')
      else None)"
  by (simp add: call_resource_def TestApi_def HttpApiServer_def register_resource_def test_api_def
      test_api_json_text split: option.splits)

lemma path_routed: "path (routed cxt) = test_path (req_target (req cxt))"
  using parse_target_path [of "req_target (req cxt)" "path cxt" "[]"]
  by (auto simp: routed_def test_path_def split: prod.splits)

lemma routed_simps [simp]: "req (routed cxt) = req cxt" "res (routed cxt) = empty_response"
  by (simp_all add: routed_def split: prod.splits)

lemma client_request_simps [simp]:
  "req_method (client_request h t) = ''GET''" "req_target (client_request h t) = t"
  "req_version (client_request h t) = 11" "req_expect (client_request h t) = []"
  "req_keep_alive (client_request h t)"
  by (simp_all add: client_request_def req_keep_alive_def get_keep_alive_impl_def token_exists_def no_fields_def)

text \<open>The three answers of the server to a request of the client.\<close>

definition answer_status :: "(string \<Rightarrow> string \<Rightarrow> string list option) \<Rightarrow> string \<Rightarrow> nat" where
  "answer_status regex_match t =
     (if bad_target t then 400 else if regex_match (test_path t) ''^/test_api$'' = None then 404 else 200)"

definition answers :: "(string \<Rightarrow> string \<Rightarrow> string list option) \<Rightarrow> string \<Rightarrow> response \<Rightarrow> bool" where
  "answers regex_match t r \<longleftrightarrow> res_result r = answer_status regex_match t \<and> res_version r = 11 \<and> framed r
     \<and> (need_eof r \<longleftrightarrow> answer_status regex_match t \<noteq> 200)
     \<and> (answer_status regex_match t = 200 \<longrightarrow> res_body r = error_code_text)"

lemma TestApi_handle:
  assumes "length t < npos"
  shows "\<exists>c. handle_request regex_match (TestApi what to_chars) (cxt\<lparr>req := client_request h t\<rparr>) = Normal c
    \<and> answers regex_match t (res c)"
proof -
  let ?cxt = "cxt\<lparr>req := client_request h t\<rparr>"
  obtain rs where srv: "TestApi what to_chars = HttpApiServer rs" by (simp add: TestApi_def)
  have "length (req_target (req ?cxt)) < npos" using assms by simp
  note cases = handle_request_cases [OF this, of regex_match rs, folded srv]
  show ?thesis
  proof (cases "bad_target t \<or> regex_match (test_path t) ''^/test_api$'' = None")
    case True
    then show ?thesis
      using bad_resource_shape [of "''path must be absolute and not contain '' @ [CHR 0x22] @ ''..'' @ [CHR 0x22]"
          "?cxt\<lparr>res := empty_response\<rparr>"] default_resource_shape [of "routed ?cxt"]
      by (auto simp: cases TestApi_resources path_routed answers_def answer_status_def)
  next
    case False
    then obtain g where "regex_match (test_path t) ''^/test_api$'' = Some g" by auto
    then show ?thesis
      using False finish_response_shape [of "(routed ?cxt)\<lparr>path_params := g, res := empty_response\<lparr>res_body := error_code_text\<rparr>\<rparr>"]
      by (simp add: cases TestApi_resources path_routed answers_def answer_status_def) (simp add: empty_response_def)
  qed
qed

definition clear_round :: "request \<Rightarrow> round" where
  "clear_round q = \<lparr> r_running = True, r_read_header = No_error, r_request = q, r_write_continue = No_error,
     r_read = No_error, r_write = No_error \<rparr>"

lemma clear_round_simps [simp]:
  "r_running (clear_round q)" "r_read_header (clear_round q) = No_error" "r_request (clear_round q) = q"
  "r_read (clear_round q) = No_error" "r_write (clear_round q) = No_error"
  by (simp_all add: clear_round_def)

lemma TestApi_session_loop:
  assumes "length t < npos"
  shows "\<exists>rs e. session_loop (\<lambda>c. c) (handle_request regex_match (TestApi what to_chars)) (\<lambda>c. c) cxt
        (replicate k (clear_round (client_request h t))) = (map Response rs, e)
    \<and> list_all (answers regex_match t) rs
    \<and> (if answer_status regex_match t = 200 \<or> k = 0 then length rs = k \<and> e = Waiting else length rs = 1 \<and> e = Closed)"
proof (induction k arbitrary: cxt)
  case (Suc k)
  obtain c where c: "handle_request regex_match (TestApi what to_chars) (cxt\<lparr>req := client_request h t\<rparr>) = Normal c"
      "answers regex_match t (res c)"
    using TestApi_handle [OF assms] by blast
  obtain rs e where rs: "session_loop (\<lambda>c. c) (handle_request regex_match (TestApi what to_chars)) (\<lambda>c. c) c
        (replicate k (clear_round (client_request h t))) = (map Response rs, e)" "list_all (answers regex_match t) rs"
      "if answer_status regex_match t = 200 \<or> k = 0 then length rs = k \<and> e = Waiting else length rs = 1 \<and> e = Closed"
    using Suc.IH by blast
  show ?case
  proof (cases "answer_status regex_match t = 200")
    case True
    then have "\<not> need_eof (res c)" using c(2) by (simp add: answers_def)
    then show ?thesis
      using True c rs by (intro exI [of _ "res c # rs"]) simp
  next
    case False
    then have "need_eof (res c)" using c(2) by (simp add: answers_def)
    then show ?thesis
      using False c by (intro exI [of _ "[res c]"]) simp
  qed
qed simp

lemma TestApi_session:
  assumes "length t < npos"
    and "session regex_match (TestApi what to_chars) no_hook no_hook (Some ep)
          (replicate (Suc k) (clear_round (client_request h t))) = (evs, e)"
  shows "list_all (answers regex_match t) (responses evs)
    \<and> (length (responses evs), e) = (if answer_status regex_match t = 200 then (Suc k, Waiting) else (1, Closed))"
proof -
  have hook: "no_hook = (\<lambda>c. c)" by (simp add: no_hook_def fun_eq_iff)
  obtain rs where "evs = map Response rs" "list_all (answers regex_match t) rs"
      "if answer_status regex_match t = 200 then length rs = Suc k \<and> e = Waiting else length rs = 1 \<and> e = Closed"
    using TestApi_session_loop [OF assms(1), of regex_match what to_chars _ "Suc k" h] assms(2)
    unfolding session_def option.case hook by (metis Pair_inject nat.distinct(1))
  moreover have "responses (map Response xs) = xs" for xs by (induction xs) simp_all
  ultimately show ?thesis by simp
qed

text \<open>
  C5: the example client and the example server agree. The server answers every request of the
  client on a connection with status 200 and the body \<open>{"error_code":0}\<close> when the target matches
  its expression, and keeps the connection; otherwise it answers the first request with 404, or
  400 for a target that is not absolute or has two dots in a row, and closes the connection.
  When the network hands one of these responses to the client, the client reports it
  and gives the connection back to its cache exactly when the server has kept it.
\<close>

theorem example_exchange:
  assumes "length g_target < npos"
    and "session regex_match (TestApi what to_chars) no_hook no_hook (Some ep)
          (replicate (Suc k) (clear_round (client_request g_host g_target))) = (evs, e)"
    and "get_http_connect n (client_args g_host g_port) (m_h1_conns cache) = (Some p, conns')"
    and "write_result n = Io_ok" and "read_result n = Io_ok"
    and "i < length (responses evs)" and "answer n = responses evs ! i"
  shows "(length (responses evs), e) = (if answer_status regex_match g_target = 200 then (Suc k, Waiting) else (1, Closed))
    \<and> (\<exists>r. do_session g_host g_port n (Some cache) = Some (r, Some (cache\<lparr>m_h1_conns :=
            (if answer_status regex_match g_target = 200 then release_http_connect p (now_release n) conns'
             else delete_invalid_http_connect p conns')\<rparr>))
        \<and> res_result r = answer_status regex_match g_target \<and> framed r
        \<and> (answer_status regex_match g_target = 200 \<longrightarrow> res_body r = error_code_text))"
proof -
  note sess = TestApi_session [OF assms(1,2)]
  have "answers regex_match g_target (answer n)" using assms(6,7) sess by (simp add: list_all_length)
  then show ?thesis
    using assms(3-5) sess by (auto simp: do_session_def h1_req_def h1_req_http_def answers_def)
qed

theorem example_exchange_witness:
  "\<exists>evs e r cache. session (\<lambda>p e. if p = ''/test_api'' then Some [p] else None) (TestApi (\<lambda>_. []) (\<lambda>_ :: unit. [])) no_hook no_hook (Some ''a'')
       (replicate (Suc 2) (clear_round (client_request ''h'' ''/test_api?x''))) = (evs, e)
     \<and> length (responses evs) = 3
     \<and> do_session ''h'' ''1'' (calm\<lparr>read_result := Io_ok, answer := responses evs ! 1\<rparr>) (init None) = Some (r, cache)
     \<and> res_result r = 200 \<and> res_body r = error_code_text"
proof -
  let ?rm = "\<lambda>p (e :: string). if p = ''/test_api'' then Some [p] else None"
  let ?srv = "TestApi (\<lambda>_. []) (\<lambda>_ :: unit. [])"
  let ?cache = "\<lparr>m_h1_conns = [], m_h1s_conns = [], m_h2s_conns = []\<rparr> :: HttpCache"
  obtain evs e where s: "session ?rm ?srv no_hook no_hook (Some ''a'')
      (replicate (Suc 2) (clear_round (client_request ''h'' ''/test_api?x''))) = (evs, e)" by fastforce
  let ?n = "calm\<lparr>read_result := Io_ok, answer := responses evs ! 1\<rparr>"
  have st: "answer_status ?rm ''/test_api?x'' = 200"
    by (simp add: answer_status_def bad_target_def test_path_def)
  obtain c where c: "get_http_connect ?n (client_args ''h'' ''1'') (m_h1_conns ?cache) = (Some 7, c)"
    by (simp add: get_http_connect_def find_http_connect_def delete_timeout_http_connect_def resolve_def connect_def calm_def)
  have len: "length ''/test_api?x'' < npos" by (simp add: npos_def)
  have n: "write_result ?n = Io_ok" "read_result ?n = Io_ok" "answer ?n = responses evs ! 1" by (simp_all add: calm_def)
  have i: "1 < length (responses evs)" using TestApi_session [OF len s] st by simp
  have "length (responses evs) = 3 \<and> (\<exists>r cache. do_session ''h'' ''1'' ?n (Some ?cache) = Some (r, cache)
      \<and> res_result r = 200 \<and> res_body r = error_code_text)"
    using example_exchange [OF len s c n(1,2) i n(3)] st by auto
  then show ?thesis using s by (auto simp: init_def)
qed

section \<open>The exchange over HTTP/2\<close>

lemma h2_on_data_body:
  "list_all (\<lambda>d. d \<noteq> []) ds \<Longrightarrow> h2_on_data (ds @ [[]]) body printed =
     (if body @ concat ds = [] then printed else printed @ [body @ concat ds])"
  by (induction ds arbitrary: body) auto

text \<open>The answer of the HTTP/2 example, cut into any non-empty pieces, is what its client reports.\<close>

lemma h2_exchange:
  assumes "h2_test_api to_chars = Inr a" and "concat ds = h2_body a" and "\<forall>d \<in> set ds. d \<noteq> []"
    and "get_http2s_connect n (client2_args g_host g_port) (m_h2s_conns cache) = (Some p, conns)"
  shows "\<exists>r. do_session2 g_host g_port n True
      (On_response (h2_status a) (h2_fields a) # map On_data ds @ [On_data []]) (Some cache)
        = Some (Reported r, Some (cache\<lparr>m_h2s_conns := conns\<rparr>))
    \<and> res_result r = 200 \<and> res_body r = error_code_text \<and> framed r"
proof -
  have a: "h2_status a = 200" "h2_body a = error_code_text"
    using assms(1) by (auto simp: h2_test_api_def test_api_json_text)
  then have "ds \<noteq> []" using assms(2) by (auto simp: error_code_text_def)
  then show ?thesis
    using h2_req_pieces [OF assms(4,3), of "h2_status a" "h2_fields a"] assms(2) a by (auto simp: do_session2_def)
qed

end
