(* ===== verification/Example_Client.thy ===== *)
theory Example_Client
  imports Prelude
begin

text \<open>
  The rounds of the example clients (\<open>examples/http/client_main.cpp\<close>, \<open>client2_main.cpp\<close>): \<open>main\<close>
  starts one fiber per request and waits on a condition variable until as many responses
  have been counted. All fibers run on one thread; a step is what a fiber does between two
  points where it may wait. How a request is answered is the matter of Http_Client, which
  always reports a response; a session can still fail with an exception, which it catches.
\<close>

section \<open>State and steps\<close>

datatype session_pc = Requesting | Answered | Counted | Failed

datatype main_pc = Testing | Asleep | Round_over

record client =
  g_host :: string
  g_port :: string
  g_target :: string
  g_request_count :: int
  g_response_count :: int
  session_at :: "session_pc list"
  main_at :: main_pc

text \<open>
  The body of the loop of \<open>main\<close> up to its wait; a count below one starts no fiber. At the end
  of a round \<open>main\<close> sleeps for five seconds and starts the next one.
\<close>

definition start_round :: "client \<Rightarrow> client" where
  "start_round s =
     s\<lparr> g_response_count := 0, session_at := replicate (nat (g_request_count s)) Requesting, main_at := Testing \<rparr>"

text \<open>The globals of the program after \<open>main\<close> has read its arguments.\<close>

definition client_globals :: "string list \<Rightarrow> client" where
  "client_globals argv =
     \<lparr> g_host = argv ! 1, g_port = argv ! 2, g_target = argv ! 3, g_request_count = atoi (argv ! 4),
       g_response_count = 0, session_at = [], main_at = Testing \<rparr>"

text \<open>
  \<open>main\<close> exits with the usage message on the left, or is in its first round. The two
  programs differ in the example they print and in the request their sessions make.
\<close>

definition client_usage :: "string \<Rightarrow> string list \<Rightarrow> string" where
  "client_usage example argv =
     (let name = (case argv of [] \<Rightarrow> [] | a # _ \<Rightarrow> a)
      in ''Usage: '' @ name @ '' <host> <port> <target> <count>'' @ [CHR 0x0A] @ ''Example:'' @ [CHR 0x0A] @ ''    ''
         @ name @ example @ [CHR 0x0A])"

definition client_main :: "string list \<Rightarrow> string + client" where
  "client_main argv =
     (if length argv \<noteq> 5 then Inl (client_usage '' 127.0.0.1 28080 /test_api 300 '' argv)
      else Inr (start_round (client_globals argv)))"

definition client2_main :: "string list \<Rightarrow> string + client" where
  "client2_main argv =
     (if length argv \<noteq> 5 then Inl (client_usage '' 127.0.0.1 28443 /test_api 300 '' argv)
      else Inr (start_round (client_globals argv)))"

text \<open>The part of \<open>do_session\<close> under the mutex.\<close>

definition count_response :: "nat \<Rightarrow> client \<Rightarrow> client" where
  "count_response i s =
     (let n = g_response_count s + 1
      in s\<lparr> session_at := (session_at s)[i := Counted], g_response_count := n,
            main_at := (if n = g_request_count s \<and> main_at s = Asleep then Testing else main_at s) \<rparr>)"

inductive client_step :: "client \<Rightarrow> client \<Rightarrow> bool" where
  Answer: "i < length (session_at s) \<Longrightarrow> session_at s ! i = Requesting
    \<Longrightarrow> client_step s (s\<lparr>session_at := (session_at s)[i := Answered]\<rparr>)"
| Throw: "i < length (session_at s) \<Longrightarrow> session_at s ! i = Requesting
    \<Longrightarrow> client_step s (s\<lparr>session_at := (session_at s)[i := Failed]\<rparr>)"
| Tally: "i < length (session_at s) \<Longrightarrow> session_at s ! i = Answered \<Longrightarrow> client_step s (count_response i s)"
| Main_wait: "main_at s = Testing
    \<Longrightarrow> client_step s (s\<lparr>main_at := (if g_response_count s = g_request_count s then Round_over else Asleep)\<rparr>)"

definition client_idle :: "client \<Rightarrow> bool" where
  "client_idle s \<longleftrightarrow> (\<forall>s'. \<not> client_step s s')"

section \<open>A round ends when no session fails\<close>

abbreviation tallied :: "client \<Rightarrow> nat" where
  "tallied s \<equiv> length (filter (\<lambda>p. p = Counted) (session_at s))"

definition client_inv :: "int \<Rightarrow> client \<Rightarrow> bool" where
  "client_inv n s \<longleftrightarrow> g_request_count s = n \<and> length (session_at s) = nat n \<and> g_response_count s = int (tallied s)
     \<and> (main_at s = Asleep \<longrightarrow> g_response_count s \<noteq> n) \<and> (main_at s = Round_over \<longrightarrow> g_response_count s = n)"

lemma tallied_update:
  "i < length xs \<Longrightarrow> xs ! i \<noteq> Counted \<Longrightarrow>
     length (filter (\<lambda>p. p = Counted) (xs[i := p])) =
       length (filter (\<lambda>p. p = Counted) xs) + (if p = Counted then 1 else 0)"
proof (induction xs arbitrary: i)
  case (Cons x xs)
  then show ?case by (cases i) auto
qed simp

lemma tallied_bound: "i < length xs \<Longrightarrow> xs ! i \<noteq> Counted \<Longrightarrow> length (filter (\<lambda>p. p = Counted) xs) < length xs"
  by (metis (full_types) length_filter_less nth_mem)

lemma client_inv_step:
  assumes inv: "client_inv n s" and "client_step s s'"
  shows "client_inv n s'"
  using assms(2)
proof cases
  case (Tally i)
  have "tallied s < nat n" using Tally tallied_bound [of i "session_at s"] inv by (simp add: client_inv_def)
  with Tally inv show ?thesis
    by (auto simp: client_inv_def count_response_def Let_def tallied_update)
qed (use inv in \<open>auto simp: client_inv_def tallied_update\<close>)

interpretation client_round: inductive_invariant "\<lambda>s. \<exists>s1. s = start_round s1 \<and> g_request_count s1 = n" client_step "client_inv n" for n
proof
  show "client_inv n s" if "\<exists>s1. s = start_round s1 \<and> g_request_count s1 = n" for s
    using that by (auto simp: client_inv_def start_round_def)
qed (rule client_inv_step)

text \<open>Only the sessions, their count and \<open>main\<close> change, so that the next round starts as this one did.\<close>

lemma start_round_step: "client_step s s' \<Longrightarrow> start_round s' = start_round s"
  by (induction rule: client_step.induct) (simp_all add: start_round_def count_response_def Let_def)

lemma start_round_steps: "(client_step ^^ k) s s' \<Longrightarrow> start_round s' = start_round s"
proof (induction k arbitrary: s')
  case (Suc k)
  then obtain u where "(client_step ^^ k) s u" "client_step u s'" by auto
  with Suc.IH [of u] start_round_step [of u s'] show ?case by simp
qed simp

lemma start_round_again: "start_round (start_round s) = start_round s"
  by (simp add: start_round_def)

fun session_work :: "session_pc \<Rightarrow> nat" where
  "session_work Requesting = 3"
| "session_work Answered = 2"
| "session_work _ = 0"

definition client_work :: "client \<Rightarrow> nat" where
  "client_work s = sum_list (map session_work (session_at s)) + (if main_at s = Testing then 1 else 0)"

lemma client_work_step: "client_step s s' \<Longrightarrow> client_work s' < client_work s"
proof (induction rule: client_step.induct)
  case (Answer i s)
  then show ?case using sum_list_map_update [of i "session_at s" session_work Answered]
    by (simp add: client_work_def)
next
  case (Throw i s)
  then show ?case using sum_list_map_update [of i "session_at s" session_work Failed]
    by (simp add: client_work_def)
next
  case (Tally i s)
  then show ?case using sum_list_map_update [of i "session_at s" session_work Counted]
    by (simp add: client_work_def count_response_def Let_def)
qed (simp add: client_work_def)

lemma client_work_bound: "(client_step ^^ k) s t \<Longrightarrow> k + client_work t \<le> client_work s"
proof (induction k arbitrary: t)
  case (Suc k)
  then obtain u where "(client_step ^^ k) s u" "client_step u t" by auto
  with Suc.IH [of u] client_work_step [of u t] show ?case by simp
qed simp

lemma client_idle_sessions:
  assumes "client_idle s"
  shows "main_at s \<noteq> Testing \<and> set (session_at s) \<subseteq> {Counted, Failed}"
proof -
  have no: "\<not> client_step s s'" for s' using assms by (simp add: client_idle_def)
  have "session_at s ! i \<in> {Counted, Failed}" if "i < length (session_at s)" for i
    using no Answer [OF that] Tally [OF that] by (cases "session_at s ! i") auto
  then have "set (session_at s) \<subseteq> {Counted, Failed}" by (metis in_set_conv_nth subsetI)
  then show ?thesis using no Main_wait [of s] by auto
qed

lemma client_idle_over:
  assumes inv: "client_inv n s" and idle: "client_idle s"
  shows "main_at s = Round_over \<longleftrightarrow> 0 \<le> n \<and> Failed \<notin> set (session_at s)"
proof -
  note fin = client_idle_sessions [OF idle]
  have "tallied s = length (session_at s) \<longleftrightarrow> (\<forall>p \<in> set (session_at s). p = Counted)"
    by (metis (full_types) filter_True length_filter_less less_irrefl)
  then have "tallied s = length (session_at s) \<longleftrightarrow> Failed \<notin> set (session_at s)" using fin by blast
  then show ?thesis using inv fin by (cases "main_at s") (auto simp: client_inv_def)
qed

text \<open>
  C23: a round of either example client takes at most three steps per request and one more, in
  every order of its fibers. When nothing more can happen, \<open>main\<close> has gone on to the next
  round exactly when no session failed and the count on the command line was not negative, and
  then every request has been counted and the next round starts in the state in which this one
  started. A session that catches an exception is not counted, and
  \<open>main\<close> then waits for ever, as it does for a negative count.
\<close>

theorem client_round_ends:
  assumes "client_main argv = Inr s0 \<or> client2_main argv = Inr s0" and "(client_step ^^ k) s0 s"
  shows "k \<le> 3 * nat (atoi (argv ! 4)) + 1
    \<and> (client_idle s \<longrightarrow> (main_at s = Round_over \<longleftrightarrow> 0 \<le> atoi (argv ! 4) \<and> Failed \<notin> set (session_at s)))
    \<and> (main_at s = Round_over \<longrightarrow> int (length (filter (\<lambda>p. p = Counted) (session_at s))) = atoi (argv ! 4)
        \<and> length (session_at s) = nat (atoi (argv ! 4)) \<and> start_round s = s0)"
proof -
  let ?n = "atoi (argv ! 4)"
  have s0: "s0 = start_round (client_globals argv)"
    using assms(1) by (auto simp: client_main_def client2_main_def split: if_splits)
  have inv: "client_inv ?n s"
    using client_round.reachable_inv [OF exI [of _ "client_globals argv"], of s0 ?n s] s0 assms(2)
    by (simp add: relpowp_imp_rtranclp client_globals_def)
  have "client_work s0 = 3 * nat ?n + 1"
    by (simp add: s0 start_round_def client_globals_def client_work_def sum_list_replicate)
  moreover have "start_round s = s0" using start_round_steps [OF assms(2)] by (simp add: s0 start_round_again)
  ultimately show ?thesis
    using client_work_bound [OF assms(2)] client_idle_over [OF inv] inv by (auto simp: client_inv_def)
qed

theorem client_round_ends_witness:
  "\<exists>s0 s. client_main [''c'', ''h'', ''1'', ''/t'', ''1''] = Inr s0 \<and> (client_step ^^ 4) s0 s \<and> main_at s = Round_over
     \<and> int (length (filter (\<lambda>p. p = Counted) (session_at s))) = 1 \<and> start_round s = s0"
proof -
  let ?argv = "[''c'', ''h'', ''1'', ''/t'', ''1'']"
  let ?t = "\<lambda>r p m. \<lparr> g_host = ''h'', g_port = ''1'', g_target = ''/t'', g_request_count = 1,
    g_response_count = r, session_at = [p], main_at = m \<rparr>"
  have n: "atoi ''1'' = 1" by code_simp
  have argv: "client_main ?argv = Inr (?t 0 Requesting Testing)"
    by (simp add: client_main_def start_round_def client_globals_def n)
  have "client_step (?t 0 Requesting Testing) (?t 0 Answered Testing)"
    using Answer [of 0 "?t 0 Requesting Testing"] by simp
  moreover have "client_step (?t 0 Answered Testing) (?t 0 Answered Asleep)"
    using Main_wait [of "?t 0 Answered Testing"] by simp
  moreover have "client_step (?t 0 Answered Asleep) (?t 1 Counted Testing)"
    using Tally [of 0 "?t 0 Answered Asleep"] by (simp add: count_response_def)
  moreover have "client_step (?t 1 Counted Testing) (?t 1 Counted Round_over)"
    using Main_wait [of "?t 1 Counted Testing"] by simp
  ultimately have steps: "(client_step ^^ 4) (?t 0 Requesting Testing) (?t 1 Counted Round_over)"
    by (auto simp: numeral_eq_Suc)
  show ?thesis using client_round_ends [OF disjI1 [OF argv] steps] argv steps n by (auto intro!: exI)
qed

end
