(* ===== verification/Spec2Isabelle.thy ===== *)
theory Spec2Isabelle
  imports Prelude Url_Parser Web_Utility Json_Value Json_Lexer Json_Parser
    Json_Scan Json_Roundtrip Json_Sql Http_Server Server_Lifecycle
    Server_Threads Connection_Pool Http_Client Fiber_Channel Wait_Engine Wait_First Wait_All
    Wait_Simple Nchannel_Race Fiber_Promise Fiber_Token Fiber_Frame Logger Log_Core Db_Helper
    Exception_Trace Example_Server Example_Client
begin

text \<open>
  A verification of jkit, a C++ library for network services that run on fibers. This theory
  collects the development.

  \<^bold>\<open>The program.\<close> An HTTP server (\<open>http/http_api_server.cpp\<close>) accepts connections, runs a
  session fiber for each and dispatches requests to resource functions by method and regular
  expression. An HTTP client (\<open>http/multi_client_http.cpp\<close>) keeps caches of connections for
  HTTP, HTTPS and HTTP/2. Both wait for asynchronous operations with futures for fibers
  (\<open>common/fiber/use_fiber_future.hpp\<close>); programs combine fibers with the waiting functions of
  \<open>common/fiber/wait_stuff.hpp\<close> inside the frame of \<open>common/fiber/fiber_frame_context.hpp\<close>. URLs,
  query strings, media types and percent encoding are handled in \<open>common/LUrlParser.cpp\<close> and
  \<open>common/web_utility.hpp\<close>. SQL statements are generated from JSON values in
  \<open>db/json2sql.cpp\<close> and run on sessions of \<open>db/soci_pgsql.hpp\<close>. Logging is set up in
  \<open>common/logger.cpp\<close>, and \<open>common/logger.h\<close> has the logging functions. The programs of
  \<open>examples/http\<close> put a server and two clients together from these parts.

  \<^bold>\<open>How the code is modelled.\<close> A class or struct is a record, an enumeration a datatype, one
  definition per function or loop. Code that throws returns \<open>'e + 'a\<close>, with the exception on
  the left; \<open>bind_res\<close> of Prelude is the sequence of statements. Strings are byte lists;
  indices that may wrap are written with the wrap, and 64-bit integers are words. Concurrent
  code is a step relation, or a list of actions for a schedule, that leaves the order of the
  fibers open; what holds in all reachable states is proved through the locale
  \<open>inductive_invariant\<close> of Prelude.

  \<^bold>\<open>Text.\<close>
  \<^item> Url_Parser: \<open>clParseURL\<close> with \<open>ParseURL\<close> stage by stage (\<open>parse_scheme\<close>, \<open>parse_user\<close>,
    \<open>parse_host\<close>, \<open>parse_port\<close>, \<open>parse_path\<close>) on null-terminated buffers, and \<open>GetPort\<close>. Printed
    URLs parse back, an accepted text is the concatenation of its parts, the error code is that of
    an independent description of the text (\<open>url_error\<close>), and the port is the number in the text as
    \<open>atoi\<close> converts it, in range.
  \<^item> Web_Utility: case-insensitive names and their hash (locale \<open>hash_key\<close>), \<open>Percent\<close>,
    \<open>mime_type\<close>, \<open>parse_target\<close>, \<open>parse_query_string\<close>. The container of the parameters promises
    no order and is a multiset; the parser gives the calls that fill it. The index loop of the query parser equals a
    declarative split and never throws; encoding round trips with its limits; media types are
    a table lookup.
  \<^item> Json_Value: the JSON values the program uses and the serialiser of the vendored JSON
    library (\<open>dump\<close>, \<open>dump_escaped\<close> with its buffer and UTF-8 automaton, \<open>dump_integer\<close>). Escaping
    accepts exactly UTF-8, stays within its buffer and reads back; objects with their key order
    are an instance of the locale \<open>dictionary\<close>.
  \<^item> Json_Lexer, Json_Parser: the scanner and the parser of the same library, as \<open>json::parse\<close> runs
    them when a column is read, total on every input. Json_Scan, Json_Roundtrip: the parser
    reads back what the serialiser writes (an instance of the locale \<open>text_codec\<close>, as is percent
    encoding), and what it accepts is UTF-8, has its members in order and can be written.
  \<^item> Json_Sql: every function of \<open>JsonSql\<close>. The exact text of the statements, when they throw, that
    overloads agree, that value lists read back, and that quotes are not escaped.

  \<^bold>\<open>Server and client.\<close>
  \<^item> Http_Server: \<open>handle_request\<close>, \<open>call_resource\<close> and the \<open>session\<close> loop, run against a script of
    what the socket delivers; resource functions, hooks and regular-expression matching are
    arguments. The first matching resource is called, only on clean targets; every response is
    framed; a session writes at most one response per request and nothing after one that ends
    the connection.
  \<^item> Server_Lifecycle: \<open>start\<close>, \<open>accept\<close>, \<open>stop\<close> and the session counter as a step relation. \<open>stop\<close>
    waits for every session and is woken; two situations from which it cannot end: an acceptor
    closed under a connection just accepted, and one closed before it was opened.
  \<^item> Server_Threads: the vectors of threads of the server and the client cache over start, stop,
    restart and destruction, and the options of the sockets. Stopping a restarted server throws.
  \<^item> Connection_Pool: the caches and their operations, with fibers interleaved at the points
    where they wait. The locale \<open>exclusive_cache\<close> is interpreted for the HTTP and the HTTPS
    cache: no connection has two users, none is lost.
  \<^item> Http_Client: \<open>resolve\<close>, \<open>connect\<close>, \<open>set_ssl\<close>, \<open>h1_req\<close> and \<open>h2_req\<close> against a script of network
    outcomes. Requests release or remove their connection on every path, connections are
    reused, HTTP/2 responses are assembled.

  \<^bold>\<open>Fibers.\<close>
  \<^item> Fiber_Channel: the bounded channel of the fiber library as a ring of slots; locale
    \<open>fifo_channel\<close>, and the refinement of a bounded queue for every sequence of operations.
  \<^item> Wait_Engine: the machine of the waiting functions that use a channel: the caller, one
    fiber per function, the facade \<open>nchannel\<close>, and schedules of actions (\<open>run\<close>). Every step lowers
    the measure \<open>work\<close>, so n functions need at most 5 n + 2 steps; no fuel is involved. The
    invariant \<open>flow_inv\<close> says that the caller has taken the first arrivals, in order.
  \<^item> Wait_First, Wait_All: the functions themselves, with the locales \<open>first_caller\<close>,
    \<open>all_caller\<close> and \<open>drain_caller\<close> for the three ways of reading the channel. They give the result
    of each function at the end of every schedule as a function of the order of arrival, the
    state of its fibers, and the fibers that \<open>wait_all_until_error\<close> leaves behind.
  \<^item> Nchannel_Race: the count-down of \<open>nchannel\<close> in the steps that threads can interleave (load,
    store, test), on a channel that holds 63 items. The channel is never closed early, but the
    close can be lost.
  \<^item> Wait_Simple: \<open>Done\<close>, \<open>wait_all_simple\<close> with the barrier as a parameter, \<open>wait_all_members\<close>.
  \<^item> Fiber_Promise: the completion handlers of \<open>use_future\<close>, their selection, executor and packaged
    form; locale \<open>write_once\<close> for the promise. Handlers fit their signatures; the first event
    decides what the future delivers.
  \<^item> Fiber_Token: the tokens with their allocators, the handlers they make and the
    reference-counted promises of several operations in flight. Each future depends on the
    events of its own operation only.
  \<^item> Fiber_Frame: the threads of \<open>FiberFrameContext\<close> and its stop flag.

  \<^bold>\<open>Others.\<close>
  \<^item> Logger: file names, record texts, severities and the syslog datagram. Log_Core: the sinks
    that \<open>init_logging\<close> and \<open>add_syslogging\<close> register and the logging functions; what a call
    writes to which sink, and when it throws. The record \<open>platform\<close> has what these depend on: the
    characters of the locale, the operations that fail, and the core of the logging library,
    whose documented behaviour is \<open>core_law\<close>.
  \<^item> Db_Helper: column conversions (a JSON value written to a column is read back) and \<open>DBHelper\<close>
    with its session pointers over a pool that is a parameter, with its documented laws as
    \<open>pool_laws\<close>; sessions are exclusive as long as \<open>start\<close> is not called while one is alive.
  \<^item> Exception_Trace: exceptions with a bounded stack trace and an error code.
  \<^item> Example_Server: the example servers, and the exchange of the example client with the example
    server as a composition of session, dispatch, JSON text, request and connection cache.
    Example_Client: the rounds of the clients as a step relation; a round ends unless a session fails.

  \<^bold>\<open>Bounds.\<close> The channel of the waiting functions has 64 slots and holds 63 items, as in the
  code; buffers have the sizes of the code (512 bytes for escaping, 2048 for a datagram). The
  scripts of the server and the client are lists, so that every session and request ends.

  \<^bold>\<open>Not modelled.\<close> Sockets, TLS, name resolution, HTTP/2 framing, the SOCI pool, regular
  expressions, \<open>boost::format\<close>, the conversions of floating-point numbers, the core of the logging library and
  the writing of log files are seen through their results or are parameters. Wait_Engine takes the count-down of
  \<open>nchannel\<close> as one step, as it is on one thread; Nchannel_Race splits it. Asynchronous log
  sinks, failures of the file operations of \<open>init_logging\<close> and the preprocessor branches for compilers without variadic templates are left out, as
  is memory (references that outlive their object, allocation failure).
\<close>

end
